(* ===== verification/Prelude.thy ===== *)
theory Prelude
  imports Main "HOL-Library.Word"
begin

text \<open>
  Shared vocabulary of the development: the types of Go values that every component uses, and the
  byte-string operations of the packages \<open>bytes\<close>, \<open>strings\<close> and \<open>strconv\<close> that the proxy calls.

  A Go \<open>string\<close> and a \<open>[]byte\<close> are both finite sequences of bytes. HOL's \<open>char\<close> is exactly an
  8-bit value, so both are \<open>char list\<close>; a literal \<open>''abc''\<close> is the byte sequence of the source
  literal. \<open>int\<close> of the source (64 bits on every supported platform) is \<open>int\<close> where no claim
  depends on its width, \<open>uint32\<close> and \<open>uint64\<close> are words.
\<close>

section \<open>Collections\<close>

text \<open>The definitions of the stage objects, and the branches of the request handler that answer without
  the upstream, each unfolded together.\<close>

named_theorems stage_defs
named_theorems handler_defs

section \<open>Types\<close>

type_synonym bytes = "char list"
type_synonym u32 = "32 word"
type_synonym u64 = "64 word"

text \<open>A \<open>time.Time\<close> is its reading in nanoseconds, a \<open>time.Duration\<close> a number of nanoseconds.\<close>

type_synonym time = int
type_synonym duration = int

definition Millisecond :: duration where "Millisecond = 1000000"
definition Second :: duration where "Second = 1000000000"
definition Minute :: duration where "Minute = 60000000000"

text \<open>\<open>t.Sub(u)\<close> saturates at the bounds of the 64-bit \<open>time.Duration\<close>.\<close>

definition time_sub :: "time \<Rightarrow> time \<Rightarrow> duration" where
  "time_sub t u = max (- (2 ^ 63)) (min (2 ^ 63 - 1) (t - u))"

lemma time_sub_less: "t - u < d \<Longrightarrow> 0 < d \<Longrightarrow> time_sub t u < d"
  by (auto simp: time_sub_def)

lemma time_sub_ge: "d \<le> t - u \<Longrightarrow> d < 2 ^ 63 \<Longrightarrow> d \<le> time_sub t u"
  by (auto simp: time_sub_def)

section \<open>Words\<close>

text \<open>Go's \<open>int\<close> and \<open>int64\<close> where a claim depends on their width: the value of \<open>x\<close> modulo \<open>2 ^ 64\<close> in the
  signed range.\<close>

definition wrap64 :: "int \<Rightarrow> int" where
  "wrap64 x = (x + 2 ^ 63) mod 2 ^ 64 - 2 ^ 63"

definition in_int64 :: "int \<Rightarrow> bool" where
  "in_int64 x \<longleftrightarrow> - (2 ^ 63) \<le> x \<and> x < 2 ^ 63"

lemma wrap64_id [simp]: "in_int64 x \<Longrightarrow> wrap64 x = x"
  by (simp add: wrap64_def in_int64_def)

lemma wrap64_range: "in_int64 (wrap64 x)"
  by (simp add: wrap64_def in_int64_def)

lemma wrap64_add_left [simp]: "wrap64 (wrap64 x + y) = wrap64 (x + y)"
proof -
  have "wrap64 x + y + 2 ^ 63 = (x + 2 ^ 63) mod 2 ^ 64 + y" by (simp add: wrap64_def)
  also have "\<dots> mod 2 ^ 64 = (x + 2 ^ 63 + y) mod 2 ^ 64" by (simp only: mod_add_left_eq)
  finally show ?thesis by (simp add: wrap64_def algebra_simps)
qed

lemma word_Suc_le: "(x :: 'a::len word) < y \<Longrightarrow> x + 1 \<le> y"
  by (simp add: inc_le)

lemma word_dec_le: "0 < (x :: 'a::len word) \<Longrightarrow> x \<le> y \<Longrightarrow> x - 1 \<le> y"
  by (metis leD less_eq_dec_iff nle_le)

lemma word_one_le: "(x :: 'a::len word) \<noteq> 0 \<Longrightarrow> 1 \<le> x"
  by (metis add_0 inc_le word_gt_0)

lemma unat_Suc_less: "unat (x :: 'a::len word) < unat (y :: 'a word) \<Longrightarrow> unat (x + 1) = Suc (unat x)"
proof -
  assume "unat x < unat y"
  moreover have "unat y < 2 ^ LENGTH('a)" by simp
  ultimately have "unat x + 1 < 2 ^ LENGTH('a)" by linarith
  then show ?thesis by (simp add: unat_word_ariths)
qed

lemma unat_dec: "0 < unat (x :: 'a::len word) \<Longrightarrow> unat (x - 1) = unat x - 1"
  by (metis unat_minus_one unat_eq_zero bot_nat_0.not_eq_extremum)

section \<open>Machines that run over a list of events\<close>

text \<open>
  A component with state is a step function and the events it handles. What every step keeps for the
  events that \<open>ok\<close> admits, every run keeps; a component interprets this locale with its own step
  and its own invariant.
\<close>

locale machine =
  fixes step :: "'e \<Rightarrow> 's \<Rightarrow> 's"
    and ok :: "'e \<Rightarrow> bool"
    and inv :: "'s \<Rightarrow> bool"
  assumes step_inv: "inv s \<Longrightarrow> ok e \<Longrightarrow> inv (step e s)"
begin

lemma run_inv: "inv s \<Longrightarrow> list_all ok es \<Longrightarrow> inv (fold step es s)"
  by (induction es arbitrary: s) (auto intro: step_inv)

lemma run_prefix_inv: "inv s \<Longrightarrow> list_all ok es \<Longrightarrow> inv (fold step (take n es) s)"
  using set_take_subset[of n es] by (intro run_inv) (auto simp: list_all_iff)

end

end
