(* ===== verification/Go_Strings.thy ===== *)
theory Go_Strings
  imports Prelude "HOL-Library.Sublist"
begin

text \<open>
  The byte-string operations of Go's packages \<open>bytes\<close>, \<open>strings\<close> and \<open>strconv\<close> that the proxy uses,
  with the facts about occurrences and replacements that the scanners rest on.
\<close>

section \<open>Prefixes, suffixes, occurrences\<close>

definition has_prefix :: "bytes \<Rightarrow> bytes \<Rightarrow> bool" where
  "has_prefix s p \<longleftrightarrow> take (length p) s = p"

definition has_suffix :: "bytes \<Rightarrow> bytes \<Rightarrow> bool" where
  "has_suffix s p \<longleftrightarrow> length p \<le> length s \<and> drop (length s - length p) s = p"

fun contains :: "bytes \<Rightarrow> bytes \<Rightarrow> bool" where
  "contains [] p \<longleftrightarrow> p = []"
| "contains (c # cs) p \<longleftrightarrow> has_prefix (c # cs) p \<or> contains cs p"

text \<open>\<open>strings.Index\<close>, with \<open>None\<close> for the result \<open>-1\<close>.\<close>

fun index_of :: "bytes \<Rightarrow> bytes \<Rightarrow> nat option" where
  "index_of [] p = (if p = [] then Some 0 else None)"
| "index_of (c # cs) p = (if has_prefix (c # cs) p then Some 0 else map_option Suc (index_of cs p))"

lemma has_prefix_iff: "has_prefix s p \<longleftrightarrow> (\<exists>q. s = p @ q)"
  unfolding has_prefix_def by (metis append_eq_conv_conj append_take_drop_id)

lemma has_prefix_Nil [simp]: "has_prefix s []"
  by (simp add: has_prefix_def)

lemma has_prefix_of_Nil [simp]: "has_prefix [] p \<longleftrightarrow> p = []"
  by (auto simp: has_prefix_def)

lemma has_prefix_Cons [simp]: "has_prefix (c # s) (x # p) \<longleftrightarrow> c = x \<and> has_prefix s p"
  by (auto simp: has_prefix_def)

lemma has_suffix_iff: "has_suffix s p \<longleftrightarrow> (\<exists>q. s = q @ p)"
  unfolding has_suffix_def
  by (metis append_take_drop_id append_eq_conv_conj add_diff_cancel_right' le_add2 length_append)

lemma has_suffix_suffix: "has_suffix s p \<longleftrightarrow> suffix p s"
  by (simp add: has_suffix_iff suffix_def)

lemma contains_iff: "contains s p \<longleftrightarrow> (\<exists>u v. s = u @ p @ v)"
proof (induction s)
  case Nil
  then show ?case by auto
next
  case (Cons c s)
  show ?case
    by (auto simp: Cons.IH has_prefix_iff Cons_eq_append_conv)
qed

lemma contains_sublist: "contains s p \<longleftrightarrow> sublist p s"
  by (simp add: contains_iff sublist_def)

lemma contains_Nil [simp]: "contains s []"
  by (cases s) simp_all

lemma contains_append_I1: "contains s p \<Longrightarrow> contains (s @ t) p"
  unfolding contains_iff by (metis append.assoc)

lemma contains_append_I2: "contains t p \<Longrightarrow> contains (s @ t) p"
  unfolding contains_iff by (metis append.assoc)

lemma contains_trans: "contains s p \<Longrightarrow> contains p q \<Longrightarrow> contains s q"
  unfolding contains_sublist using sublist_order.order_trans by blast

lemma contains_length: "contains s p \<Longrightarrow> length p \<le> length s"
  by (auto simp: contains_iff)

lemma contains_set: "contains s p \<Longrightarrow> set p \<subseteq> set s"
  by (auto simp: contains_iff)

text \<open>A byte that the pattern does not have splits the search.\<close>

lemma has_prefix_split: "d \<notin> set p \<Longrightarrow> has_prefix (x @ d # y) p \<longleftrightarrow> has_prefix x p"
proof (induction x arbitrary: p)
  case Nil
  then show ?case by (cases p) auto
next
  case (Cons a x)
  then show ?case by (cases p) auto
qed

lemma contains_split:
  "d \<notin> set p \<Longrightarrow> p \<noteq> [] \<Longrightarrow> contains (x @ d # y) p \<longleftrightarrow> contains x p \<or> contains y p"
proof (induction x)
  case Nil
  then show ?case by (cases p) auto
next
  case (Cons a x)
  then show ?case using has_prefix_split[of d p "a # x" y] by auto
qed

lemma index_of_None: "index_of s p = None \<longleftrightarrow> \<not> contains s p"
  by (induction s) auto

lemma index_of_Some:
  "index_of s p = Some i \<Longrightarrow> \<exists>v. s = take i s @ p @ v \<and> i + length p \<le> length s"
proof (induction s arbitrary: i)
  case Nil
  then show ?case by (auto split: if_splits)
next
  case (Cons c s)
  show ?case
  proof (cases "has_prefix (c # s) p")
    case True
    with Cons.prems show ?thesis
      by (auto simp: has_prefix_iff dest: arg_cong[where f = length])
  next
    case False
    with Cons.prems obtain j where "index_of s p = Some j" "i = Suc j" by auto
    with Cons.IH[of j] show ?thesis by auto
  qed
qed

section \<open>Replacement\<close>

text \<open>\<open>bytes.ReplaceAll\<close> for a nonempty \<open>old\<close>: leftmost occurrences first, never rescanning.\<close>

function replace_all :: "bytes \<Rightarrow> bytes \<Rightarrow> bytes \<Rightarrow> bytes" where
  "replace_all old new [] = []"
| "replace_all old new (c # cs) =
     (if old \<noteq> [] \<and> has_prefix (c # cs) old
      then new @ replace_all old new (drop (length old) (c # cs))
      else c # replace_all old new cs)"
  by pat_completeness auto
termination
  by (relation "measure (\<lambda>(old, new, s). length s)") (auto simp: Suc_le_eq)

lemma replace_all_absent: "\<not> contains s old \<Longrightarrow> replace_all old new s = s"
  by (induction s) auto

lemma prefix_of_replace_all:
  assumes "c \<notin> set p"
  shows "has_prefix (replace_all old (c # new) s) p \<Longrightarrow> has_prefix s p"
  using assms
proof (induction old "c # new" s arbitrary: p rule: replace_all.induct)
  case (1 old)
  then show ?case by simp
next
  case (2 old a s)
  show ?case
  proof (cases p)
    case (Cons x p')
    with 2 show ?thesis by (auto split: if_splits)
  qed simp
qed

text \<open>
  Redaction: if the replacement is bracketed by bytes that \<open>old\<close> does not have and does not hold
  \<open>old\<close> between them, then no occurrence of \<open>old\<close> is left, not even one formed by the replacement.
\<close>

lemma replace_all_removes:
  assumes "old \<noteq> []" and "c \<notin> set old" and "d \<notin> set old" and "\<not> contains mid old"
  shows "\<not> contains (replace_all old (c # mid @ [d]) s) old"
proof (induction s rule: length_induct)
  case (1 s)
  show ?case
  proof (cases s)
    case Nil
    with assms(1) show ?thesis by simp
  next
    case (Cons a s')
    let ?R = "replace_all old (c # mid @ [d])"
    show ?thesis
    proof (cases "has_prefix s old")
      case True
      let ?rest = "drop (length old) s"
      have "length ?rest < length s" using Cons assms(1) by auto
      with 1 have "\<not> contains (?R ?rest) old" by blast
      moreover have "?R s = [] @ c # (mid @ d # ?R ?rest)"
        using True assms(1) Cons by simp
      ultimately show ?thesis
        using assms contains_split[of c old "[]"] contains_split[of d old mid]
        by (simp del: contains.simps append_Nil) simp
    next
      case False
      have "\<not> contains (?R s') old" using 1 Cons by simp
      moreover have "\<not> has_prefix (a # ?R s') old"
      proof
        assume p: "has_prefix (a # ?R s') old"
        then obtain p' where old: "old = a # p'" using assms(1) by (cases old) auto
        with p assms(2) have "has_prefix s' p'"
          using prefix_of_replace_all[of c p' old "mid @ [d]" s'] by simp
        with False Cons old show False by simp
      qed
      ultimately show ?thesis using False Cons by simp
    qed
  qed
qed

text \<open>Such a replacement of other strings keeps absent what is absent.\<close>

lemma replace_all_keeps_absent:
  assumes "p \<noteq> []" and "c \<notin> set p" and "d \<notin> set p" and "\<not> contains mid p"
  shows "\<not> contains s p \<Longrightarrow> \<not> contains (replace_all old (c # mid @ [d]) s) p"
proof (induction s rule: length_induct)
  case (1 s)
  let ?R = "replace_all old (c # mid @ [d])"
  show ?case
  proof (cases s)
    case Nil
    with assms(1) show ?thesis by simp
  next
    case (Cons a s')
    show ?thesis
    proof (cases "old \<noteq> [] \<and> has_prefix s old")
      case True
      let ?rest = "drop (length old) s"
      have "s = old @ ?rest" using True by (auto simp: has_prefix_iff)
      then have "\<not> contains ?rest p" using "1.prems" contains_append_I2 by metis
      moreover have "length ?rest < length s" using Cons True by auto
      ultimately have "\<not> contains (?R ?rest) p" using "1.IH" by blast
      moreover have "?R s = [] @ c # (mid @ d # ?R ?rest)" using True Cons by simp
      ultimately show ?thesis
        using assms contains_split[of c p "[]"] contains_split[of d p mid]
        by (simp del: contains.simps append_Nil) simp
    next
      case False
      have "\<not> contains (?R s') p" using 1 Cons by simp
      moreover have "\<not> has_prefix (a # ?R s') p"
      proof
        assume h: "has_prefix (a # ?R s') p"
        then obtain p' where p: "p = a # p'" using assms(1) by (cases p) auto
        with h assms(2) have "has_prefix s' p'"
          using prefix_of_replace_all[of c p' old "mid @ [d]" s'] by simp
        with "1.prems" Cons p show False by simp
      qed
      ultimately show ?thesis using False Cons by auto
    qed
  qed
qed

section \<open>ASCII letters and white space\<close>

definition byte :: "char \<Rightarrow> nat" where "byte c = of_char c"

definition is_upper :: "char \<Rightarrow> bool" where "is_upper c \<longleftrightarrow> 65 \<le> byte c \<and> byte c \<le> 90"
definition is_lower :: "char \<Rightarrow> bool" where "is_lower c \<longleftrightarrow> 97 \<le> byte c \<and> byte c \<le> 122"
definition is_digit :: "char \<Rightarrow> bool" where "is_digit c \<longleftrightarrow> 48 \<le> byte c \<and> byte c \<le> 57"
definition is_ascii :: "char \<Rightarrow> bool" where "is_ascii c \<longleftrightarrow> byte c < 128"

definition lower_byte :: "char \<Rightarrow> char" where
  "lower_byte c = (if is_upper c then char_of (byte c + 32) else c)"

lemma byte_less [simp]: "byte c < 256"
  by (simp add: byte_def)

lemma byte_char_of [simp]: "n < 256 \<Longrightarrow> byte (char_of n) = n"
  by (simp add: byte_def)

lemma char_of_byte [simp]: "char_of (byte c) = c"
  by (simp add: byte_def)

lemma byte_inject: "byte c = byte d \<longleftrightarrow> c = d"
  by (simp add: byte_def)

lemma lower_byte_idem [simp]: "lower_byte (lower_byte c) = lower_byte c"
  by (auto simp: lower_byte_def is_upper_def)

text \<open>\<open>strings.EqualFold(s, t)\<close> for an ASCII \<open>t\<close> without the letters k and s, which alone have
  non-ASCII case variants.\<close>

definition equal_fold :: "bytes \<Rightarrow> bytes \<Rightarrow> bool" where
  "equal_fold s t \<longleftrightarrow> map lower_byte s = map lower_byte t"

text \<open>\<open>strings.TrimSpace\<close>: the UTF-8 encodings of the code points that \<open>unicode.IsSpace\<close> accepts.\<close>

definition byte_string :: "nat list \<Rightarrow> bytes" where
  "byte_string ns = map char_of ns"

definition space_encodings :: "bytes list" where
  "space_encodings = map byte_string
     ([[9], [10], [11], [12], [13], [32], [0xC2, 0x85], [0xC2, 0xA0], [0xE1, 0x9A, 0x80]] @
      map (\<lambda>n. [0xE2, 0x80, n])
        [0x80, 0x81, 0x82, 0x83, 0x84, 0x85, 0x86, 0x87, 0x88, 0x89, 0x8A, 0xA8, 0xA9, 0xAF] @
      [[0xE2, 0x81, 0x9F], [0xE3, 0x80, 0x80]])"

function trim_by :: "bytes list \<Rightarrow> bytes \<Rightarrow> bytes" where
  "trim_by ws s = (case find (\<lambda>w. w \<noteq> [] \<and> has_prefix s w) ws of
                     None \<Rightarrow> s | Some w \<Rightarrow> trim_by ws (drop (length w) s))"
  by pat_completeness auto
termination
  by (relation "measure (\<lambda>(ws, s). length s)")
     (auto simp: find_Some_iff has_prefix_iff split: prod.splits)

declare trim_by.simps [simp del]

definition trim_space :: "bytes \<Rightarrow> bytes" where
  "trim_space s = rev (trim_by (map rev space_encodings) (rev (trim_by space_encodings s)))"

section \<open>Decimal numerals\<close>

definition digit_char :: "nat \<Rightarrow> char" where "digit_char n = char_of (48 + n)"

fun dec_nat :: "nat \<Rightarrow> string" where
  "dec_nat n = (if n < 10 then [digit_char n] else dec_nat (n div 10) @ [digit_char (n mod 10)])"

declare dec_nat.simps [simp del]

definition dec_int :: "int \<Rightarrow> string" where
  "dec_int i = (if i < 0 then ''-'' @ dec_nat (nat (- i)) else dec_nat (nat i))"

definition dec_value :: "string \<Rightarrow> nat" where
  "dec_value s = foldl (\<lambda>a c. 10 * a + (byte c - 48)) 0 s"

lemma dec_value_dec_nat [simp]: "dec_value (dec_nat n) = n"
proof (induction n rule: dec_nat.induct)
  case (1 n)
  show ?case
  proof (cases "n < 10")
    case True
    then show ?thesis by (subst dec_nat.simps) (simp add: dec_value_def digit_char_def)
  next
    case False
    with 1 have "dec_value (dec_nat (n div 10)) = n div 10" by simp
    with False show ?thesis
      by (subst dec_nat.simps) (simp add: dec_value_def digit_char_def)
  qed
qed

lemma dec_nat_inject [simp]: "dec_nat m = dec_nat n \<longleftrightarrow> m = n"
  by (metis dec_value_dec_nat)

lemma dec_nat_digits: "c \<in> set (dec_nat n) \<Longrightarrow> is_digit c"
proof (induction n rule: dec_nat.induct)
  case (1 n)
  then show ?case
    by (subst (asm) dec_nat.simps) (auto simp: digit_char_def is_digit_def split: if_splits)
qed

lemma dec_nat_nonempty [simp]: "dec_nat n \<noteq> []"
  by (subst dec_nat.simps) simp

lemma dec_nat_length: "n < 10 ^ k \<Longrightarrow> 0 < k \<Longrightarrow> length (dec_nat n) \<le> k"
proof (induction n arbitrary: k rule: dec_nat.induct)
  case (1 n)
  show ?case
  proof (cases "n < 10")
    case True
    with "1.prems" show ?thesis by (subst dec_nat.simps) simp
  next
    case False
    with "1.prems" obtain j where k: "k = Suc j" "0 < j" by (cases k; cases "k - 1") auto
    then have "n div 10 < 10 ^ j" using "1.prems"(1) by (simp add: div_less_iff_less_mult mult.commute)
    from "1.IH"[OF False this k(2)] False k(1) show ?thesis by (subst dec_nat.simps) simp
  qed
qed

section \<open>The verb \<open>%q\<close>\<close>

text \<open>\<open>strconv.Quote\<close> on ASCII text; bytes of other characters, which \<open>Quote\<close> leaves as they are when
  they are printable, are kept.\<close>

definition hex_lower :: "nat \<Rightarrow> char" where
  "hex_lower n = (if n < 10 then char_of (48 + n) else char_of (87 + n))"

definition go_q_char :: "char \<Rightarrow> bytes" where
  "go_q_char c =
     (if c = CHR 0x22 \<or> c = CHR 0x5C then [CHR 0x5C, c]
      else if byte c = 7 then [CHR 0x5C, CHR ''a'']
      else if byte c = 8 then [CHR 0x5C, CHR ''b'']
      else if byte c = 12 then [CHR 0x5C, CHR ''f'']
      else if byte c = 10 then [CHR 0x5C, CHR ''n'']
      else if byte c = 13 then [CHR 0x5C, CHR ''r'']
      else if byte c = 9 then [CHR 0x5C, CHR ''t'']
      else if byte c = 11 then [CHR 0x5C, CHR ''v'']
      else if byte c < 32 \<or> byte c = 127
      then [CHR 0x5C, CHR ''x'', hex_lower (byte c div 16), hex_lower (byte c mod 16)]
      else [c])"

definition go_q :: "bytes \<Rightarrow> bytes" where
  "go_q s = CHR 0x22 # concat (map go_q_char s) @ [CHR 0x22]"

end
