(* ===== verification/Go_Utf8.thy ===== *)
theory Go_Utf8
  imports Go_Strings
begin

text \<open>
  Go's package \<open>unicode/utf8\<close>: \<open>DecodeRune\<close> with its tables of accepted second bytes written out,
  \<open>AppendRune\<close>, and the loop over the runes of a byte sequence that both \<open>for range\<close> and the
  sanitizer's explicit loop perform. A rune is its code point, a natural number.
\<close>

type_synonym rune = nat

definition RuneError :: rune where "RuneError = 0xFFFD"

definition valid_rune :: "rune \<Rightarrow> bool" where
  "valid_rune r \<longleftrightarrow> r < 0xD800 \<or> (0xE000 \<le> r \<and> r \<le> 0x10FFFF)"

definition cont :: "nat \<Rightarrow> bool" where "cont b \<longleftrightarrow> 0x80 \<le> b \<and> b \<le> 0xBF"

text \<open>The range that the table \<open>acceptRanges\<close> gives for the second byte after the first byte \<open>b\<close>.\<close>

definition accept_second :: "nat \<Rightarrow> nat \<Rightarrow> bool" where
  "accept_second b b1 \<longleftrightarrow>
     (if b = 0xE0 then 0xA0 \<le> b1 \<and> b1 \<le> 0xBF
      else if b = 0xED then 0x80 \<le> b1 \<and> b1 \<le> 0x9F
      else if b = 0xF0 then 0x90 \<le> b1 \<and> b1 \<le> 0xBF
      else if b = 0xF4 then 0x80 \<le> b1 \<and> b1 \<le> 0x8F
      else cont b1)"

definition decode_bytes :: "nat list \<Rightarrow> rune \<times> nat" where
  "decode_bytes bs =
     (case bs of
        [] \<Rightarrow> (RuneError, 0)
      | b # rest \<Rightarrow>
          if b < 0x80 then (b, 1)
          else if 0xC2 \<le> b \<and> b \<le> 0xDF then
            (case rest of
               b1 # _ \<Rightarrow> if cont b1 then ((b - 0xC0) * 64 + (b1 - 0x80), 2) else (RuneError, 1)
             | _ \<Rightarrow> (RuneError, 1))
          else if 0xE0 \<le> b \<and> b \<le> 0xEF then
            (case rest of
               b1 # b2 # _ \<Rightarrow>
                 if accept_second b b1 \<and> cont b2
                 then ((b - 0xE0) * 4096 + (b1 - 0x80) * 64 + (b2 - 0x80), 3) else (RuneError, 1)
             | _ \<Rightarrow> (RuneError, 1))
          else if 0xF0 \<le> b \<and> b \<le> 0xF4 then
            (case rest of
               b1 # b2 # b3 # _ \<Rightarrow>
                 if accept_second b b1 \<and> cont b2 \<and> cont b3
                 then ((b - 0xF0) * 262144 + (b1 - 0x80) * 4096 + (b2 - 0x80) * 64 + (b3 - 0x80), 4)
                 else (RuneError, 1)
             | _ \<Rightarrow> (RuneError, 1))
          else (RuneError, 1))"

definition decode_rune :: "bytes \<Rightarrow> rune \<times> nat" where
  "decode_rune s = decode_bytes (map byte (take 4 s))"

definition encode_bytes :: "rune \<Rightarrow> nat list" where
  "encode_bytes r =
     (if r < 0x80 then [r]
      else if r < 0x800 then [0xC0 + r div 64, 0x80 + r mod 64]
      else if \<not> valid_rune r then [0xEF, 0xBF, 0xBD]
      else if r < 0x10000 then [0xE0 + r div 4096, 0x80 + r div 64 mod 64, 0x80 + r mod 64]
      else [0xF0 + r div 262144, 0x80 + r div 4096 mod 64, 0x80 + r div 64 mod 64, 0x80 + r mod 64])"

definition encode_rune :: "rune \<Rightarrow> bytes" where
  "encode_rune r = map char_of (encode_bytes r)"

section \<open>Decoding and encoding are inverse\<close>

lemma decode_rune_Nil [simp]: "decode_rune [] = (RuneError, 0)"
  by (simp add: decode_rune_def decode_bytes_def)

lemma decode_bytes_size: "bs \<noteq> [] \<Longrightarrow> 1 \<le> snd (decode_bytes bs) \<and> snd (decode_bytes bs) \<le> length bs"
  by (simp add: decode_bytes_def split: list.split)

lemma decode_size: "s \<noteq> [] \<Longrightarrow> 1 \<le> snd (decode_rune s) \<and> snd (decode_rune s) \<le> length s"
  using decode_bytes_size[of "map byte (take 4 s)"] by (auto simp: decode_rune_def)

lemma decode_ascii [simp]: "is_ascii c \<Longrightarrow> decode_rune (c # s) = (byte c, 1)"
  by (simp add: decode_rune_def decode_bytes_def is_ascii_def)

lemma encode_bytes_length: "1 \<le> length (encode_bytes r) \<and> length (encode_bytes r) \<le> 4"
  by (simp add: encode_bytes_def)

lemma encode_rune_nonempty [simp]: "encode_rune r \<noteq> []"
  using encode_bytes_length[of r] by (auto simp: encode_rune_def)

lemma encode_bytes_less: "valid_rune r \<Longrightarrow> b \<in> set (encode_bytes r) \<Longrightarrow> b < 256"
  by (auto simp: encode_bytes_def valid_rune_def split: if_splits)

lemma decode_two: "2 \<le> a \<Longrightarrow> a < 32 \<Longrightarrow> c < 64 \<Longrightarrow>
    decode_bytes ((0xC0 + a) # (0x80 + c) # t) = (a * 64 + c, 2)"
  by (simp add: decode_bytes_def cont_def)

lemma decode_three: "a < 16 \<Longrightarrow> b < 64 \<Longrightarrow> c < 64 \<Longrightarrow> (a = 0 \<longrightarrow> 32 \<le> b) \<Longrightarrow> (a = 13 \<longrightarrow> b < 32) \<Longrightarrow>
    decode_bytes ((0xE0 + a) # (0x80 + b) # (0x80 + c) # t) = (a * 4096 + b * 64 + c, 3)"
  by (auto simp: decode_bytes_def cont_def accept_second_def)

lemma decode_four: "a \<le> 4 \<Longrightarrow> b < 64 \<Longrightarrow> c < 64 \<Longrightarrow> d < 64 \<Longrightarrow> (a = 0 \<longrightarrow> 16 \<le> b) \<Longrightarrow> (a = 4 \<longrightarrow> b < 16) \<Longrightarrow>
    decode_bytes ((0xF0 + a) # (0x80 + b) # (0x80 + c) # (0x80 + d) # t) =
      (a * 262144 + b * 4096 + c * 64 + d, 4)"
  by (auto simp: decode_bytes_def cont_def accept_second_def)

lemma decode_bytes_encode:
  assumes "valid_rune r"
  shows "decode_bytes (encode_bytes r @ t) = (r, length (encode_bytes r))"
proof -
  define q where "q = r div 64"
  define p where "p = q div 64"
  define s where "s = p div 64"
  have digits: "r = q * 64 + r mod 64" "q = p * 64 + q mod 64" "p = s * 64 + p mod 64"
    "r mod 64 < 64" "q mod 64 < 64" "p mod 64 < 64" "r div 4096 = p" "r div 262144 = s"
    by (simp_all add: q_def p_def s_def div_mult2_eq[of _ 64 64, simplified]
        div_mult2_eq[of _ 4096 64, simplified])
  consider "r < 0x80" | "0x80 \<le> r" "r < 0x800" | "0x800 \<le> r" "r < 0x10000" | "0x10000 \<le> r" by linarith
  then show ?thesis
  proof cases
    case 1
    then show ?thesis by (simp add: encode_bytes_def decode_bytes_def)
  next
    case 2
    have "2 \<le> q" and "q < 32" using 2 digits by linarith+
    then show ?thesis
      using 2 decode_two[of q "r mod 64" t] digits by (simp add: encode_bytes_def q_def)
  next
    case 3
    have "p < 16" and "p = 0 \<longrightarrow> 32 \<le> q mod 64" and "p = 13 \<longrightarrow> q mod 64 < 32"
      using 3 assms digits unfolding valid_rune_def by linarith+
    moreover have "p * 4096 + (q mod 64) * 64 + r mod 64 = r" using digits by linarith
    ultimately show ?thesis
      using 3 assms decode_three[of p "q mod 64" "r mod 64" t] digits
      by (simp add: encode_bytes_def q_def)
  next
    case 4
    have "s \<le> 4" and "s = 0 \<longrightarrow> 16 \<le> p mod 64" and "s = 4 \<longrightarrow> p mod 64 < 16"
      using 4 assms digits unfolding valid_rune_def by linarith+
    moreover have "s * 262144 + (p mod 64) * 4096 + (q mod 64) * 64 + r mod 64 = r"
      using digits by linarith
    ultimately show ?thesis
      using 4 assms decode_four[of s "p mod 64" "q mod 64" "r mod 64" t] digits
      by (simp add: encode_bytes_def q_def)
  qed
qed

lemma decode_encode:
  assumes "valid_rune r"
  shows "decode_rune (encode_rune r @ s) = (r, length (encode_rune r))"
proof -
  have len: "length (encode_bytes r) \<le> 4" by (simp add: encode_bytes_length)
  have "map byte (map char_of (encode_bytes r) :: char list) = encode_bytes r"
    by (rule nth_equalityI) (simp_all add: encode_bytes_less[OF assms])
  then have "map byte (take 4 (encode_rune r @ s)) =
      encode_bytes r @ map byte (take (4 - length (encode_bytes r)) s)"
    using len by (simp add: encode_rune_def)
  then show ?thesis
    by (simp add: decode_rune_def decode_bytes_encode[OF assms] encode_rune_def)
qed

text \<open>Conversely, what \<open>DecodeRune\<close> accepts is the encoding of a valid rune.\<close>

lemma encode_two: "2 \<le> a \<Longrightarrow> a < 32 \<Longrightarrow> c < 64 \<Longrightarrow>
    valid_rune (a * 64 + c) \<and> encode_bytes (a * 64 + c) = [0xC0 + a, 0x80 + c]"
  by (auto simp: encode_bytes_def valid_rune_def)

lemma encode_three:
  assumes "a < 16" "b < 64" "c < 64" "a = 0 \<longrightarrow> 32 \<le> b" "a = 13 \<longrightarrow> b < 32"
  shows "valid_rune (a * 4096 + b * 64 + c) \<and>
    encode_bytes (a * 4096 + b * 64 + c) = [0xE0 + a, 0x80 + b, 0x80 + c]"
proof -
  define r where "r = a * 4096 + b * 64 + c"
  have "r div 64 = a * 64 + b" using assms by (simp add: r_def)
  moreover have "r mod 64 = c"
    using assms mod_mult_self3[of "a * 64 + b" 64 c] by (simp add: r_def mult.commute)
  ultimately have "r div 64 mod 64 = b" and "r div 4096 = a" and "r mod 64 = c"
    using assms div_mult2_eq[of r 64 64] by simp_all
  moreover have "\<not> r < 0x800" and "r < 0x10000"
    using assms unfolding r_def by (cases "a = 0"; simp)+
  moreover have "valid_rune r"
    using assms unfolding r_def valid_rune_def by (cases "a < 13"; cases "a = 13"; simp)
  ultimately show ?thesis using \<open>r mod 64 = c\<close> by (simp add: encode_bytes_def flip: r_def)
qed

lemma encode_four:
  assumes "a \<le> 4" "b < 64" "c < 64" "d < 64" "a = 0 \<longrightarrow> 16 \<le> b" "a = 4 \<longrightarrow> b < 16"
  shows "valid_rune (a * 262144 + b * 4096 + c * 64 + d) \<and>
    encode_bytes (a * 262144 + b * 4096 + c * 64 + d) = [0xF0 + a, 0x80 + b, 0x80 + c, 0x80 + d]"
proof -
  define r where "r = a * 262144 + b * 4096 + c * 64 + d"
  have q: "r div 64 = a * 4096 + b * 64 + c" using assms by (simp add: r_def)
  have "r mod 64 = d"
    using assms mod_mult_self3[of "a * 4096 + b * 64 + c" 64 d] by (simp add: r_def mult.commute)
  have p: "r div 4096 = a * 64 + b"
    using assms div_mult2_eq[of r 64 64] by (simp add: q)
  have "r div 262144 = a" using assms div_mult2_eq[of r 4096 64] by (simp add: p)
  moreover have "r div 4096 mod 64 = b" "r div 64 mod 64 = c"
    using assms mod_mult_self3[of "a * 64 + b" 64 c] by (simp_all add: p q mult.commute)
  moreover have "\<not> r < 0x10000" using assms unfolding r_def by (cases "a = 0"; simp)
  moreover have "valid_rune r"
    using assms \<open>\<not> r < 0x10000\<close> unfolding r_def valid_rune_def by (cases "a = 4"; simp)
  ultimately show ?thesis using \<open>r mod 64 = d\<close> by (simp add: encode_bytes_def flip: r_def)
qed

lemma decode_bytes_cases:
  assumes "decode_bytes bs = (r, n)" and "(r, n) \<noteq> (RuneError, 0)" and "(r, n) \<noteq> (RuneError, 1)"
  shows "valid_rune r \<and> encode_bytes r = take n bs"
proof -
  obtain b rest where bs: "bs = b # rest"
    using assms by (cases bs) (auto simp: decode_bytes_def)
  consider "b < 0x80"
    | "0xC2 \<le> b" "b \<le> 0xDF" | "0xE0 \<le> b" "b \<le> 0xEF" | "0xF0 \<le> b" "b \<le> 0xF4"
    using assms bs by (auto simp: decode_bytes_def split: if_splits)
  then show ?thesis
  proof cases
    case 1
    then show ?thesis
      using assms(1) by (auto simp: bs decode_bytes_def encode_bytes_def valid_rune_def)
  next
    case 2
    then obtain b1 t where rest: "rest = b1 # t" "cont b1" and r: "r = (b - 0xC0) * 64 + (b1 - 0x80)" "n = 2"
      using assms by (auto simp: bs decode_bytes_def split: list.splits if_splits)
    then show ?thesis
      using 2 encode_two[of "b - 0xC0" "b1 - 0x80"] by (auto simp: bs cont_def)
  next
    case 3
    then obtain b1 b2 t where rest: "rest = b1 # b2 # t" "accept_second b b1" "cont b2"
      and r: "r = (b - 0xE0) * 4096 + (b1 - 0x80) * 64 + (b2 - 0x80)" "n = 3"
      using assms by (auto simp: bs decode_bytes_def split: list.splits if_splits)
    moreover have "0x80 \<le> b1" "b1 \<le> 0xBF" "b = 0xE0 \<longrightarrow> 0xA0 \<le> b1" "b = 0xED \<longrightarrow> b1 < 0xA0"
      using rest(2) by (auto simp: accept_second_def cont_def split: if_splits)
    moreover obtain x y z where "b = 0xE0 + x" "b1 = 0x80 + y" "b2 = 0x80 + z"
      using 3 calculation by (auto simp: cont_def le_iff_add)
    ultimately show ?thesis
      using 3 encode_three[of x y z] by (auto simp: bs cont_def)
  next
    case 4
    then obtain b1 b2 b3 t where rest: "rest = b1 # b2 # b3 # t" "accept_second b b1" "cont b2" "cont b3"
      and r: "r = (b - 0xF0) * 262144 + (b1 - 0x80) * 4096 + (b2 - 0x80) * 64 + (b3 - 0x80)" "n = 4"
      using assms by (auto simp: bs decode_bytes_def split: list.splits if_splits)
    moreover have "0x80 \<le> b1" "b1 \<le> 0xBF" "b = 0xF0 \<longrightarrow> 0x90 \<le> b1" "b = 0xF4 \<longrightarrow> b1 < 0x90"
      using rest(2) by (auto simp: accept_second_def cont_def split: if_splits)
    moreover obtain w x y z where "b = 0xF0 + w" "b1 = 0x80 + x" "b2 = 0x80 + y" "b3 = 0x80 + z"
      using 4 calculation by (auto simp: cont_def le_iff_add)
    ultimately show ?thesis
      using 4 encode_four[of w x y z] by (auto simp: bs cont_def)
  qed
qed

lemma decode_rune_valid:
  assumes "decode_rune s = (r, n)" and "s \<noteq> []" and "(r, n) \<noteq> (RuneError, 1)"
  shows "valid_rune r" and "encode_rune r = take n s" and "1 \<le> n" and "n \<le> length s" and "n \<le> 4"
proof -
  show n: "1 \<le> n" "n \<le> length s" using decode_size[OF assms(2)] assms(1) by simp_all
  have "n \<le> length (map byte (take 4 s))"
    using decode_bytes_size[of "map byte (take 4 s)"] assms by (simp add: decode_rune_def)
  then show "n \<le> 4" by simp
  have c: "valid_rune r \<and> encode_bytes r = take n (map byte (take 4 s))"
    using assms n by (intro decode_bytes_cases) (auto simp: decode_rune_def)
  then show "valid_rune r" by simp
  have "map char_of (take n (map byte (take 4 s))) = take n s"
    using \<open>n \<le> 4\<close> by (simp add: take_map min_def comp_def)
  then show "encode_rune r = take n s" using c by (simp add: encode_rune_def)
qed

lemma decode_chunk:
  assumes "decode_rune s = (r, n)" and "s \<noteq> []" and "(r, n) \<noteq> (RuneError, 1)"
  shows "decode_rune (take n s @ t) = (r, n)"
  using decode_encode[OF decode_rune_valid(1)[OF assms], of t] decode_rune_valid[OF assms]
  by simp

end
