(* ===== verification/Go_Case.thy ===== *)
theory Go_Case
  imports Go_Utf8
begin

text \<open>\<open>strings.ToLower\<close>; \<open>ul\<close> is \<open>unicode.ToLower\<close> on code points outside ASCII.\<close>

lemma decode_drop_less: "(r, n) = decode_rune s \<Longrightarrow> s \<noteq> [] \<Longrightarrow> length s - n < length s"
  using decode_size[of s] by (cases "decode_rune s") auto

function map_runes :: "(rune \<Rightarrow> rune) \<Rightarrow> bytes \<Rightarrow> bytes" where
  "map_runes f s = (if s = [] then []
     else case decode_rune s of (r, n) \<Rightarrow> encode_rune (f r) @ map_runes f (drop n s))"
  by pat_completeness auto
termination
  by (relation "measure (\<lambda>(f, s). length s)") (auto intro: decode_drop_less)

declare map_runes.simps [simp del]

definition to_lower :: "(rune \<Rightarrow> rune) \<Rightarrow> bytes \<Rightarrow> bytes" where
  "to_lower ul s =
     (if list_all is_ascii s then map lower_byte s
      else map_runes (\<lambda>r. if r < 0x80 then byte (lower_byte (char_of r)) else ul r) s)"

end
