(* ===== verification/Json.thy ===== *)
theory Json
  imports Go_Utf8 "HOL-Library.List_Lexorder" "HOL-Library.Char_ord"
begin

text \<open>
  What the proxy uses of \<open>encoding/json\<close>: the syntax check and parser behind \<open>Valid\<close> and \<open>Unmarshal\<close>,
  and \<open>Marshal\<close>. Parsing is a lexer (structural on the input, so total) and a stack machine over its
  tokens; it keeps objects as the list of their members, duplicates included, and numbers as their
  literals. The round trip of printing and parsing is \<open>parse_render\<close>.
\<close>

section \<open>Values\<close>

datatype json =
    JNull
  | JBool bool
  | JNum bytes
  | JStr bytes
  | JArr "json list"
  | JObj "(bytes \<times> json) list"

abbreviation "dquote \<equiv> CHR 0x22"
abbreviation "backslash \<equiv> CHR 0x5C"
abbreviation "newline \<equiv> CHR 0x0A"

section \<open>Strings\<close>

definition hex_digit :: "nat \<Rightarrow> char" where
  "hex_digit n = (if n < 10 then char_of (48 + n) else char_of (87 + n))"

definition hex_value :: "char \<Rightarrow> nat option" where
  "hex_value c =
     (let b = byte c in
      if 48 \<le> b \<and> b \<le> 57 then Some (b - 48)
      else if 97 \<le> b \<and> b \<le> 102 then Some (b - 87)
      else if 65 \<le> b \<and> b \<le> 70 then Some (b - 55)
      else None)"

text \<open>The four hexadecimal digits of a \<open>\u\<close> escape, and what follows them.\<close>

definition hex4 :: "bytes \<Rightarrow> (nat \<times> bytes) option" where
  "hex4 s =
     (if length s < 4 then None
      else case map hex_value (take 4 s) of
        [Some a, Some b, Some c, Some d] \<Rightarrow> Some (((a * 16 + b) * 16 + c) * 16 + d, drop 4 s)
      | _ \<Rightarrow> None)"

definition simple_escape :: "char \<Rightarrow> char option" where
  "simple_escape e =
     (if e = dquote \<or> e = backslash \<or> e = CHR ''/'' then Some e
      else if e = CHR ''b'' then Some (CHR 0x08)
      else if e = CHR ''f'' then Some (CHR 0x0C)
      else if e = CHR ''n'' then Some newline
      else if e = CHR ''r'' then Some (CHR 0x0D)
      else if e = CHR ''t'' then Some (CHR 0x09)
      else None)"

text \<open>\<open>utf16.DecodeRune\<close> on a surrogate and the escape after it; an unpaired surrogate is U+FFFD.\<close>

definition surrogate :: "nat \<Rightarrow> bool" where "surrogate r \<longleftrightarrow> 0xD800 \<le> r \<and> r < 0xE000"

definition utf16_pair :: "nat \<Rightarrow> nat \<Rightarrow> rune option" where
  "utf16_pair a b =
     (if 0xD800 \<le> a \<and> a < 0xDC00 \<and> 0xDC00 \<le> b \<and> b < 0xE000
      then Some ((a - 0xD800) * 1024 + (b - 0xDC00) + 0x10000) else None)"

text \<open>The rune of a \<open>\u\<close> escape (after the letter u) and the input that follows it.\<close>

definition unicode_escape :: "bytes \<Rightarrow> (rune \<times> bytes) option" where
  "unicode_escape es =
     (case hex4 es of
        None \<Rightarrow> None
      | Some (rr, es1) \<Rightarrow>
          if surrogate rr then
            (case (if has_prefix es1 [backslash, CHR ''u''] then hex4 (drop 2 es1) else None) of
               None \<Rightarrow> Some (RuneError, es1)
             | Some (rr1, es3) \<Rightarrow>
                 (case utf16_pair rr rr1 of
                    None \<Rightarrow> Some (RuneError, es1)
                  | Some r \<Rightarrow> Some (r, es3)))
          else Some (rr, es1))"

lemma hex4_length: "hex4 s = Some (n, t) \<Longrightarrow> length t < length s"
  by (auto simp: hex4_def split: if_splits list.splits option.splits)

lemma unicode_escape_length: "unicode_escape s = Some (r, t) \<Longrightarrow> length t < length s"
  by (auto simp: unicode_escape_def dest!: hex4_length split: if_splits option.splits)

text \<open>
  The body of a string literal, up to and including the closing quote: the decoded string and the rest
  of the input, or \<open>None\<close> for a malformed literal. Invalid UTF-8 becomes U+FFFD.
\<close>

function scan_string :: "bytes \<Rightarrow> (bytes \<times> bytes) option" where
  "scan_string [] = None"
| "scan_string (c # cs) =
     (if c = dquote then Some ([], cs)
      else if c = backslash then
        (case cs of
           [] \<Rightarrow> None
         | e # es \<Rightarrow>
             if e = CHR ''u'' then
               (case unicode_escape es of
                  None \<Rightarrow> None
                | Some (r, es1) \<Rightarrow> map_option (apfst ((@) (encode_rune r))) (scan_string es1))
             else
               (case simple_escape e of
                  None \<Rightarrow> None
                | Some b \<Rightarrow> map_option (apfst ((#) b)) (scan_string es)))
      else if byte c < 0x20 then None
      else if is_ascii c then map_option (apfst ((#) c)) (scan_string cs)
      else map_option (apfst ((@) (encode_rune (fst (decode_rune (c # cs))))))
             (scan_string (drop (snd (decode_rune (c # cs))) (c # cs))))"
  by pat_completeness auto
termination
proof (relation "measure length")
  fix c cs
  assume "\<not> is_ascii c"
  show "(drop (snd (decode_rune (c # cs))) (c # cs), c # cs) \<in> measure length"
    using decode_size[of "c # cs"] by simp
qed (auto dest: unicode_escape_length)

declare scan_string.simps [simp del]

text \<open>\<open>appendString\<close> with \<open>escapeHTML\<close>: the characters between the quotes.\<close>

definition html_safe :: "char \<Rightarrow> bool" where
  "html_safe c \<longleftrightarrow> 0x20 \<le> byte c \<and> byte c < 0x80 \<and>
     c \<noteq> dquote \<and> c \<noteq> backslash \<and> c \<noteq> CHR ''<'' \<and> c \<noteq> CHR ''>'' \<and> c \<noteq> CHR ''&''"

definition u_escape :: "nat \<Rightarrow> bytes" where
  "u_escape n = [backslash, CHR ''u'', hex_digit (n div 4096), hex_digit (n div 256 mod 16),
                 hex_digit (n div 16 mod 16), hex_digit (n mod 16)]"

definition quote_ascii :: "char \<Rightarrow> bytes" where
  "quote_ascii c =
     (if html_safe c then [c]
      else if c = dquote \<or> c = backslash then [backslash, c]
      else if c = CHR 0x08 then [backslash, CHR ''b'']
      else if c = CHR 0x0C then [backslash, CHR ''f'']
      else if c = newline then [backslash, CHR ''n'']
      else if c = CHR 0x0D then [backslash, CHR ''r'']
      else if c = CHR 0x09 then [backslash, CHR ''t'']
      else u_escape (byte c))"

function quote_body :: "bytes \<Rightarrow> bytes" where
  "quote_body [] = []"
| "quote_body (c # cs) =
     (if is_ascii c then quote_ascii c @ quote_body cs
      else let (r, size) = decode_rune (c # cs) in
        (if r = RuneError \<and> size = 1 then u_escape RuneError
         else if r = 0x2028 \<or> r = 0x2029 then u_escape r
         else take size (c # cs)) @ quote_body (drop size (c # cs)))"
  by pat_completeness auto
termination
proof (relation "measure length")
  fix c cs and x :: "rune \<times> nat" and r size
  assume "x = decode_rune (c # cs)" "(r, size) = x"
  then show "(drop size (c # cs), c # cs) \<in> measure length"
    using decode_size[of "c # cs"] by (metis Suc_le_eq One_nat_def diff_less in_measure length_drop
        length_greater_0_conv list.distinct(1) snd_conv)
qed auto

declare quote_body.simps [simp del]

definition quote :: "bytes \<Rightarrow> bytes" where
  "quote s = dquote # quote_body s @ [dquote]"

text \<open>What a string is after a trip through JSON: every byte that is not part of a valid encoding
  becomes U+FFFD.\<close>

function to_valid :: "bytes \<Rightarrow> bytes" where
  "to_valid s = (if s = [] then [] else
     encode_rune (fst (decode_rune s)) @ to_valid (drop (snd (decode_rune s)) s))"
  by pat_completeness auto
termination
  by (relation "measure length") (use decode_size in \<open>auto simp: Suc_le_eq\<close>)

declare to_valid.simps [simp del]

definition valid_utf8 :: "bytes \<Rightarrow> bool" where "valid_utf8 s \<longleftrightarrow> to_valid s = s"

lemma to_valid_Nil [simp]: "to_valid [] = []"
  by (simp add: to_valid.simps)

lemma encode_ascii [simp]: "is_ascii c \<Longrightarrow> encode_rune (byte c) = [c]"
  by (simp add: encode_rune_def encode_bytes_def is_ascii_def)

lemma to_valid_ascii [simp]: "is_ascii c \<Longrightarrow> to_valid (c # s) = c # to_valid s"
  by (subst to_valid.simps) simp

lemma hex_value_digit: "n < 16 \<Longrightarrow> hex_value (hex_digit n) = Some n"
  by (auto simp: hex_value_def hex_digit_def)

lemma hex4_u_escape:
  assumes "n < 65536"
  shows "hex4 (drop 2 (u_escape n) @ t) = Some (n, t)"
proof -
  define a where "a = n div 16"
  define b where "b = a div 16"
  define c where "c = b div 16"
  have "n = a * 16 + n mod 16" "a = b * 16 + a mod 16" "b = c * 16 + b mod 16"
    and "n div 256 = b" "n div 4096 = c"
    by (simp_all add: a_def b_def c_def div_mult2_eq[of n 16 16, simplified]
        div_mult2_eq[of n 256 16, simplified])
  moreover have "c < 16" using assms unfolding a_def b_def c_def by simp
  ultimately show ?thesis
    by (simp add: hex4_def u_escape_def hex_value_digit flip: a_def)
qed

lemma unicode_escape_u:
  assumes "n < 65536" and "\<not> surrogate n"
  shows "unicode_escape (drop 2 (u_escape n) @ t) = Some (n, t)"
  using assms by (simp add: unicode_escape_def hex4_u_escape)

lemma scan_u_escape:
  assumes "n < 65536" and "\<not> surrogate n"
  shows "scan_string (u_escape n @ t) = map_option (apfst ((@) (encode_rune n))) (scan_string t)"
proof -
  have "u_escape n @ t = backslash # CHR ''u'' # (drop 2 (u_escape n) @ t)"
    by (simp add: u_escape_def)
  then show ?thesis
    by (rule ssubst) (simp add: scan_string.simps(2) unicode_escape_u[OF assms])
qed

lemma scan_escape:
  "e \<noteq> CHR ''u'' \<Longrightarrow> simple_escape e = Some b \<Longrightarrow>
   scan_string (backslash # e # t) = map_option (apfst ((#) b)) (scan_string t)"
  by (simp add: scan_string.simps(2))

lemma append_single: "(@) [c] = (#) c"
  by (simp add: fun_eq_iff)

lemma scan_quote_ascii:
  assumes "is_ascii c"
  shows "scan_string (quote_ascii c @ t) = map_option (apfst ((#) c)) (scan_string t)"
proof (cases "html_safe c")
  case True
  then show ?thesis
    using assms by (simp add: quote_ascii_def html_safe_def scan_string.simps(2))
next
  case False
  have u: "scan_string (u_escape (byte c) @ t) = map_option (apfst ((#) c)) (scan_string t)"
    using scan_u_escape[of "byte c" t] assms
    by (simp add: surrogate_def append_single) (simp add: is_ascii_def)
  show ?thesis
    using False u by (auto simp: quote_ascii_def scan_escape simple_escape_def)
qed

lemma scan_quote_body:
  "scan_string (quote_body s @ dquote # t) = Some (to_valid s, t)"
proof (induction s rule: quote_body.induct)
  case 1
  then show ?case by (simp add: quote_body.simps scan_string.simps(2))
next
  case (2 c cs)
  obtain r n where d: "decode_rune (c # cs) = (r, n)" by (cases "decode_rune (c # cs)")
  show ?case
  proof (cases "is_ascii c")
    case True
    then show ?thesis using 2(1) by (simp add: quote_body.simps scan_quote_ascii)
  next
    case False
    let ?t = "quote_body (drop n (c # cs)) @ dquote # t"
    have IH: "scan_string ?t = Some (to_valid (drop n (c # cs)), t)"
      using 2(2)[OF False] d by simp
    have v: "to_valid (c # cs) = encode_rune r @ to_valid (drop n (c # cs))"
      by (subst to_valid.simps) (simp add: d)
    consider "r = RuneError" "n = 1" | "r = 0x2028 \<or> r = 0x2029" "\<not> (r = RuneError \<and> n = 1)"
      | "\<not> (r = RuneError \<and> n = 1)" "r \<noteq> 0x2028" "r \<noteq> 0x2029" by blast
    then show ?thesis
    proof cases
      case 3
      have "n \<noteq> 0" using decode_rune_valid(3)[OF d] 3 by auto
      then obtain u where u: "take n (c # cs) = c # u" by (cases n) auto
      have "decode_rune (take n (c # cs) @ ?t) = (r, n)"
        using decode_chunk[OF d] 3 by auto
      moreover have "drop n (take n (c # cs) @ ?t) = ?t"
        using decode_rune_valid(4)[OF d] 3 by simp
      ultimately have "scan_string (take n (c # cs) @ ?t) =
          map_option (apfst ((@) (encode_rune r))) (scan_string ?t)"
        using False unfolding u by (simp add: scan_string.simps(2) is_ascii_def byte_def) auto
      then show ?thesis
        using 3 False d IH v by (simp add: quote_body.simps del: One_nat_def) blast
    qed (use False d IH v in \<open>auto simp: quote_body.simps scan_u_escape surrogate_def RuneError_def\<close>)
  qed
qed

section \<open>Tokens\<close>

datatype token =
    TLBrace | TRBrace | TLBrack | TRBrack | TColon | TComma
  | TStr bytes | TNum bytes | TTrue | TFalse | TNull

definition is_ws :: "char \<Rightarrow> bool" where
  "is_ws c \<longleftrightarrow> c = CHR '' '' \<or> c = CHR 0x09 \<or> c = CHR 0x0D \<or> c = newline"

definition num_char :: "char \<Rightarrow> bool" where
  "num_char c \<longleftrightarrow> is_digit c \<or> c \<in> {CHR ''-'', CHR ''+'', CHR ''.'', CHR ''e'', CHR ''E''}"

text \<open>The grammar of number literals, read by its three parts.\<close>

definition valid_exponent :: "bytes \<Rightarrow> bool" where
  "valid_exponent s \<longleftrightarrow>
     (case s of
        [] \<Rightarrow> True
      | c # cs \<Rightarrow> (c = CHR ''e'' \<or> c = CHR ''E'') \<and>
          (let ds = (case cs of d # ds \<Rightarrow> if d = CHR ''+'' \<or> d = CHR ''-'' then ds else cs | [] \<Rightarrow> [])
           in ds \<noteq> [] \<and> list_all is_digit ds))"

definition valid_fraction :: "bytes \<Rightarrow> bool" where
  "valid_fraction s \<longleftrightarrow>
     (case s of
        c # cs \<Rightarrow>
          if c = CHR ''.'' then takeWhile is_digit cs \<noteq> [] \<and> valid_exponent (dropWhile is_digit cs)
          else valid_exponent s
      | [] \<Rightarrow> True)"

definition valid_number :: "bytes \<Rightarrow> bool" where
  "valid_number s \<longleftrightarrow>
     (let t = (case s of c # cs \<Rightarrow> if c = CHR ''-'' then cs else s | [] \<Rightarrow> []) in
      case t of
        [] \<Rightarrow> False
      | d # ds \<Rightarrow>
          if d = CHR ''0'' then valid_fraction ds
          else is_digit d \<and> valid_fraction (dropWhile is_digit ds))"

lemma scan_string_length: "scan_string s = Some (x, t) \<Longrightarrow> length t < length s"
proof (induction s arbitrary: x t rule: length_induct)
  case (1 s)
  show ?case
  proof (cases s)
    case (Cons c cs)
    have IH: "scan_string u = Some (y, v) \<Longrightarrow> length u < length s \<Longrightarrow> length v < length s" for u y v
      using 1(1) by fastforce
    have n: "length (drop (snd (decode_rune (c # cs))) (c # cs)) < length s"
      using decode_size[of "c # cs"] Cons by simp
    show ?thesis
      using 1(2) n unfolding Cons scan_string.simps(2)
      by (auto simp flip: Cons split: if_splits list.splits option.splits
            dest!: IH unicode_escape_length)
         (auto simp: Cons)
  qed (use 1 in \<open>simp add: scan_string.simps\<close>)
qed

function lex :: "bytes \<Rightarrow> token list option" where
  "lex [] = Some []"
| "lex (c # cs) =
     (if is_ws c then lex cs
      else if c = CHR 0x7B then map_option ((#) TLBrace) (lex cs)
      else if c = CHR 0x7D then map_option ((#) TRBrace) (lex cs)
      else if c = CHR 0x5B then map_option ((#) TLBrack) (lex cs)
      else if c = CHR 0x5D then map_option ((#) TRBrack) (lex cs)
      else if c = CHR 0x3A then map_option ((#) TColon) (lex cs)
      else if c = CHR 0x2C then map_option ((#) TComma) (lex cs)
      else if c = dquote then
        (case scan_string cs of
           None \<Rightarrow> None
         | Some (x, rest) \<Rightarrow> map_option ((#) (TStr x)) (lex rest))
      else if num_char c then
        (let d = takeWhile num_char (c # cs) in
         if valid_number d then map_option ((#) (TNum d)) (lex (dropWhile num_char cs)) else None)
      else if has_prefix (c # cs) ''true'' then map_option ((#) TTrue) (lex (drop 3 cs))
      else if has_prefix (c # cs) ''false'' then map_option ((#) TFalse) (lex (drop 4 cs))
      else if has_prefix (c # cs) ''null'' then map_option ((#) TNull) (lex (drop 3 cs))
      else None)"
  by pat_completeness auto
termination
  by (relation "measure length")
     (auto dest!: scan_string_length simp: length_dropWhile_le le_imp_less_Suc)

declare lex.simps [simp del]

section \<open>The parser\<close>

text \<open>
  The state between two tokens. A frame is a container that is still open: the elements read so far
  (the last one first) and, in an object, the key whose value is being read. \<open>After fs v\<close> is the state
  after a complete value \<open>v\<close>; with no frame left it is the result.
\<close>

datatype frame = ArrF "json list" | ObjF "(bytes \<times> json) list" bytes

datatype pstate =
    Value "frame list"
  | ArrOpen "frame list"
  | ObjOpen "frame list"
  | Key "frame list" "(bytes \<times> json) list"
  | Colon "frame list" "(bytes \<times> json) list" bytes
  | After "frame list" json

text \<open>\<open>maxNestingDepth\<close> of the scanner.\<close>

definition max_depth :: nat where "max_depth = 10000"

definition start_value :: "token \<Rightarrow> frame list \<Rightarrow> pstate option" where
  "start_value t fs =
     (case t of
        TStr s \<Rightarrow> Some (After fs (JStr s))
      | TNum n \<Rightarrow> Some (After fs (JNum n))
      | TTrue \<Rightarrow> Some (After fs (JBool True))
      | TFalse \<Rightarrow> Some (After fs (JBool False))
      | TNull \<Rightarrow> Some (After fs JNull)
      | TLBrace \<Rightarrow> if length fs < max_depth then Some (ObjOpen fs) else None
      | TLBrack \<Rightarrow> if length fs < max_depth then Some (ArrOpen fs) else None
      | _ \<Rightarrow> None)"

fun parse_step :: "token \<Rightarrow> pstate \<Rightarrow> pstate option" where
  "parse_step t (Value fs) = start_value t fs"
| "parse_step t (ArrOpen fs) =
     (if t = TRBrack then Some (After fs (JArr [])) else start_value t (ArrF [] # fs))"
| "parse_step t (ObjOpen fs) =
     (case t of TRBrace \<Rightarrow> Some (After fs (JObj [])) | TStr k \<Rightarrow> Some (Colon fs [] k) | _ \<Rightarrow> None)"
| "parse_step t (Key fs kvs) = (case t of TStr k \<Rightarrow> Some (Colon fs kvs k) | _ \<Rightarrow> None)"
| "parse_step t (Colon fs kvs k) = (if t = TColon then Some (Value (ObjF kvs k # fs)) else None)"
| "parse_step t (After [] v) = None"
| "parse_step t (After (ArrF vs # fs) v) =
     (case t of
        TComma \<Rightarrow> Some (Value (ArrF (v # vs) # fs))
      | TRBrack \<Rightarrow> Some (After fs (JArr (rev (v # vs))))
      | _ \<Rightarrow> None)"
| "parse_step t (After (ObjF kvs k # fs) v) =
     (case t of
        TComma \<Rightarrow> Some (Key fs ((k, v) # kvs))
      | TRBrace \<Rightarrow> Some (After fs (JObj (rev ((k, v) # kvs))))
      | _ \<Rightarrow> None)"

fun parse_run :: "token list \<Rightarrow> pstate \<Rightarrow> pstate option" where
  "parse_run [] p = Some p"
| "parse_run (t # ts) p = (case parse_step t p of None \<Rightarrow> None | Some q \<Rightarrow> parse_run ts q)"

definition json_parse :: "bytes \<Rightarrow> json option" where
  "json_parse s =
     (case lex s of
        None \<Rightarrow> None
      | Some ts \<Rightarrow> (case parse_run ts (Value []) of Some (After [] v) \<Rightarrow> Some v | _ \<Rightarrow> None))"

definition json_valid :: "bytes \<Rightarrow> bool" where
  "json_valid s \<longleftrightarrow> json_parse s \<noteq> None"

lemma parse_run_append:
  "parse_run (ts @ us) p = (case parse_run ts p of None \<Rightarrow> None | Some q \<Rightarrow> parse_run us q)"
  by (induction ts arbitrary: p) (auto split: option.splits)

section \<open>Rendering\<close>

fun sep_by :: "'a list \<Rightarrow> 'a list list \<Rightarrow> 'a list" where
  "sep_by d [] = []"
| "sep_by d [x] = x"
| "sep_by d (x # y # zs) = x @ d @ sep_by d (y # zs)"

text \<open>The members of an object are written in the order given: a struct's fields in the order of the
  struct, a map's after \<open>sort_members\<close>.\<close>

fun render :: "json \<Rightarrow> bytes" where
  "render JNull = ''null''"
| "render (JBool b) = (if b then ''true'' else ''false'')"
| "render (JNum n) = n"
| "render (JStr s) = quote s"
| "render (JArr vs) = CHR 0x5B # sep_by [CHR 0x2C] (map render vs) @ [CHR 0x5D]"
| "render (JObj kvs) =
     CHR 0x7B # sep_by [CHR 0x2C] (map (\<lambda>(k, v). quote k @ CHR 0x3A # render v) kvs) @ [CHR 0x7D]"

text \<open>\<open>Marshal\<close> of a \<open>map[string]any\<close> sorts the keys.\<close>

fun sort_members :: "json \<Rightarrow> json" where
  "sort_members (JArr vs) = JArr (map sort_members vs)"
| "sort_members (JObj kvs) = JObj (sort_key fst (map (\<lambda>(k, v). (k, sort_members v)) kvs))"
| "sort_members v = v"

definition marshal_map :: "json \<Rightarrow> bytes" where
  "marshal_map v = render (sort_members v)"

fun json_depth :: "json \<Rightarrow> nat" where
  "json_depth (JArr vs) = Suc (fold (max \<circ> json_depth) vs 0)"
| "json_depth (JObj kvs) = Suc (fold (max \<circ> (\<lambda>(k, v). json_depth v)) kvs 0)"
| "json_depth v = 0"

fun tokens :: "json \<Rightarrow> token list" where
  "tokens JNull = [TNull]"
| "tokens (JBool b) = [if b then TTrue else TFalse]"
| "tokens (JNum n) = [TNum n]"
| "tokens (JStr s) = [TStr s]"
| "tokens (JArr vs) = TLBrack # sep_by [TComma] (map tokens vs) @ [TRBrack]"
| "tokens (JObj kvs) =
     TLBrace # sep_by [TComma] (map (\<lambda>(k, v). TStr k # TColon # tokens v) kvs) @ [TRBrace]"

text \<open>What a value is after a trip through its rendering: strings made valid.\<close>

fun normal :: "json \<Rightarrow> json" where
  "normal (JStr s) = JStr (to_valid s)"
| "normal (JArr vs) = JArr (map normal vs)"
| "normal (JObj kvs) = JObj (map (\<lambda>(k, v). (to_valid k, normal v)) kvs)"
| "normal v = v"

fun numbers_ok :: "json \<Rightarrow> bool" where
  "numbers_ok (JNum n) \<longleftrightarrow> n \<noteq> [] \<and> list_all num_char n \<and> valid_number n"
| "numbers_ok (JArr vs) \<longleftrightarrow> list_all numbers_ok vs"
| "numbers_ok (JObj kvs) \<longleftrightarrow> list_all (\<lambda>(k, v). numbers_ok v) kvs"
| "numbers_ok v \<longleftrightarrow> True"

section \<open>Parsing what was rendered\<close>

lemma fold_max_ge: "(a :: nat) \<le> fold (max \<circ> f) xs a"
  by (induction xs arbitrary: a) (auto intro: order_trans[OF max.cobounded2])

lemma fold_max_member: "x \<in> set xs \<Longrightarrow> f x \<le> fold (max \<circ> f) xs (a :: nat)"
proof (induction xs arbitrary: a)
  case (Cons y ys)
  then show ?case
    using fold_max_ge[of "max (f y) a" f ys] by (cases "x = y") (auto simp: comp_def)
qed simp

lemma depth_element: "v \<in> set vs \<Longrightarrow> json_depth v < json_depth (JArr vs)"
  using fold_max_member[of v vs json_depth 0] by simp

lemma depth_member: "(k, v) \<in> set kvs \<Longrightarrow> json_depth v < json_depth (JObj kvs)"
  using fold_max_member[of "(k, v)" kvs "\<lambda>(k, v). json_depth v" 0] by simp

lemma tokens_head: "\<exists>t ts. tokens v = t # ts \<and> t \<noteq> TRBrack"
  by (cases v) auto

definition parses :: "json \<Rightarrow> bool" where
  "parses v \<longleftrightarrow> (\<forall>fs ts. json_depth v + length fs \<le> max_depth \<longrightarrow>
     parse_run (tokens v @ ts) (Value fs) = parse_run ts (After fs v))"

lemma parses_elements:
  assumes "\<And>v. v \<in> set vs \<Longrightarrow> parses v"
    and "\<And>v. v \<in> set vs \<Longrightarrow> json_depth v + Suc (length fs) \<le> max_depth" and "vs \<noteq> []"
  shows "parse_run (sep_by [TComma] (map tokens vs) @ TRBrack # ts) (Value (ArrF acc # fs)) =
         parse_run ts (After fs (JArr (rev acc @ vs)))"
  using assms
proof (induction vs arbitrary: acc)
  case (Cons v vs)
  have v: "parse_run (tokens v @ us) (Value (ArrF acc # fs)) = parse_run us (After (ArrF acc # fs) v)" for us
    using Cons.prems(1,2)[of v] by (simp add: parses_def)
  show ?case
  proof (cases vs)
    case Nil
    then show ?thesis by (simp add: v)
  next
    case (Cons w ws)
    have "parse_run (sep_by [TComma] (map tokens vs) @ TRBrack # ts) (Value (ArrF (v # acc) # fs)) =
        parse_run ts (After fs (JArr (rev (v # acc) @ vs)))"
      using Cons.IH[of "v # acc"] Cons.prems Cons by simp
    then show ?thesis using Cons v by simp
  qed
qed simp

lemma parses_members:
  assumes "\<And>k v. (k, v) \<in> set kvs \<Longrightarrow> parses v"
    and "\<And>k v. (k, v) \<in> set kvs \<Longrightarrow> json_depth v + Suc (length fs) \<le> max_depth" and "kvs \<noteq> []"
  shows "parse_run (sep_by [TComma] (map (\<lambda>(k, v). TStr k # TColon # tokens v) kvs) @ TRBrace # ts)
           (Key fs acc) = parse_run ts (After fs (JObj (rev acc @ kvs)))"
  using assms
proof (induction kvs arbitrary: acc)
  case (Cons kv kvs)
  obtain k v where kv: "kv = (k, v)" by (cases kv)
  have v: "parse_run (tokens v @ us) (Value (ObjF acc k # fs)) = parse_run us (After (ObjF acc k # fs) v)" for us
    using Cons.prems(1,2)[of k v] kv by (simp add: parses_def)
  show ?case
  proof (cases kvs)
    case Nil
    then show ?thesis by (simp add: v kv)
  next
    case (Cons w ws)
    have "parse_run (sep_by [TComma] (map (\<lambda>(k, v). TStr k # TColon # tokens v) kvs) @ TRBrace # ts)
        (Key fs ((k, v) # acc)) = parse_run ts (After fs (JObj (rev ((k, v) # acc) @ kvs)))"
      using Cons.prems Cons by (intro Cons.IH) auto
    moreover obtain k' v' where "w = (k', v')" by (cases w)
    ultimately show ?thesis using Cons v kv by simp
  qed
qed simp

lemma parses_all: "parses v"
proof (induction v)
  case (JArr vs)
  show ?case
    unfolding parses_def
  proof (intro allI impI)
    fix fs :: "frame list" and ts
    assume d: "json_depth (JArr vs) + length fs \<le> max_depth"
    show "parse_run (tokens (JArr vs) @ ts) (Value fs) = parse_run ts (After fs (JArr vs))"
    proof (cases vs)
      case Nil
      with d show ?thesis by (simp add: start_value_def)
    next
      case (Cons v ws)
      obtain t us where t: "tokens v = t # us" "t \<noteq> TRBrack" using tokens_head[of v] by blast
      have "\<exists>us. sep_by [TComma] (map tokens vs) @ TRBrack # ts = t # us"
        by (cases ws) (simp_all add: Cons t)
      then have "parse_run (sep_by [TComma] (map tokens vs) @ TRBrack # ts) (ArrOpen fs) =
          parse_run (sep_by [TComma] (map tokens vs) @ TRBrack # ts) (Value (ArrF [] # fs))"
        using t(2) by auto
      also have "\<dots> = parse_run ts (After fs (JArr vs))"
        using parses_elements[of vs fs ts "[]"] JArr depth_element[of _ vs] d Cons
        by (simp del: json_depth.simps) (meson Suc_leI add_less_le_mono le_refl order_less_le_trans)
      finally show ?thesis using d by (simp add: start_value_def)
    qed
  qed
next
  case (JObj kvs)
  show ?case
    unfolding parses_def
  proof (intro allI impI)
    fix fs :: "frame list" and ts
    assume d: "json_depth (JObj kvs) + length fs \<le> max_depth"
    have step: "parse_step (TStr k) (ObjOpen fs) = parse_step (TStr k) (Key fs [])" for k by simp
    show "parse_run (tokens (JObj kvs) @ ts) (Value fs) = parse_run ts (After fs (JObj kvs))"
    proof (cases kvs)
      case Nil
      with d show ?thesis by (simp add: start_value_def)
    next
      case (Cons kv ws)
      obtain k v where kv: "kv = (k, v)" by (cases kv)
      have "\<exists>us. sep_by [TComma] (map (\<lambda>(k, v). TStr k # TColon # tokens v) kvs) @ TRBrace # ts = TStr k # us"
        by (cases ws) (simp_all add: Cons kv)
      then have "parse_run (sep_by [TComma] (map (\<lambda>(k, v). TStr k # TColon # tokens v) kvs) @ TRBrace # ts)
            (ObjOpen fs) =
          parse_run (sep_by [TComma] (map (\<lambda>(k, v). TStr k # TColon # tokens v) kvs) @ TRBrace # ts) (Key fs [])"
        by auto
      also have "\<dots> = parse_run ts (After fs (JObj kvs))"
      proof (rule parses_members[of kvs fs ts "[]", simplified])
        show "parses v" if "(k, v) \<in> set kvs" for k v
          using JObj[OF that] by simp
        show "Suc (json_depth v + length fs) \<le> max_depth" if "(k, v) \<in> set kvs" for k v
          using depth_member[OF that] d by simp
      qed (simp add: Cons)
      finally show ?thesis using d by (simp add: start_value_def)
    qed
  qed
qed (simp_all add: parses_def start_value_def)

lemma append_Cons_fun: "(@) (x # xs) = (\<lambda>t. x # xs @ t)"
  and append_append_fun: "(@) (xs @ ys) = (\<lambda>t. xs @ ys @ t)"
  by (simp_all add: fun_eq_iff)

lemmas append_funs = append_Cons_fun append_append_fun option.map_comp comp_def

definition starts_num :: "bytes \<Rightarrow> bool" where
  "starts_num s \<longleftrightarrow> (case s of [] \<Rightarrow> False | c # _ \<Rightarrow> num_char c)"

lemma num_char_punct:
  "num_char c \<Longrightarrow> \<not> is_ws c \<and> c \<noteq> dquote \<and>
     c \<notin> {CHR 0x7B, CHR 0x7D, CHR 0x5B, CHR 0x5D, CHR 0x3A, CHR 0x2C}"
  by (auto simp: num_char_def is_ws_def is_digit_def byte_def)

lemma lex_punct [simp]:
  "lex (CHR 0x7B # s) = map_option ((#) TLBrace) (lex s)"
  "lex (CHR 0x7D # s) = map_option ((#) TRBrace) (lex s)"
  "lex (CHR 0x5B # s) = map_option ((#) TLBrack) (lex s)"
  "lex (CHR 0x5D # s) = map_option ((#) TRBrack) (lex s)"
  "lex (CHR 0x3A # s) = map_option ((#) TColon) (lex s)"
  "lex (CHR 0x2C # s) = map_option ((#) TComma) (lex s)"
  by (simp_all add: lex.simps is_ws_def)

lemma starts_num_punct [simp]:
  "\<not> starts_num (CHR 0x7D # s)" "\<not> starts_num (CHR 0x5D # s)" "\<not> starts_num (CHR 0x2C # s)"
  "\<not> starts_num (CHR 0x3A # s)" "\<not> starts_num []"
  by (simp_all add: starts_num_def num_char_def is_digit_def byte_def)

lemma lex_quote: "lex (quote s @ t) = map_option ((#) (TStr (to_valid s))) (lex t)"
  by (simp add: quote_def lex.simps(2) is_ws_def scan_quote_body)

lemma lex_number:
  assumes "n \<noteq> []" and "list_all num_char n" and "valid_number n" and "\<not> starts_num t"
  shows "lex (n @ t) = map_option ((#) (TNum n)) (lex t)"
proof -
  obtain c cs where n: "n = c # cs" using assms(1) by (cases n) auto
  have t: "takeWhile num_char t = []" "dropWhile num_char t = t"
    using assms(4) by (cases t; simp add: starts_num_def)+
  have "\<forall>x\<in>set cs. num_char x" and c: "num_char c" using assms(2) n by (auto simp: list_all_iff)
  then have "takeWhile num_char (c # cs @ t) = c # cs" and "dropWhile num_char (cs @ t) = t"
    using t by (simp_all add: takeWhile_append2 dropWhile_append2)
  then show ?thesis
    using num_char_punct[OF c] c assms(3) n by (simp add: lex.simps(2))
qed

definition lexes :: "json \<Rightarrow> bool" where
  "lexes v \<longleftrightarrow> (\<forall>t. \<not> starts_num t \<longrightarrow>
     lex (render v @ t) = map_option ((@) (tokens (normal v))) (lex t))"

lemma lexes_elements:
  assumes "\<And>v. v \<in> set vs \<Longrightarrow> lexes v" and "vs \<noteq> []" and "\<not> starts_num t"
  shows "lex (sep_by [CHR 0x2C] (map render vs) @ t) =
         map_option ((@) (sep_by [TComma] (map tokens (map normal vs)))) (lex t)"
  using assms
proof (induction vs)
  case (Cons v vs)
  have v: "\<not> starts_num u \<Longrightarrow> lex (render v @ u) = map_option ((@) (tokens (normal v))) (lex u)" for u
    using Cons.prems(1)[of v] by (simp add: lexes_def)
  show ?case
  proof (cases vs)
    case Nil
    then show ?thesis using Cons.prems(3) v by simp
  next
    case (Cons w ws)
    then show ?thesis
      using Cons.IH Cons.prems v by (simp add: append_funs)
  qed
qed simp

lemma lexes_members:
  assumes "\<And>k v. (k, v) \<in> set kvs \<Longrightarrow> lexes v" and "kvs \<noteq> []" and "\<not> starts_num t"
  shows "lex (sep_by [CHR 0x2C] (map (\<lambda>(k, v). quote k @ CHR 0x3A # render v) kvs) @ t) =
         map_option ((@) (sep_by [TComma] (map (\<lambda>(k, v). TStr k # TColon # tokens v)
           (map (\<lambda>(k, v). (to_valid k, normal v)) kvs)))) (lex t)"
  using assms
proof (induction kvs)
  case (Cons kv kvs)
  obtain k v where kv: "kv = (k, v)" by (cases kv)
  have v: "\<not> starts_num u \<Longrightarrow> lex (quote k @ CHR 0x3A # render v @ u) =
      map_option ((@) (TStr (to_valid k) # TColon # tokens (normal v))) (lex u)" for u
    using Cons.prems(1)[of k v] kv
    by (simp add: lexes_def lex_quote append_funs)
  show ?case
  proof (cases kvs)
    case Nil
    then show ?thesis using Cons.prems(3) v[of t] kv by (simp add: append_funs)
  next
    case (Cons w ws)
    have "lex (sep_by [CHR 0x2C] (map (\<lambda>(k, v). quote k @ CHR 0x3A # render v) kvs) @ t) =
         map_option ((@) (sep_by [TComma] (map (\<lambda>(k, v). TStr k # TColon # tokens v)
           (map (\<lambda>(k, v). (to_valid k, normal v)) kvs)))) (lex t)"
      using Cons.prems Cons by (intro Cons.IH) auto
    moreover obtain k' v' where "w = (k', v')" by (cases w)
    ultimately show ?thesis
      using Cons v kv by (simp add: append_funs)
  qed
qed simp

lemma lexes_all: "numbers_ok v \<Longrightarrow> lexes v"
proof (induction v)
  case (JNum n)
  then show ?case using lex_number[of n] by (simp add: lexes_def) (simp add: append_funs)
next
  case (JStr s)
  then show ?case by (simp add: lexes_def lex_quote append_funs)
next
  case (JArr vs)
  show ?case
  proof (cases "vs = []")
    case False
    have "\<And>v. v \<in> set vs \<Longrightarrow> lexes v" using JArr by (simp add: list_all_iff)
    from lexes_elements[OF this False] show ?thesis
      by (simp add: lexes_def append_funs)
  qed (simp add: lexes_def append_funs)
next
  case (JObj kvs)
  show ?case
  proof (cases "kvs = []")
    case False
    have "\<And>k v. (k, v) \<in> set kvs \<Longrightarrow> lexes v" using JObj by (fastforce simp: list_all_iff)
    from lexes_members[OF this False] show ?thesis
      by (simp add: lexes_def append_funs)
  qed (simp add: lexes_def append_funs)
qed (auto simp: lexes_def lex.simps(2) is_ws_def num_char_def is_digit_def byte_def append_funs)

text \<open>The round trip: parsing a rendered value gives it back, with its strings made valid UTF-8.\<close>

lemma json_parse_render:
  assumes "numbers_ok v" and "json_depth (normal v) \<le> max_depth"
  shows "json_parse (render v) = Some (normal v)"
proof -
  have "lex (render v) = Some (tokens (normal v))"
    using lexes_all[OF assms(1)] unfolding lexes_def
    by (metis append_Nil2 lex.simps(1) option.map(2) starts_num_punct(5))
  moreover have "parse_run (tokens (normal v)) (Value []) = Some (After [] (normal v))"
    using parses_all[of "normal v"] assms(2) unfolding parses_def
    by (metis add.right_neutral append_Nil2 list.size(3) parse_run.simps(1))
  ultimately show ?thesis by (simp add: json_parse_def)
qed

end
