(* ===== verification/Go_Http.thy ===== *)
theory Go_Http
  imports Go_Case Json "HOL-Library.AList"
begin

text \<open>
  What the proxy uses of \<open>net/http\<close>: header maps, the request a handler is given, and the response it
  writes. A header map is an association list in some iteration order; \<open>Get\<close>, \<open>Set\<close> and \<open>Add\<close> work
  on canonical keys, the map's own keys are as they came.
\<close>

section \<open>Header maps\<close>

type_synonym header = "(string \<times> string list) list"

text \<open>A byte of a header field name (a token of RFC 7230).\<close>

definition token_byte :: "char \<Rightarrow> bool" where
  "token_byte c \<longleftrightarrow> is_upper c \<or> is_lower c \<or> is_digit c \<or> c \<in> set ''!#$%&*+-.^_`|~'' \<or> c = CHR 0x27"

definition upper_ascii :: "char \<Rightarrow> char" where
  "upper_ascii c = (if is_lower c then char_of (byte c - 32) else c)"

fun capitalize :: "bool \<Rightarrow> string \<Rightarrow> string" where
  "capitalize up [] = []"
| "capitalize up (c # s) = (if up then upper_ascii c else lower_byte c) # capitalize (c = CHR ''-'') s"

definition canonical_key :: "string \<Rightarrow> string" where
  "canonical_key k = (if list_all token_byte k then capitalize True k else k)"

definition header_values :: "header \<Rightarrow> string \<Rightarrow> string list" where
  "header_values h k = (case map_of h (canonical_key k) of None \<Rightarrow> [] | Some vs \<Rightarrow> vs)"

definition header_get :: "header \<Rightarrow> string \<Rightarrow> string" where
  "header_get h k = (case header_values h k of [] \<Rightarrow> [] | v # _ \<Rightarrow> v)"

definition header_set :: "string \<Rightarrow> string \<Rightarrow> header \<Rightarrow> header" where
  "header_set k v h = AList.update (canonical_key k) [v] h"

definition header_add :: "string \<Rightarrow> string \<Rightarrow> header \<Rightarrow> header" where
  "header_add k v h = AList.update (canonical_key k) (header_values h k @ [v]) h"

lemma canonical_names [simp]:
  "canonical_key ''Authorization'' = ''Authorization''" "canonical_key ''X-API-Key'' = ''X-Api-Key''"
  "canonical_key ''Content-Type'' = ''Content-Type''" "canonical_key ''X-Session-ID'' = ''X-Session-Id''"
  "canonical_key ''X-Request-ID'' = ''X-Request-Id''" "canonical_key ''X-Forwarded-For'' = ''X-Forwarded-For''"
  "canonical_key ''X-Forwarded-Proto'' = ''X-Forwarded-Proto''" "canonical_key ''Cache-Control'' = ''Cache-Control''"
  "canonical_key ''Connection'' = ''Connection''" "canonical_key ''X-Accel-Buffering'' = ''X-Accel-Buffering''"
  "canonical_key ''Retry-After'' = ''Retry-After''"
  by code_simp+

lemma header_values_set [simp]:
  "header_values (header_set k v h) k' = (if canonical_key k' = canonical_key k then [v] else header_values h k')"
  by (simp add: header_values_def header_set_def update_conv')

lemma header_values_add [simp]:
  "header_values (header_add k v h) k' =
     (if canonical_key k' = canonical_key k then header_values h k @ [v] else header_values h k')"
  by (auto simp: header_values_def header_add_def update_conv')

lemma header_get_set [simp]:
  "header_get (header_set k v h) k' = (if canonical_key k' = canonical_key k then v else header_get h k')"
  by (simp add: header_get_def)

lemma header_keys_set: "fst ` set (header_set k v h) = insert (canonical_key k) (fst ` set h)"
  by (simp add: header_set_def dom_update)

lemma header_keys_add: "fst ` set (header_add k v h) = insert (canonical_key k) (fst ` set h)"
  by (simp add: header_add_def dom_update)

section \<open>Requests\<close>

text \<open>A request as the server hands it to a handler. \<open>r_body\<close> is what is left to read of its body.\<close>

record request =
  r_Method :: string
  r_Path :: string
  r_RawQuery :: string
  r_Fragment :: string
  r_Header :: header
  r_RemoteAddr :: string
  r_TLS :: bool
  r_body :: bytes
  r_Context :: nat

text \<open>A request for examples.\<close>

definition example_request :: request where
  "example_request = \<lparr>r_Method = ''POST'', r_Path = ''/v1/chat/completions'', r_RawQuery = [], r_Fragment = [],
     r_Header = [(''Authorization'', [''Bearer k1''])], r_RemoteAddr = ''10.0.0.9:4711'', r_TLS = False,
     r_body = ''{}'', r_Context = 0\<rparr>"

section \<open>Responses\<close>

text \<open>
  The response writer: the live header map, the status and header map as sent by the first
  \<open>WriteHeader\<close>, and the body. Later calls of \<open>WriteHeader\<close> have no effect, a \<open>Write\<close> before the
  first one sends status 200. A write may fail after \<open>n\<close> bytes.
\<close>

record response =
  rw_Header :: header
  rw_sent :: "(int \<times> header) option"
  rw_body :: bytes

definition new_response :: response where
  "new_response = \<lparr>rw_Header = [], rw_sent = None, rw_body = []\<rparr>"

definition set_header :: "string \<Rightarrow> string \<Rightarrow> response \<Rightarrow> response" where
  "set_header k v w = w\<lparr>rw_Header := header_set k v (rw_Header w)\<rparr>"

definition write_header :: "int \<Rightarrow> response \<Rightarrow> response" where
  "write_header status w = (case rw_sent w of None \<Rightarrow> w\<lparr>rw_sent := Some (status, rw_Header w)\<rparr> | Some _ \<Rightarrow> w)"

definition write_body :: "(nat \<times> string) option \<Rightarrow> bytes \<Rightarrow> response \<Rightarrow> response \<times> string option" where
  "write_body fails b w =
     (let w1 = write_header 200 w in
      case fails of
        None \<Rightarrow> (w1\<lparr>rw_body := rw_body w1 @ b\<rparr>, None)
      | Some (n, e) \<Rightarrow> (w1\<lparr>rw_body := rw_body w1 @ take n b\<rparr>, Some e))"

text \<open>What the client gets when the handler has returned: without a call of \<open>WriteHeader\<close> the server
  sends status 200.\<close>

definition answer_status :: "response \<Rightarrow> int" where
  "answer_status w = (case rw_sent w of None \<Rightarrow> 200 | Some (s, h) \<Rightarrow> s)"

text \<open>The JSON error objects of the proxy, and an answer of a handler: content type, status, body.\<close>

definition error_object :: "string \<Rightarrow> string \<Rightarrow> json" where
  "error_object code message = JObj [(''error'', JObj [(''code'', JStr code), (''message'', JStr message)])]"

definition rule_object :: "string \<Rightarrow> string \<Rightarrow> string \<Rightarrow> json" where
  "rule_object code rule message =
     JObj [(''error'', JObj [(''code'', JStr code), (''rule_id'', JStr rule), (''message'', JStr message)])]"

definition respond :: "(nat \<times> string) option \<Rightarrow> int \<Rightarrow> bytes \<Rightarrow> response \<Rightarrow> response" where
  "respond fails status b w =
     fst (write_body fails b (write_header status (set_header ''Content-Type'' ''application/json'' w)))"

lemma respond_new [simp]:
  "rw_sent (respond f status b new_response) = Some (status, [(''Content-Type'', [''application/json''])])"
  "rw_body (respond None status b new_response) = b"
  by (simp_all add: respond_def write_body_def write_header_def set_header_def new_response_def Let_def header_set_def
      split: option.splits)

section \<open>Host and port\<close>

definition last_index :: "char \<Rightarrow> string \<Rightarrow> nat option" where
  "last_index c s = (case filter (\<lambda>i. s ! i = c) [0..<length s] of [] \<Rightarrow> None | is \<Rightarrow> Some (last is))"

text \<open>The host of \<open>net.SplitHostPort\<close>, \<open>None\<close> where it returns an error.\<close>

definition SplitHost :: "string \<Rightarrow> string option" where
  "SplitHost hp =
     (case last_index (CHR '':'') hp of
        None \<Rightarrow> None
      | Some i \<Rightarrow>
          (if hd hp = CHR ''['' then
             (case index_of hp '']'' of
                None \<Rightarrow> None
              | Some e \<Rightarrow>
                  if Suc e \<noteq> i then None
                  else if CHR ''['' \<in> set (drop 1 hp) \<or> CHR '']'' \<in> set (drop (Suc e) hp) then None
                  else Some (take (e - 1) (drop 1 hp)))
           else if CHR '':'' \<in> set (take i hp) then None
           else if CHR ''['' \<in> set hp \<or> CHR '']'' \<in> set hp then None
           else Some (take i hp)))"

end
