(* ===== verification/Auth.thy ===== *)
theory Auth
  imports Go_Http
begin

text \<open>
  \<open>internal/auth/auth.go\<close>: the tenant authenticator. The read-write mutex makes each operation atomic;
  a tenant list is copied when it is installed, so it is a value. The pointer that \<open>VerifyKey\<close> returns
  is the tenant as it was at the return.
\<close>

section \<open>Tenants and the request context\<close>

datatype auth_error = ErrMissingAPIKey | ErrInvalidAPIKey | ErrDisabledTenant

fun auth_error_text :: "auth_error \<Rightarrow> string" where
  "auth_error_text ErrMissingAPIKey = ''missing API key in request''"
| "auth_error_text ErrInvalidAPIKey = ''invalid API key''"
| "auth_error_text ErrDisabledTenant = ''tenant account is disabled''"

record TenantContext =
  tx_TenantID :: string
  tx_Name :: string
  tx_APIKey :: string
  tx_Enabled :: bool

text \<open>The values stored under \<open>tenantCtxKey\<close> in a chain of contexts, the innermost first; a nil
  pointer is \<open>None\<close>.\<close>

type_synonym tenant_values = "TenantContext option list"

definition WithTenantContext :: "tenant_values \<Rightarrow> TenantContext option \<Rightarrow> tenant_values" where
  "WithTenantContext ctx tc = tc # ctx"

definition GetTenantContext :: "tenant_values \<Rightarrow> TenantContext option \<times> bool" where
  "GetTenantContext ctx = (case ctx of [] \<Rightarrow> (None, False) | tc # _ \<Rightarrow> (tc, tc \<noteq> None))"

section \<open>The authenticator\<close>

type_synonym Authenticator = "TenantContext list"

definition NewAuthenticator :: "TenantContext list \<Rightarrow> Authenticator" where
  "NewAuthenticator ts = ts"

definition SetTenants :: "TenantContext list \<Rightarrow> Authenticator \<Rightarrow> Authenticator" where
  "SetTenants ts a = ts"

text \<open>The first tenant with the identity or the key of the new one is replaced.\<close>

fun AddTenant :: "TenantContext \<Rightarrow> Authenticator \<Rightarrow> Authenticator" where
  "AddTenant t [] = [t]"
| "AddTenant t (u # ts) =
     (if tx_TenantID u = tx_TenantID t \<or> tx_APIKey u = tx_APIKey t then t # ts else u # AddTenant t ts)"

text \<open>The token of an \<open>Authorization\<close> header: the part after the first space, if the part before it is
  Bearer in any case.\<close>

definition bearer_token :: "string \<Rightarrow> string" where
  "bearer_token authHeader =
     (case index_of authHeader '' '' of
        None \<Rightarrow> []
      | Some i \<Rightarrow> if equal_fold (take i authHeader) ''Bearer'' then trim_space (drop (Suc i) authHeader) else [])"

definition ExtractAPIKey :: "request \<Rightarrow> string" where
  "ExtractAPIKey r =
     (let authHeader = header_get (r_Header r) ''Authorization''; token = bearer_token authHeader in
      if authHeader \<noteq> [] \<and> token \<noteq> [] then token
      else let xKey = header_get (r_Header r) ''X-API-Key'' in
        if xKey \<noteq> [] then trim_space xKey else [])"

text \<open>The full scan: a later match replaces an earlier one.\<close>

fun scan_tenants :: "string \<Rightarrow> TenantContext list \<Rightarrow> TenantContext option \<Rightarrow> TenantContext option" where
  "scan_tenants key [] matched = matched"
| "scan_tenants key (t # ts) matched = scan_tenants key ts (if key = tx_APIKey t then Some t else matched)"

definition VerifyKey :: "Authenticator \<Rightarrow> string \<Rightarrow> auth_error + TenantContext" where
  "VerifyKey a key =
     (case scan_tenants key a None of
        None \<Rightarrow> Inl ErrInvalidAPIKey
      | Some tc \<Rightarrow> if \<not> tx_Enabled tc then Inl ErrDisabledTenant else Inr tc)"

definition Authenticate :: "Authenticator \<Rightarrow> request \<Rightarrow> auth_error + TenantContext" where
  "Authenticate a r = (let key = ExtractAPIKey r in if key = [] then Inl ErrMissingAPIKey else VerifyKey a key)"

section \<open>Answers to rejected requests\<close>

definition WriteAuthError :: "(nat \<times> string) option \<Rightarrow> int \<Rightarrow> auth_error \<Rightarrow> response \<Rightarrow> response" where
  "WriteAuthError fails status err w =
     respond fails status
       (marshal_map (error_object (if status = 403 then ''forbidden'' else ''unauthorized'') (auth_error_text err)) @ [newline]) w"

definition auth_status :: "auth_error \<Rightarrow> int" where
  "auth_status err = (if err = ErrDisabledTenant then 403 else 401)"

definition Middleware ::
  "Authenticator \<Rightarrow> (nat \<times> string) option \<Rightarrow> (request \<Rightarrow> tenant_values \<Rightarrow> response \<Rightarrow> response) \<Rightarrow>
   request \<Rightarrow> tenant_values \<Rightarrow> response \<Rightarrow> response" where
  "Middleware a fails serve r ctx w =
     (case Authenticate a r of
        Inl err \<Rightarrow> WriteAuthError fails (auth_status err) err w
      | Inr tc \<Rightarrow> serve r (WithTenantContext ctx (Some tc)) w)"

section \<open>Who is admitted\<close>

lemma scan_last:
  "scan_tenants key ts m =
     (case filter (\<lambda>t. tx_APIKey t = key) ts of [] \<Rightarrow> m | us \<Rightarrow> Some (last us))"
  by (induction ts arbitrary: m) (auto split: list.splits)

lemma scan_Some: "scan_tenants key ts None = Some tc \<Longrightarrow> tc \<in> set ts \<and> tx_APIKey tc = key"
proof -
  assume s: "scan_tenants key ts None = Some tc"
  then obtain u us where us: "filter (\<lambda>t. tx_APIKey t = key) ts = u # us"
    by (auto simp: scan_last split: list.splits)
  with s have "tc = last (filter (\<lambda>t. tx_APIKey t = key) ts)" by (simp add: scan_last)
  then have "tc \<in> set (filter (\<lambda>t. tx_APIKey t = key) ts)" using us by (metis last_in_set list.distinct(1))
  then show ?thesis by simp
qed

lemma scan_None: "scan_tenants key ts m = None \<longleftrightarrow> m = None \<and> key \<notin> tx_APIKey ` set ts"
  by (induction ts arbitrary: m) auto

lemma scan_unique:
  assumes "distinct (map tx_APIKey ts)" and "tc \<in> set ts"
  shows "scan_tenants (tx_APIKey tc) ts None = Some tc"
proof (cases "scan_tenants (tx_APIKey tc) ts None")
  case None
  then show ?thesis using assms(2) by (simp add: scan_None)
next
  case (Some u)
  then have "u \<in> set ts" "tx_APIKey u = tx_APIKey tc" using scan_Some by blast+
  then have "u = tc" using assms by (auto simp: distinct_map inj_on_def)
  with Some show ?thesis by simp
qed

lemma bearer_token_scheme: "bearer_token (''Bearer '' @ k) = trim_space k"
  by (simp add: bearer_token_def equal_fold_def has_prefix_def)

text \<open>
  C21: what the answer of the authenticator means, for every tenant list and request: an admitted
  request carried the non-empty key of the registered, enabled tenant it is admitted as; it is refused
  as missing exactly without a key, as invalid only if no tenant has the key, as disabled only for a
  disabled tenant with that key.
\<close>

theorem authentication_sound:
  "case Authenticate a r of
     Inr tc \<Rightarrow> tc \<in> set a \<and> tx_Enabled tc \<and> tx_APIKey tc = ExtractAPIKey r \<and> ExtractAPIKey r \<noteq> []
   | Inl ErrMissingAPIKey \<Rightarrow> ExtractAPIKey r = []
   | Inl ErrInvalidAPIKey \<Rightarrow> ExtractAPIKey r \<noteq> [] \<and> ExtractAPIKey r \<notin> tx_APIKey ` set a
   | Inl ErrDisabledTenant \<Rightarrow> ExtractAPIKey r \<noteq> [] \<and>
       list_ex (\<lambda>tc. tx_APIKey tc = ExtractAPIKey r \<and> \<not> tx_Enabled tc) a"
  by (auto simp: Authenticate_def VerifyKey_def Let_def scan_None list_ex_iff dest: scan_Some split: option.splits)

lemma Authenticate_Inr:
  "Authenticate a r = Inr tc \<Longrightarrow> tc \<in> set a \<and> tx_Enabled tc \<and> tx_APIKey tc = ExtractAPIKey r"
  by (auto simp: Authenticate_def VerifyKey_def Let_def dest: scan_Some split: option.splits if_splits)

text \<open>
  every enabled tenant whose key has no white space around it and is shared with no other tenant is
  admitted as itself when the request carries the key as a bearer token, whatever its other headers.
\<close>

theorem enabled_tenant_admitted:
  assumes "distinct (map tx_APIKey a)" and "tc \<in> set a" and "tx_Enabled tc"
    and "trim_space (tx_APIKey tc) = tx_APIKey tc" and "tx_APIKey tc \<noteq> []"
    and "header_get (r_Header r) ''Authorization'' = ''Bearer '' @ tx_APIKey tc"
  shows "Authenticate a r = Inr tc"
proof -
  have "ExtractAPIKey r = tx_APIKey tc"
    using assms(4-6) bearer_token_scheme[of "tx_APIKey tc"] by (simp add: ExtractAPIKey_def Let_def)
  then show ?thesis using assms scan_unique by (simp add: Authenticate_def VerifyKey_def)
qed

definition example_tenant :: TenantContext where
  "example_tenant = \<lparr>tx_TenantID = ''acme'', tx_Name = ''Acme'', tx_APIKey = ''k1'', tx_Enabled = True\<rparr>"

lemma example_credentials:
  "trim_space (tx_APIKey example_tenant) = tx_APIKey example_tenant"
  "header_get (r_Header example_request) ''Authorization'' = ''Bearer '' @ tx_APIKey example_tenant"
  by (simp add: example_tenant_def trim_space_def trim_by.simps space_encodings_def byte_string_def has_prefix_def char_of_def)
    (simp add: header_get_def header_values_def example_request_def example_tenant_def)

lemma example_admitted: "Authenticate [example_tenant] (example_request\<lparr>r_body := b\<rparr>) = Inr example_tenant"
proof -
  have "ExtractAPIKey (example_request\<lparr>r_body := b\<rparr>) = tx_APIKey example_tenant"
    using example_credentials bearer_token_scheme[of "tx_APIKey example_tenant"]
    by (simp add: ExtractAPIKey_def Let_def) (simp add: example_tenant_def)
  then show ?thesis by (simp add: Authenticate_def VerifyKey_def example_tenant_def)
qed

lemma enabled_tenant_admitted_witness: "Authenticate [example_tenant] example_request = Inr example_tenant"
  by (rule enabled_tenant_admitted[OF _ _ _ example_credentials(1) _ example_credentials(2)]) (simp_all add: example_tenant_def)

text \<open>A tenant without a key of its own is never admitted.\<close>

lemma keyless_tenant_locked_out: "Authenticate a r = Inr tc \<Longrightarrow> tx_APIKey tc \<noteq> []"
  by (auto simp: Authenticate_def VerifyKey_def Let_def dest: scan_Some split: option.splits if_splits)

text \<open>Updating a tenant by its identity may leave its new key with a later tenant of the list.\<close>

lemma add_tenant_key_clash:
  "let a = AddTenant \<lparr>tx_TenantID = ''a'', tx_Name = [], tx_APIKey = ''k2'', tx_Enabled = True\<rparr>
       (NewAuthenticator [\<lparr>tx_TenantID = ''a'', tx_Name = [], tx_APIKey = ''k1'', tx_Enabled = True\<rparr>,
          \<lparr>tx_TenantID = ''b'', tx_Name = [], tx_APIKey = ''k2'', tx_Enabled = True\<rparr>])
   in VerifyKey a ''k2'' = Inr \<lparr>tx_TenantID = ''b'', tx_Name = [], tx_APIKey = ''k2'', tx_Enabled = True\<rparr>"
  by (simp add: NewAuthenticator_def VerifyKey_def)

end
