(* ===== verification/Pipeline.thy ===== *)
theory Pipeline
  imports Go_Strings
begin

text \<open>
  \<open>internal/pipeline/pipeline.go\<close>: the context of one request, the contract of a stage, and the runner
  that executes the stages in order and fails closed. A stage works on the context and on a state
  \<open>'w\<close> of its own (the limiter's buckets, the vault, the canary counter); a panic is a value of its
  outcome. The wall-clock time that stage number \<open>i\<close> took is the input \<open>elapsed i\<close>.
\<close>

section \<open>Results, violations, context\<close>

datatype StageResult = StageContinue | StageTripwire | StageDryRun | StageBypass | StageOther int

fun StageResult_String :: "StageResult \<Rightarrow> string" where
  "StageResult_String StageContinue = ''StageContinue''"
| "StageResult_String StageTripwire = ''StageTripwire''"
| "StageResult_String StageDryRun = ''StageDryRun''"
| "StageResult_String StageBypass = ''StageBypass''"
| "StageResult_String (StageOther n) = ''StageResult('' @ dec_int n @ '')''"

record PolicyViolation =
  RuleID :: string
  Stage :: string
  Description :: string
  Severity :: string
  Shadow :: bool

text \<open>\<open>StdContext\<close> is a handle of the request's \<open>context.Context\<close>, which the stages never read.\<close>

record PipelineContext =
  StdContext :: "nat option"
  TenantID :: string
  SessionID :: string
  RequestID :: string
  IsStreaming :: bool
  StartTime :: time
  RawPayload :: bytes
  CleanPayload :: bytes
  CanaryToken :: string
  MatchedRuleID :: string
  ViolationType :: string
  Violations :: "PolicyViolation list"
  StageDurations :: "string \<rightharpoonup> int"
  UpstreamStatus :: int

text \<open>A context fresh from the pool's \<open>New\<close>.\<close>

definition new_context :: PipelineContext where
  "new_context = \<lparr>StdContext = None, TenantID = [], SessionID = [], RequestID = [],
     IsStreaming = False, StartTime = 0, RawPayload = [], CleanPayload = [], CanaryToken = [],
     MatchedRuleID = [], ViolationType = [], Violations = [], StageDurations = Map.empty,
     UpstreamStatus = 0\<rparr>"

text \<open>\<open>AcquireContext\<close> on the object that the pool hands out, and the reset of \<open>ReleaseContext\<close> before
  the object goes back. (Slices cut to length 0 are empty; their capacity is not modelled.)\<close>

definition AcquireContext ::
  "nat \<Rightarrow> string \<Rightarrow> string \<Rightarrow> time \<Rightarrow> PipelineContext \<Rightarrow> PipelineContext" where
  "AcquireContext ctx tenantID sessionID now pc =
     pc\<lparr>StdContext := Some ctx, TenantID := tenantID, SessionID := sessionID, StartTime := now,
        RawPayload := [], CleanPayload := [], CanaryToken := [], MatchedRuleID := [],
        ViolationType := [], IsStreaming := False, UpstreamStatus := 0, Violations := [],
        StageDurations := Map.empty\<rparr>"

definition ReleaseContext :: "PipelineContext \<Rightarrow> PipelineContext" where
  "ReleaseContext pc =
     pc\<lparr>RawPayload := [], CleanPayload := [], Violations := [], StdContext := None,
        CanaryToken := [], MatchedRuleID := [], ViolationType := [], StageDurations := Map.empty\<rparr>"

section \<open>Stages\<close>

datatype outcome = Returned StageResult | Panicked string

record 'w Stage =
  Name :: string
  FailClosed :: bool
  Execute :: "PipelineContext \<Rightarrow> 'w \<Rightarrow> PipelineContext \<times> 'w \<times> outcome"

definition panic_error :: "string \<Rightarrow> string \<Rightarrow> string" where
  "panic_error name v = ''stage '' @ go_q name @ '' panicked (fail-closed): '' @ v"

definition violation_error :: "string \<Rightarrow> PipelineContext \<Rightarrow> string" where
  "violation_error name ctx = ''security violation in stage '' @ go_q name @ '': rule='' @
     MatchedRuleID ctx @ '' violation='' @ ViolationType ctx"

definition unrecognized_error :: "string \<Rightarrow> StageResult \<Rightarrow> string" where
  "unrecognized_error name r = ''stage '' @ go_q name @ '' returned unrecognized result '' @
     StageResult_String r @ '' (fail-closed)''"

definition shadow_violation :: "string \<Rightarrow> PipelineContext \<Rightarrow> PolicyViolation" where
  "shadow_violation name ctx = \<lparr>RuleID = MatchedRuleID ctx, Stage = name,
     Description = ViolationType ctx, Severity = ''shadow'', Shadow = True\<rparr>"

text \<open>The loop of \<open>PipelineRunner.Execute\<close>; \<open>i\<close> is the index of the first stage of the list.\<close>

fun Execute_from :: "(nat \<Rightarrow> int) \<Rightarrow> nat \<Rightarrow> 'w Stage list \<Rightarrow> PipelineContext \<Rightarrow> 'w \<Rightarrow>
    (StageResult \<times> string option) \<times> PipelineContext \<times> 'w" where
  "Execute_from elapsed i [] ctx w = ((StageContinue, None), ctx, w)"
| "Execute_from elapsed i (stage # stages) ctx w =
     (case Execute stage ctx w of (ctx1, w1, out) \<Rightarrow>
        let ctx2 = ctx1\<lparr>StageDurations := (StageDurations ctx1)(Name stage \<mapsto> elapsed i)\<rparr> in
        case out of
          Panicked v \<Rightarrow>
            if FailClosed stage
            then ((StageTripwire, Some (panic_error (Name stage) v)), ctx2, w1)
            else Execute_from elapsed (Suc i) stages ctx2 w1
        | Returned StageTripwire \<Rightarrow>
            ((StageTripwire, Some (violation_error (Name stage) ctx2)), ctx2, w1)
        | Returned StageDryRun \<Rightarrow>
            Execute_from elapsed (Suc i) stages
              (ctx2\<lparr>Violations := Violations ctx2 @ [shadow_violation (Name stage) ctx2]\<rparr>) w1
        | Returned StageBypass \<Rightarrow> Execute_from elapsed (Suc i) stages ctx2 w1
        | Returned StageContinue \<Rightarrow> Execute_from elapsed (Suc i) stages ctx2 w1
        | Returned (StageOther n) \<Rightarrow>
            if FailClosed stage
            then ((StageTripwire, Some (unrecognized_error (Name stage) (StageOther n))), ctx2, w1)
            else Execute_from elapsed (Suc i) stages ctx2 w1)"

record 'w PipelineRunner =
  stages :: "'w Stage list"

definition NewPipelineRunner :: "'w Stage list \<Rightarrow> 'w PipelineRunner" where
  "NewPipelineRunner sts = \<lparr>stages = sts\<rparr>"

definition AddStage :: "'w Stage \<Rightarrow> 'w PipelineRunner \<Rightarrow> 'w PipelineRunner" where
  "AddStage st pr = pr\<lparr>stages := stages pr @ [st]\<rparr>"

definition Runner_Execute :: "(nat \<Rightarrow> int) \<Rightarrow> 'w PipelineRunner \<Rightarrow> PipelineContext \<Rightarrow> 'w \<Rightarrow>
    (StageResult \<times> string option) \<times> PipelineContext \<times> 'w" where
  "Runner_Execute elapsed pr ctx w = Execute_from elapsed 0 (stages pr) ctx w"

section \<open>What a run executed\<close>

text \<open>An outcome that must stop the request: a violation, or from a fail-closed stage a panic or a result
  that is none of the four.\<close>

fun blocks :: "bool \<Rightarrow> outcome \<Rightarrow> bool" where
  "blocks closed (Panicked v) \<longleftrightarrow> closed"
| "blocks closed (Returned StageTripwire) \<longleftrightarrow> True"
| "blocks closed (Returned (StageOther n)) \<longleftrightarrow> closed"
| "blocks closed (Returned _) \<longleftrightarrow> False"

text \<open>What happens to context and state at a stage that lets the request pass.\<close>

definition pass_stage :: "(nat \<Rightarrow> int) \<Rightarrow> nat \<Rightarrow> 'w Stage \<Rightarrow> PipelineContext \<Rightarrow> 'w \<Rightarrow> PipelineContext \<times> 'w" where
  "pass_stage elapsed i stage ctx w =
     (case Execute stage ctx w of (ctx1, w1, out) \<Rightarrow>
        let ctx2 = ctx1\<lparr>StageDurations := (StageDurations ctx1)(Name stage \<mapsto> elapsed i)\<rparr> in
        (if out = Returned StageDryRun
         then ctx2\<lparr>Violations := Violations ctx2 @ [shadow_violation (Name stage) ctx2]\<rparr> else ctx2, w1))"

text \<open>The outcomes of the stages that a run executes, in order.\<close>

fun outcomes :: "(nat \<Rightarrow> int) \<Rightarrow> nat \<Rightarrow> 'w Stage list \<Rightarrow> PipelineContext \<Rightarrow> 'w \<Rightarrow> ('w Stage \<times> outcome) list" where
  "outcomes elapsed i [] ctx w = []"
| "outcomes elapsed i (stage # sts) ctx w =
     (let out = snd (snd (Execute stage ctx w)) in
      (stage, out) #
      (if blocks (FailClosed stage) out then []
       else case pass_stage elapsed i stage ctx w of (ctx', w') \<Rightarrow> outcomes elapsed (Suc i) sts ctx' w'))"

lemma Execute_from_pass:
  assumes "\<not> blocks (FailClosed stage) (snd (snd (Execute stage ctx w)))"
  shows "Execute_from elapsed i (stage # sts) ctx w =
    (case pass_stage elapsed i stage ctx w of (ctx', w') \<Rightarrow> Execute_from elapsed (Suc i) sts ctx' w')"
  using assms
  by (cases "Execute stage ctx w")
     (auto simp: pass_stage_def Let_def split: outcome.splits StageResult.splits)

lemma Execute_from_block:
  assumes "blocks (FailClosed stage) (snd (snd (Execute stage ctx w)))"
  shows "\<exists>e. fst (Execute_from elapsed i (stage # sts) ctx w) = (StageTripwire, Some e)"
  using assms
  by (cases "Execute stage ctx w")
     (auto simp: Let_def split: outcome.splits StageResult.splits)

lemmas Execute_from_steps = Execute_from_pass Execute_from_block

declare Execute_from.simps(2) [simp del]

lemma Execute_from_outcomes:
  "(case fst (Execute_from elapsed i sts ctx w) of
      (StageContinue, None) \<Rightarrow> (\<forall>(s, out) \<in> set (outcomes elapsed i sts ctx w). \<not> blocks (FailClosed s) out) \<and>
        map fst (outcomes elapsed i sts ctx w) = sts
    | (StageTripwire, Some e) \<Rightarrow>
        (\<exists>pre s out. outcomes elapsed i sts ctx w = pre @ [(s, out)] \<and> blocks (FailClosed s) out \<and>
          (\<forall>(s, out) \<in> set pre. \<not> blocks (FailClosed s) out) \<and> prefix (map fst pre @ [s]) sts)
    | _ \<Rightarrow> False)"
proof (induction sts arbitrary: i ctx w)
  case Nil
  then show ?case by simp
next
  case (Cons st sts)
  let ?out = "snd (snd (Execute st ctx w))"
  obtain ctx' w' where p: "pass_stage elapsed i st ctx w = (ctx', w')" by fastforce
  show ?case
  proof (cases "blocks (FailClosed st) ?out")
    case True
    then show ?thesis
      using Execute_from_block[OF True, of elapsed i sts] by (auto simp: Let_def)
  next
    case False
    note IH = Cons.IH[of "Suc i" ctx' w']
    have os: "outcomes elapsed i (st # sts) ctx w = (st, ?out) # outcomes elapsed (Suc i) sts ctx' w'"
      using False p by (simp add: Let_def)
    have ex: "Execute_from elapsed i (st # sts) ctx w = Execute_from elapsed (Suc i) sts ctx' w'"
      using Execute_from_pass[OF False, of elapsed i sts] p by simp
    obtain r e where re: "fst (Execute_from elapsed (Suc i) sts ctx' w') = (r, e)" by fastforce
    from IH re consider "r = StageContinue" "e = None" | m where "r = StageTripwire" "e = Some m"
      by (auto split: StageResult.splits option.splits)
    then show ?thesis
    proof cases
      case 1
      then show ?thesis using IH re False unfolding os ex by simp
    next
      case 2
      with IH re obtain pre s out where h: "outcomes elapsed (Suc i) sts ctx' w' = pre @ [(s, out)]"
          "blocks (FailClosed s) out" "\<forall>(s, out) \<in> set pre. \<not> blocks (FailClosed s) out"
          "prefix (map fst pre @ [s]) sts"
        by auto
      have "outcomes elapsed i (st # sts) ctx w = ((st, ?out) # pre) @ [(s, out)]"
        and "prefix (map fst ((st, ?out) # pre) @ [s]) (st # sts)"
        using h(1,4) os by simp_all
      then show ?thesis
        using 2 re h(2,3) False unfolding ex
        by (auto simp del: outcomes.simps intro!: exI[of _ "(st, ?out) # pre"])
    qed
  qed
qed

section \<open>The contract of an inbound stage\<close>

text \<open>Two contexts of the same request: identity, raw payload and earlier violations are kept.\<close>

definition same_request :: "PipelineContext \<Rightarrow> PipelineContext \<Rightarrow> bool" where
  "same_request a b \<longleftrightarrow> TenantID b = TenantID a \<and> SessionID b = SessionID a \<and>
     RequestID b = RequestID a \<and> RawPayload b = RawPayload a \<and> IsStreaming b = IsStreaming a \<and>
     prefix (Violations a) (Violations b)"

lemma same_request_refl [simp]: "same_request a a"
  by (simp add: same_request_def)

lemma same_request_trans: "same_request a b \<Longrightarrow> same_request b c \<Longrightarrow> same_request a c"
  by (auto simp: same_request_def)

text \<open>
  What the server relies on of a stage: it is fail closed, it does not panic, it answers Continue or
  Tripwire, a Tripwire names its rule, and it keeps the request it works on.
\<close>

locale inbound_stage =
  fixes stage :: "'w Stage"
  assumes closed: "FailClosed stage"
    and answers: "Execute stage ctx w = (ctx', w', out) \<Longrightarrow>
      out = Returned StageContinue \<or> (out = Returned StageTripwire \<and> MatchedRuleID ctx' \<noteq> [])"
    and keeps: "Execute stage ctx w = (ctx', w', out) \<Longrightarrow> same_request ctx ctx'"
begin

lemma passes_same_request:
  "pass_stage elapsed i stage ctx w = (ctx', w') \<Longrightarrow> same_request ctx ctx'"
  using keeps[of ctx w] answers[of ctx w]
  by (cases "Execute stage ctx w") (auto simp: pass_stage_def Let_def same_request_def split: if_splits)

lemma blocked_names_rule:
  assumes "blocks (FailClosed stage) (snd (snd (Execute stage ctx w)))"
  shows "\<exists>ctx' w'. Execute_from elapsed i (stage # sts) ctx w =
      ((StageTripwire, Some (violation_error (Name stage) ctx')), ctx', w') \<and>
    MatchedRuleID ctx' \<noteq> [] \<and> same_request ctx ctx'"
proof -
  obtain ctx1 w1 out where e: "Execute stage ctx w = (ctx1, w1, out)" by (cases "Execute stage ctx w")
  from answers[OF e] assms e have "out = Returned StageTripwire" and "MatchedRuleID ctx1 \<noteq> []" by auto
  moreover have "same_request ctx ctx1" by (rule keeps[OF e])
  ultimately show ?thesis
    using e by (auto simp: Execute_from.simps(2) Let_def same_request_def)
qed

end

text \<open>A pipeline of such stages is such a stage itself, as far as its context goes.\<close>

lemma Execute_from_contract:
  assumes "\<And>s. s \<in> set sts \<Longrightarrow> inbound_stage s"
    and "Execute_from elapsed i sts ctx w = ((r, e), ctx', w')"
  shows "same_request ctx ctx' \<and> (r = StageContinue \<and> e = None \<or>
    r = StageTripwire \<and> MatchedRuleID ctx' \<noteq> [] \<and>
      (\<exists>s \<in> set sts. e = Some (violation_error (Name s) ctx')))"
  using assms
proof (induction sts arbitrary: i ctx w)
  case Nil
  then show ?case by simp
next
  case (Cons st sts)
  have st: "inbound_stage st" by (rule Cons.prems(1)) simp
  show ?case
  proof (cases "blocks (FailClosed st) (snd (snd (Execute st ctx w)))")
    case True
    from inbound_stage.blocked_names_rule[OF st True, of elapsed i sts] Cons.prems(2) show ?thesis by auto
  next
    case False
    obtain ctx1 w1 where p: "pass_stage elapsed i st ctx w = (ctx1, w1)" by fastforce
    have "Execute_from elapsed (Suc i) sts ctx1 w1 = ((r, e), ctx', w')"
      using Cons.prems(2) p by (simp add: Execute_from_pass[OF False])
    from Cons.IH[OF _ this] Cons.prems(1) inbound_stage.passes_same_request[OF st p] show ?thesis
      by (auto intro: same_request_trans)
  qed
qed

section \<open>Properties\<close>

text \<open>C6: the runner fails closed, on every list of stages, panicking ones included: a run either ends
  with Continue and no error, and then it executed every stage and none of the outcomes had to stop
  the request; or it ends with Tripwire and an error, and then the last stage it executed is the
  first one whose outcome had to stop the request, and no later stage ran.\<close>

theorem runner_fails_closed:
  "let os = outcomes elapsed 0 (stages pr) ctx w; res = fst (Runner_Execute elapsed pr ctx w)
   in (res = (StageContinue, None) \<and> map fst os = stages pr \<and>
         list_all (\<lambda>(s, out). \<not> blocks (FailClosed s) out) os)
    \<or> (fst res = StageTripwire \<and> snd res \<noteq> None \<and>
         (\<exists>pre s out. os = pre @ [(s, out)] \<and> prefix (map fst os) (stages pr) \<and> blocks (FailClosed s) out \<and>
            list_all (\<lambda>(s, out). \<not> blocks (FailClosed s) out) pre))"
  using Execute_from_outcomes[of elapsed 0 "stages pr" ctx w]
  by (cases "fst (Runner_Execute elapsed pr ctx w)")
     (auto simp: Runner_Execute_def Let_def list_all_iff split: StageResult.splits option.splits)

text \<open>a context from the pool carries nothing of the request that used it before, except
  \<open>RequestID\<close>, which the handler overwrites: what \<open>AcquireContext\<close> returns after any
  \<open>ReleaseContext\<close> is what it returns on a fresh object with that request id.\<close>

theorem acquired_context_is_clean:
  "AcquireContext c tenant session now (ReleaseContext pc) =
   AcquireContext c tenant session now (new_context\<lparr>RequestID := RequestID pc\<rparr>)"
  by (simp add: AcquireContext_def ReleaseContext_def new_context_def)

end
