(* ===== verification/Json_Decode.thy ===== *)
theory Json_Decode
  imports Json
begin

text \<open>
  \<open>json.Unmarshal\<close> into the structs, pointers, slices and \<open>any\<close> that the proxy declares: matching a member's key to a field
  (exactly, or up to case folding), and storing a value of the field's type. A value of the wrong type
  is an error that is remembered while the decoding goes on and leaves the field as it was; \<open>null\<close>
  leaves a field as it was without an error.
\<close>

definition upper_byte :: "char \<Rightarrow> char" where
  "upper_byte c = (if is_lower c then char_of (byte c - 32) else c)"

text \<open>\<open>foldName\<close>: letters in upper case; the two non-ASCII code points that fold to ASCII letters are
  the long s (C5 BF) and the Kelvin sign (E2 84 AA).\<close>

function fold_name :: "bytes \<Rightarrow> bytes" where
  "fold_name [] = []"
| "fold_name (c # cs) =
     (if has_prefix (c # cs) (byte_string [0xC5, 0xBF]) then CHR ''S'' # fold_name (drop 1 cs)
      else if has_prefix (c # cs) (byte_string [0xE2, 0x84, 0xAA]) then CHR ''K'' # fold_name (drop 2 cs)
      else upper_byte c # fold_name cs)"
  by pat_completeness auto
termination by (relation "measure length") auto

definition key_matches :: "bytes \<Rightarrow> bytes \<Rightarrow> bool" where
  "key_matches field key \<longleftrightarrow> key = field \<or> fold_name key = fold_name field"

text \<open>The values of a field, in the order in which the decoder stores them.\<close>

definition field_values :: "(bytes \<times> json) list \<Rightarrow> bytes \<Rightarrow> json list" where
  "field_values kvs field = map snd (filter (\<lambda>(k, v). key_matches field k) kvs)"

text \<open>\<open>strconv.ParseInt(s, 10, bits)\<close> on a number literal.\<close>

definition parse_int :: "int \<Rightarrow> int \<Rightarrow> bytes \<Rightarrow> int option" where
  "parse_int lo hi s =
     (let (neg, ds) = (case s of c # cs \<Rightarrow> if c = CHR ''-'' then (True, cs) else (False, s) | [] \<Rightarrow> (False, []))
      in if ds = [] \<or> \<not> list_all is_digit ds then None
         else let n = (if neg then - int (dec_value ds) else int (dec_value ds)) in
              if lo \<le> n \<and> n \<le> hi then Some n else None)"

definition parse_int64 :: "bytes \<Rightarrow> int option" where
  "parse_int64 = parse_int (- (2 ^ 63)) (2 ^ 63 - 1)"

text \<open>Storing one value in a field of a given type: the new content and whether an error was saved.\<close>

definition store_int :: "json \<Rightarrow> int \<Rightarrow> int \<times> bool" where
  "store_int v old =
     (case v of
        JNull \<Rightarrow> (old, False)
      | JNum n \<Rightarrow> (case parse_int64 n of Some i \<Rightarrow> (i, False) | None \<Rightarrow> (old, True))
      | _ \<Rightarrow> (old, True))"

definition store_string :: "json \<Rightarrow> bytes \<Rightarrow> bytes \<times> bool" where
  "store_string v old =
     (case v of JNull \<Rightarrow> (old, False) | JStr s \<Rightarrow> (s, False) | _ \<Rightarrow> (old, True))"

text \<open>Storing the values of a field one after the other; the error is saved if any of them failed.\<close>

fun store_all :: "('v \<Rightarrow> 'a \<Rightarrow> 'a \<times> bool) \<Rightarrow> 'v list \<Rightarrow> 'a \<Rightarrow> 'a \<times> bool" where
  "store_all st [] x = (x, False)"
| "store_all st (v # vs) x =
     (case st v x of (y, e) \<Rightarrow> case store_all st vs y of (z, e') \<Rightarrow> (z, e \<or> e'))"

definition int_field :: "(bytes \<times> json) list \<Rightarrow> bytes \<Rightarrow> int \<times> bool" where
  "int_field kvs f = store_all store_int (field_values kvs f) 0"

definition string_field :: "(bytes \<times> json) list \<Rightarrow> bytes \<Rightarrow> bytes \<times> bool" where
  "string_field kvs f = store_all store_string (field_values kvs f) []"

section \<open>Decoding into structs, pointers, slices and \<open>any\<close>\<close>

text \<open>A member of an object goes to the field that its key names; the others are skipped.\<close>

fun store_members :: "(bytes \<times> (json \<Rightarrow> 'a \<Rightarrow> 'a \<times> bool)) list \<Rightarrow> (bytes \<times> json) list \<Rightarrow> 'a \<Rightarrow> 'a \<times> bool" where
  "store_members fields [] x = (x, False)"
| "store_members fields ((k, v) # kvs) x =
     (case find (\<lambda>(f, _). key_matches f k) fields of
        None \<Rightarrow> store_members fields kvs x
      | Some (_, st) \<Rightarrow>
          (case st v x of (y, e) \<Rightarrow> case store_members fields kvs y of (z, e') \<Rightarrow> (z, e \<or> e')))"

definition store_struct :: "(bytes \<times> (json \<Rightarrow> 'a \<Rightarrow> 'a \<times> bool)) list \<Rightarrow> json \<Rightarrow> 'a \<Rightarrow> 'a \<times> bool" where
  "store_struct fields v x =
     (case v of JNull \<Rightarrow> (x, False) | JObj kvs \<Rightarrow> store_members fields kvs x | _ \<Rightarrow> (x, True))"

definition store_ptr :: "'a \<Rightarrow> (json \<Rightarrow> 'a \<Rightarrow> 'a \<times> bool) \<Rightarrow> json \<Rightarrow> 'a option \<Rightarrow> 'a option \<times> bool" where
  "store_ptr zero st v x =
     (case v of
        JNull \<Rightarrow> (None, False)
      | _ \<Rightarrow> (case st v (case x of None \<Rightarrow> zero | Some y \<Rightarrow> y) of (y, e) \<Rightarrow> (Some y, e)))"

text \<open>A slice: its backing array (as far as it was ever written) and its length; \<open>None\<close> for nil. The
  element at an index is decoded on top of what the backing array holds there.\<close>

type_synonym 'a slice = "('a list \<times> nat) option"

definition elements :: "'a slice \<Rightarrow> 'a list" where
  "elements s = (case s of None \<Rightarrow> [] | Some (xs, n) \<Rightarrow> take n xs)"

fun store_elements :: "'a \<Rightarrow> (json \<Rightarrow> 'a \<Rightarrow> 'a \<times> bool) \<Rightarrow> json list \<Rightarrow> 'a list \<Rightarrow> 'a list \<times> bool" where
  "store_elements zero st [] xs = (xs, False)"
| "store_elements zero st (v # vs) xs =
     (case st v (case xs of [] \<Rightarrow> zero | x # _ \<Rightarrow> x) of (y, e) \<Rightarrow>
        case store_elements zero st vs (tl xs) of (ys, e') \<Rightarrow> (y # ys, e \<or> e'))"

definition store_slice :: "'a \<Rightarrow> (json \<Rightarrow> 'a \<Rightarrow> 'a \<times> bool) \<Rightarrow> json \<Rightarrow> 'a slice \<Rightarrow> 'a slice \<times> bool" where
  "store_slice zero st v x =
     (case v of
        JNull \<Rightarrow> (None, False)
      | JArr [] \<Rightarrow> (Some ([], 0), False)
      | JArr vs \<Rightarrow>
          (case store_elements zero st vs (case x of None \<Rightarrow> [] | Some (xs, _) \<Rightarrow> xs) of
             (ys, e) \<Rightarrow> (Some (ys, length vs), e))
      | _ \<Rightarrow> (x, True))"

text \<open>A number that goes into an \<open>any\<close> becomes a \<open>float64\<close>; it is refused when it rounds to infinity,
  that is from \<open>2 ^ 1024 - 2 ^ 970\<close> on.\<close>

definition after :: "bytes \<Rightarrow> bytes" where "after s = (case s of [] \<Rightarrow> [] | _ # t \<Rightarrow> t)"

definition exp_value :: "bytes \<Rightarrow> int" where
  "exp_value s =
     (if has_prefix s ''-'' then - int (dec_value (after s))
      else if has_prefix s ''+'' then int (dec_value (after s)) else int (dec_value s))"

definition float64_ok :: "bytes \<Rightarrow> bool" where
  "float64_ok n =
     (let m = (if has_prefix n ''-'' then after n else n);
          is_e = (\<lambda>c. c = CHR ''e'' \<or> c = CHR ''E'');
          man = takeWhile (\<lambda>c. \<not> is_e c) m;
          ip = takeWhile (\<lambda>c. c \<noteq> CHR ''.'') man;
          fp = after (dropWhile (\<lambda>c. c \<noteq> CHR ''.'') man);
          d = dec_value (ip @ fp);
          x = exp_value (after (dropWhile (\<lambda>c. \<not> is_e c) m)) - int (length fp);
          bound = 2 ^ 1024 - 2 ^ 970
      in d = 0 \<or> (if x \<ge> 0 then d * 10 ^ nat x < bound else d < bound * 10 ^ nat (- x)))"

fun any_ok :: "json \<Rightarrow> bool" where
  "any_ok (JNum n) \<longleftrightarrow> float64_ok n"
| "any_ok (JArr vs) \<longleftrightarrow> list_all any_ok vs"
| "any_ok (JObj kvs) \<longleftrightarrow> list_all (\<lambda>(k, v). any_ok v) kvs"
| "any_ok v \<longleftrightarrow> True"

definition store_any :: "json \<Rightarrow> json \<Rightarrow> json \<times> bool" where
  "store_any v x = (v, \<not> any_ok v)"

text \<open>Storing in one field of a record.\<close>

definition at_field :: "('r \<Rightarrow> 'a) \<Rightarrow> ('a \<Rightarrow> 'r \<Rightarrow> 'r) \<Rightarrow> (json \<Rightarrow> 'a \<Rightarrow> 'a \<times> bool) \<Rightarrow> json \<Rightarrow> 'r \<Rightarrow> 'r \<times> bool" where
  "at_field get put st v r = (case st v (get r) of (y, e) \<Rightarrow> (put y r, e))"

end
