(* ===== verification/Rate_Limiter.thy ===== *)
theory Rate_Limiter
  imports Pipeline Json_Decode
begin

text \<open>
  \<open>internal/inbound/limiter.go\<close>: sliding-window request and token quotas per tenant. The clock reading
  of \<open>nowFunc\<close> is an argument; the bucket's mutex makes every \<open>Execute\<close> on a tenant atomic, so the
  calls for one tenant are a sequence. Token counts are 64-bit \<open>int\<close>s, with their wrap-around.
\<close>

section \<open>State\<close>

record tokenRecord =
  timestamp :: time
  rec_tokens :: int

record tenantBucket =
  rpm :: int
  tpm :: int
  requestTimes :: "time list"
  tokenRecords :: "tokenRecord list"

record RateLimiter =
  defaultRPM :: int
  defaultTPM :: int
  tenants :: "string \<rightharpoonup> tenantBucket"

definition NewRateLimiter :: "int \<Rightarrow> int \<Rightarrow> RateLimiter" where
  "NewRateLimiter drpm dtpm = \<lparr>defaultRPM = drpm, defaultTPM = dtpm, tenants = Map.empty\<rparr>"

definition new_bucket :: "int \<Rightarrow> int \<Rightarrow> tenantBucket" where
  "new_bucket r t = \<lparr>rpm = r, tpm = t, requestTimes = [], tokenRecords = []\<rparr>"

definition SetTenantLimit :: "string \<Rightarrow> int \<Rightarrow> int \<Rightarrow> RateLimiter \<Rightarrow> RateLimiter" where
  "SetTenantLimit tenantID r t rl =
     (case tenants rl tenantID of
        None \<Rightarrow> rl\<lparr>tenants := (tenants rl)(tenantID \<mapsto> new_bucket r t)\<rparr>
      | Some b \<Rightarrow> rl\<lparr>tenants := (tenants rl)(tenantID \<mapsto> b\<lparr>rpm := r, tpm := t\<rparr>)\<rparr>)"

definition GetTenantLimit :: "string \<Rightarrow> RateLimiter \<Rightarrow> int \<times> int" where
  "GetTenantLimit tenantID rl =
     (case tenants rl tenantID of
        None \<Rightarrow> (defaultRPM rl, defaultTPM rl)
      | Some b \<Rightarrow> (rpm b, tpm b))"

definition getOrCreateBucket :: "string \<Rightarrow> RateLimiter \<Rightarrow> tenantBucket \<times> RateLimiter" where
  "getOrCreateBucket tenantID rl =
     (case tenants rl tenantID of
        Some b \<Rightarrow> (b, rl)
      | None \<Rightarrow> let b = new_bucket (defaultRPM rl) (defaultTPM rl)
                in (b, rl\<lparr>tenants := (tenants rl)(tenantID \<mapsto> b)\<rparr>))"

section \<open>Token estimate\<close>

text \<open>\<open>int(float64(len(payload)) / 4.0 * 1.33)\<close>. The double nearest to 1.33 lies above it by less than
  \<open>10 ^ -16\<close>, so for every length below \<open>2 ^ 40\<close> the truncated product is the floor of the exact one.\<close>

definition base_tokens :: "nat \<Rightarrow> int" where
  "base_tokens n = int (n * 133 div 400)"

text \<open>\<open>MaxTokens\<close> after the \<open>Unmarshal\<close> whose error is ignored.\<close>

definition max_tokens_of :: "bytes \<Rightarrow> int" where
  "max_tokens_of payload =
     (case json_parse payload of
        Some (JObj kvs) \<Rightarrow> fst (int_field kvs ''max_tokens'')
      | _ \<Rightarrow> 0)"

definition EstimateTokens :: "bytes \<Rightarrow> int" where
  "EstimateTokens payload =
     (if payload = [] then 1
      else let b = base_tokens (length payload); b1 = (if b < 1 then 1 else b)
           in wrap64 (b1 + max_tokens_of payload))"

section \<open>The stage\<close>

text \<open>Pruning both logs and adding up the tokens still in the window.\<close>

definition prune :: "time \<Rightarrow> tenantBucket \<Rightarrow> tenantBucket" where
  "prune cutoff b = b\<lparr>requestTimes := filter (\<lambda>t. \<not> t < cutoff) (requestTimes b),
                      tokenRecords := filter (\<lambda>r. \<not> timestamp r < cutoff) (tokenRecords b)\<rparr>"

definition current_tokens :: "tenantBucket \<Rightarrow> int" where
  "current_tokens b = foldl (\<lambda>a r. wrap64 (a + rec_tokens r)) 0 (tokenRecords b)"

text \<open>Steps 1 to 5 under the bucket's lock: whether the request is admitted, and the bucket after it.\<close>

definition bucket_admit :: "time \<Rightarrow> int \<Rightarrow> tenantBucket \<Rightarrow> bool \<times> tenantBucket" where
  "bucket_admit now est b0 =
     (let b = prune (now - Minute) b0; cur = current_tokens b in
      if rpm b > 0 \<and> int (length (requestTimes b)) \<ge> rpm b then (False, b)
      else if tpm b > 0 \<and> wrap64 (cur + est) > tpm b then (False, b)
      else (True, b\<lparr>requestTimes := requestTimes b @ [now],
                    tokenRecords := tokenRecords b @ [\<lparr>timestamp = now, rec_tokens = est\<rparr>]\<rparr>))"

definition RateLimiter_Execute ::
  "time \<Rightarrow> PipelineContext \<Rightarrow> RateLimiter \<Rightarrow> PipelineContext \<times> RateLimiter \<times> outcome" where
  "RateLimiter_Execute now ctx rl0 =
     (case getOrCreateBucket (TenantID ctx) rl0 of (b, rl) \<Rightarrow>
        if rpm b \<le> 0 \<and> tpm b \<le> 0 then (ctx, rl, Returned StageContinue)
        else case bucket_admit now (EstimateTokens (CleanPayload ctx)) b of (ok, b') \<Rightarrow>
          let rl' = rl\<lparr>tenants := (tenants rl)(TenantID ctx \<mapsto> b')\<rparr> in
          if ok then (ctx, rl', Returned StageContinue)
          else (ctx\<lparr>MatchedRuleID := ''RATE_LIMIT_EXCEEDED'', ViolationType := ''RATE_LIMIT''\<rparr>,
                rl', Returned StageTripwire))"

definition rate_limiter_stage :: "time \<Rightarrow> RateLimiter Stage" where
  "rate_limiter_stage now =
     \<lparr>Name = ''rate_limiter'', FailClosed = True, Execute = RateLimiter_Execute now\<rparr>"

declare rate_limiter_stage_def [stage_defs]

interpretation rate_limiter: inbound_stage "rate_limiter_stage now" for now
  by unfold_locales
     (auto simp: stage_defs RateLimiter_Execute_def Let_def same_request_def
        split: prod.splits if_splits)

section \<open>The bucket against its full history\<close>

text \<open>The reference: all admissions so far, never pruned, each with its time and its estimate.\<close>

type_synonym admissions = "(time \<times> int) list"

definition in_window :: "time \<Rightarrow> admissions \<Rightarrow> admissions" where
  "in_window now h = filter (\<lambda>(t, e). now - Minute \<le> t) h"

definition spec_admit :: "int \<Rightarrow> int \<Rightarrow> time \<Rightarrow> int \<Rightarrow> admissions \<Rightarrow> bool" where
  "spec_admit r t now est h \<longleftrightarrow>
     \<not> (r > 0 \<and> int (length (in_window now h)) \<ge> r) \<and>
     \<not> (t > 0 \<and> wrap64 (sum_list (map snd (in_window now h)) + est) > t)"

fun spec_log :: "int \<Rightarrow> int \<Rightarrow> (time \<times> int) list \<Rightarrow> admissions \<Rightarrow> admissions" where
  "spec_log r t [] h = h"
| "spec_log r t ((now, est) # es) h =
     spec_log r t es (if spec_admit r t now est h then h @ [(now, est)] else h)"

text \<open>The admissions of a bucket over a sequence of calls.\<close>

fun bucket_log :: "(time \<times> int) list \<Rightarrow> tenantBucket \<Rightarrow> admissions" where
  "bucket_log [] b = []"
| "bucket_log ((now, est) # es) b =
     (case bucket_admit now est b of (ok, b') \<Rightarrow> (if ok then [(now, est)] else []) @ bucket_log es b')"

definition bucket_of :: "int \<Rightarrow> int \<Rightarrow> admissions \<Rightarrow> tenantBucket" where
  "bucket_of r t h = \<lparr>rpm = r, tpm = t, requestTimes = map fst h,
     tokenRecords = map (\<lambda>(t, e). \<lparr>timestamp = t, rec_tokens = e\<rparr>) h\<rparr>"

lemma foldl_wrap64:
  "foldl (\<lambda>a x. wrap64 (a + f x)) a xs = (if xs = [] then a else wrap64 (a + sum_list (map f xs)))"
  by (induction xs arbitrary: a) (auto simp: add.assoc)

lemma current_tokens_bucket_of: "current_tokens (bucket_of r t h) = wrap64 (sum_list (map snd h))"
proof -
  have "map (\<lambda>x. rec_tokens (case x of (t, e) \<Rightarrow> \<lparr>timestamp = t, rec_tokens = e\<rparr>)) h = map snd h"
    by (rule map_cong) auto
  then have "current_tokens (bucket_of r t h) =
      (if h = [] then 0 else wrap64 (0 + sum_list (map snd h)))"
    unfolding current_tokens_def bucket_of_def foldl_wrap64 by (simp add: comp_def del: map_eq_conv)
  then show ?thesis by (simp add: in_int64_def)
qed

lemma prune_bucket_of: "prune (now - Minute) (bucket_of r t h) = bucket_of r t (in_window now h)"
  by (induction h) (auto simp: prune_def bucket_of_def in_window_def)

lemma bucket_admit_bucket_of:
  "bucket_admit now est (bucket_of r t h) =
     (if spec_admit r t now est h then (True, bucket_of r t (in_window now h @ [(now, est)]))
      else (False, bucket_of r t (in_window now h)))"
proof -
  have c: "current_tokens (bucket_of r t h') = wrap64 (sum_list (map snd h'))" for h'
    by (rule current_tokens_bucket_of)
  have f: "rpm (bucket_of r t h') = r" "tpm (bucket_of r t h') = t"
    "length (requestTimes (bucket_of r t h')) = length h'" for h'
    by (simp_all add: bucket_of_def)
  have u: "bucket_of r t h'\<lparr>requestTimes := requestTimes (bucket_of r t h') @ [now],
      tokenRecords := tokenRecords (bucket_of r t h') @ [\<lparr>timestamp = now, rec_tokens = est\<rparr>]\<rparr> =
      bucket_of r t (h' @ [(now, est)])" for h'
    by (simp add: bucket_of_def)
  show ?thesis
    by (simp add: bucket_admit_def Let_def prune_bucket_of c f u spec_admit_def)
qed

lemma in_window_mono: "now \<le> now' \<Longrightarrow> in_window now' (in_window now h) = in_window now' h"
  by (auto simp: in_window_def intro!: filter_cong)

lemma in_window_append: "in_window now (h @ h') = in_window now h @ in_window now h'"
  by (simp add: in_window_def)

lemma spec_admit_window: "now \<le> now' \<Longrightarrow> spec_admit r t now' est (in_window now h) = spec_admit r t now' est h"
  by (simp add: spec_admit_def in_window_mono)

text \<open>Pruning loses nothing while the clock does not run backwards.\<close>

lemma bucket_log_spec:
  "sorted (now # map fst es) \<Longrightarrow> h @ bucket_log es (bucket_of r t (in_window now h)) = spec_log r t es h"
proof (induction es arbitrary: now h)
  case Nil
  then show ?case by simp
next
  case (Cons e es)
  obtain now' est where e: "e = (now', est)" by (cases e)
  have "in_window now' (in_window now h @ [(now', est)]) = in_window now' (h @ [(now', est)])"
    and "in_window now' (in_window now h) = in_window now' h"
    using Cons.prems e by (simp_all add: in_window_append in_window_mono)
  moreover have "in_window now' [(now', est)] = [(now', est)]" by (simp add: in_window_def Minute_def)
  ultimately show ?case
    using Cons.prems e Cons.IH[of now' "h @ [(now', est)]"] Cons.IH[of now' h]
    by (simp add: bucket_admit_bucket_of spec_admit_window in_window_append)
qed

lemma bucket_of_new: "new_bucket r t = bucket_of r t []"
  by (simp add: new_bucket_def bucket_of_def)

lemma bucket_log_new:
  assumes "sorted (map fst es)"
  shows "bucket_log es (new_bucket r t) = spec_log r t es []"
proof (cases es)
  case (Cons e es')
  have "sorted (fst e # map fst es)" using assms Cons by simp
  from bucket_log_spec[OF this, of "[]" r t] show ?thesis by (simp add: bucket_of_new in_window_def)
qed simp

section \<open>Quota of every window\<close>

definition window_of :: "time \<Rightarrow> admissions \<Rightarrow> admissions" where
  "window_of T h = filter (\<lambda>(t, e). T - Minute \<le> t \<and> t \<le> T) h"

lemma window_of_snoc:
  "window_of T (h @ [(now, est)]) = window_of T h @ (if T - Minute \<le> now \<and> now \<le> T then [(now, est)] else [])"
  by (simp add: window_of_def)

lemma window_in_window:
  assumes "now \<le> T" and "T - Minute \<le> now" and "\<forall>(t, e) \<in> set h. t \<le> now"
  shows "window_of T h = filter (\<lambda>(t, e). T - Minute \<le> t) (in_window now h)"
  using assms by (auto simp: window_of_def in_window_def intro!: filter_cong)

definition rpm_ok :: "int \<Rightarrow> admissions \<Rightarrow> bool" where
  "rpm_ok r h \<longleftrightarrow> (\<forall>T. int (length (window_of T h)) \<le> r)"

definition tpm_ok :: "int \<Rightarrow> admissions \<Rightarrow> bool" where
  "tpm_ok t h \<longleftrightarrow> (\<forall>(_, e) \<in> set h. 0 \<le> e) \<and> (\<forall>T. sum_list (map snd (window_of T h)) \<le> t)"

lemma rpm_ok_snoc:
  assumes "rpm_ok r h" and "\<forall>(t, e) \<in> set h. t \<le> now" and "0 < r" and "spec_admit r t now est h"
  shows "rpm_ok r (h @ [(now, est)])"
  unfolding rpm_ok_def
proof
  fix T
  show "int (length (window_of T (h @ [(now, est)]))) \<le> r"
  proof (cases "T - Minute \<le> now \<and> now \<le> T")
    case True
    then have "length (window_of T h) \<le> length (in_window now h)"
      using window_in_window[of now T h] assms(2) by simp
    with assms(3,4) True show ?thesis by (simp add: window_of_snoc spec_admit_def)
  next
    case False
    with assms(1) show ?thesis by (auto simp: window_of_snoc rpm_ok_def)
  qed
qed

lemma sum_filter_le:
  "\<forall>x \<in> set xs. 0 \<le> f x \<Longrightarrow> sum_list (map f (filter P xs)) \<le> (sum_list (map f xs) :: int)"
  by (induction xs) auto

lemma tpm_ok_snoc:
  assumes "tpm_ok t h" and "\<forall>(u, e) \<in> set h. u \<le> now" and "0 < t" and "spec_admit r t now est h"
    and "0 \<le> est" and "est + t < 2 ^ 63"
  shows "tpm_ok t (h @ [(now, est)])"
proof -
  have w: "in_window now h = window_of now h"
    using assms(2) by (auto simp: window_of_def in_window_def intro!: filter_cong)
  have nonneg: "\<forall>x \<in> set (window_of now h). 0 \<le> snd x"
    using assms(1) by (auto simp: tpm_ok_def window_of_def)
  then have "0 \<le> sum_list (map snd (window_of now h))" by (auto intro!: sum_list_nonneg)
  moreover have "sum_list (map snd (window_of now h)) \<le> t" using assms(1) by (auto simp: tpm_ok_def)
  ultimately have "in_int64 (sum_list (map snd (window_of now h)) + est)"
    using assms(5,6) by (simp add: in_int64_def)
  then have s: "sum_list (map snd (in_window now h)) + est \<le> t"
    using assms(3,4) w by (simp add: spec_admit_def)
  have "sum_list (map snd (window_of T (h @ [(now, est)]))) \<le> t" for T
  proof (cases "T - Minute \<le> now \<and> now \<le> T")
    case True
    then have "sum_list (map snd (window_of T h)) \<le> sum_list (map snd (in_window now h))"
      using window_in_window[of now T h] assms(2) nonneg w by (simp add: sum_filter_le)
    with s True show ?thesis by (simp add: window_of_snoc)
  next
    case False
    with assms(1) show ?thesis by (auto simp: window_of_snoc tpm_ok_def)
  qed
  then show ?thesis using assms(1,5) by (auto simp: tpm_ok_def)
qed

lemma spec_log_rpm:
  assumes "sorted (map fst es)" and "\<forall>(u, e) \<in> set h. \<forall>(u', e') \<in> set es. u \<le> u'"
    and "0 < r" and "rpm_ok r h"
  shows "rpm_ok r (spec_log r t es h)"
  using assms
proof (induction es arbitrary: h)
  case (Cons e es)
  obtain now est where e: "e = (now, est)" by (cases e)
  let ?h = "if spec_admit r t now est h then h @ [(now, est)] else h"
  have "\<forall>(u, e) \<in> set h. u \<le> now" using Cons.prems e by auto
  then have "rpm_ok r ?h" using rpm_ok_snoc[of r h now t est] Cons.prems by auto
  moreover have "\<forall>(u, e) \<in> set ?h. \<forall>(u', e') \<in> set es. u \<le> u'" using Cons.prems e by auto
  ultimately show ?case using Cons.IH[of ?h] Cons.prems e by simp
qed simp

lemma spec_log_tpm:
  assumes "sorted (map fst es)" and "\<forall>(u, e) \<in> set h. \<forall>(u', e') \<in> set es. u \<le> u'"
    and "0 < t" and "tpm_ok t h" and "\<forall>(_, e) \<in> set es. 0 \<le> e \<and> e + t < 2 ^ 63"
  shows "tpm_ok t (spec_log r t es h)"
  using assms
proof (induction es arbitrary: h)
  case (Cons e es)
  obtain now est where e: "e = (now, est)" by (cases e)
  let ?h = "if spec_admit r t now est h then h @ [(now, est)] else h"
  have "\<forall>(u, e) \<in> set h. u \<le> now" using Cons.prems e by auto
  then have "tpm_ok t ?h" using tpm_ok_snoc[of t h now r est] Cons.prems e by auto
  moreover have "\<forall>(u, e) \<in> set ?h. \<forall>(u', e') \<in> set es. u \<le> u'" using Cons.prems e by auto
  ultimately show ?case using Cons.IH[of ?h] Cons.prems e by simp
qed simp

section \<open>Calls of many tenants\<close>

text \<open>The admissions of one tenant over a sequence of calls of \<open>Execute\<close>.\<close>

fun limiter_log :: "string \<Rightarrow> (time \<times> PipelineContext) list \<Rightarrow> RateLimiter \<Rightarrow> admissions" where
  "limiter_log tid [] rl = []"
| "limiter_log tid ((now, ctx) # cs) rl =
     (case RateLimiter_Execute now ctx rl of (ctx', rl', out) \<Rightarrow>
        (if TenantID ctx = tid \<and> out = Returned StageContinue
         then [(now, EstimateTokens (CleanPayload ctx))] else []) @ limiter_log tid cs rl')"

definition calls_of :: "string \<Rightarrow> (time \<times> PipelineContext) list \<Rightarrow> (time \<times> int) list" where
  "calls_of tid cs = map (\<lambda>(now, ctx). (now, EstimateTokens (CleanPayload ctx)))
                         (filter (\<lambda>(now, ctx). TenantID ctx = tid) cs)"

definition bucket_for :: "string \<Rightarrow> RateLimiter \<Rightarrow> tenantBucket" where
  "bucket_for tid rl = fst (getOrCreateBucket tid rl)"

lemma bucket_admit_limits [simp]:
  "rpm (snd (bucket_admit now est b)) = rpm b" "tpm (snd (bucket_admit now est b)) = tpm b"
  by (simp_all add: bucket_admit_def Let_def prune_def)

lemma Execute_other_tenant:
  "RateLimiter_Execute now ctx rl = (ctx', rl', out) \<Longrightarrow> TenantID ctx \<noteq> tid \<Longrightarrow>
     bucket_for tid rl' = bucket_for tid rl"
  by (auto simp: RateLimiter_Execute_def bucket_for_def getOrCreateBucket_def Let_def
      split: prod.splits option.splits if_splits)

lemma Execute_own_tenant:
  assumes "RateLimiter_Execute now ctx rl = (ctx', rl', out)" and "TenantID ctx = tid"
    and "0 < rpm (bucket_for tid rl) \<or> 0 < tpm (bucket_for tid rl)"
  shows "bucket_admit now (EstimateTokens (CleanPayload ctx)) (bucket_for tid rl) =
    (out = Returned StageContinue, bucket_for tid rl')"
  using assms
  by (auto simp: RateLimiter_Execute_def bucket_for_def getOrCreateBucket_def Let_def
      split: prod.splits option.splits if_splits)

lemma limiter_log_bucket:
  "0 < rpm (bucket_for tid rl) \<or> 0 < tpm (bucket_for tid rl) \<Longrightarrow>
     limiter_log tid cs rl = bucket_log (calls_of tid cs) (bucket_for tid rl)"
proof (induction cs arbitrary: rl)
  case Nil
  then show ?case by (simp add: calls_of_def)
next
  case (Cons c cs)
  obtain now ctx where c: "c = (now, ctx)" by (cases c)
  obtain ctx' rl' out where e: "RateLimiter_Execute now ctx rl = (ctx', rl', out)"
    by (cases "RateLimiter_Execute now ctx rl")
  show ?case
  proof (cases "TenantID ctx = tid")
    case True
    note own = Execute_own_tenant[OF e True Cons.prems]
    have "rpm (bucket_for tid rl') = rpm (bucket_for tid rl)"
      and "tpm (bucket_for tid rl') = tpm (bucket_for tid rl)"
      using own bucket_admit_limits[of now "EstimateTokens (CleanPayload ctx)" "bucket_for tid rl"]
      by simp_all
    with Cons.IH[of rl'] Cons.prems own e True c show ?thesis by (simp add: calls_of_def)
  next
    case False
    with Cons.IH[of rl'] Cons.prems Execute_other_tenant[OF e False] e c
    show ?thesis by (simp add: calls_of_def)
  qed
qed

lemma bucket_for_SetTenantLimit:
  "bucket_for tid (SetTenantLimit tid r t (NewRateLimiter dr dt)) = new_bucket r t"
  by (simp add: bucket_for_def SetTenantLimit_def NewRateLimiter_def getOrCreateBucket_def)

lemma calls_of_sorted: "sorted (map fst cs) \<Longrightarrow> sorted (map fst (calls_of tid cs))"
  by (induction cs) (auto simp: calls_of_def)

lemma limiter_log_spec_log:
  assumes "sorted (map fst cs)" and "0 < r \<or> 0 < t"
  shows "limiter_log tid cs (SetTenantLimit tid r t (NewRateLimiter dr dt)) =
    spec_log r t (calls_of tid cs) []"
proof -
  let ?rl = "SetTenantLimit tid r t (NewRateLimiter dr dt)"
  have "0 < rpm (bucket_for tid ?rl) \<or> 0 < tpm (bucket_for tid ?rl)"
    using assms(2) by (simp add: bucket_for_SetTenantLimit new_bucket_def)
  then show ?thesis
    using assms(1)
    by (simp add: limiter_log_bucket bucket_for_SetTenantLimit bucket_log_new calls_of_sorted)
qed

lemma quotas_Nil [simp]: "0 \<le> r \<Longrightarrow> rpm_ok r []" "0 \<le> t \<Longrightarrow> tpm_ok t []"
  by (simp_all add: rpm_ok_def tpm_ok_def window_of_def)

section \<open>Properties\<close>

text \<open>
  C15: while the clock does not run backwards, the limiter that prunes its logs at every call admits, of
  any interleaving of calls of all tenants, exactly the calls of a tenant that a limiter with the full
  history of that tenant and nothing of the others admits.
\<close>

theorem limiter_refines_history:
  assumes "sorted (map fst cs)" and "0 < r \<or> 0 < t"
  shows "limiter_log tid cs (SetTenantLimit tid r t (NewRateLimiter dr dt)) =
    spec_log r t (calls_of tid cs) []"
  using assms by (rule limiter_log_spec_log)

theorem limiter_refines_history_witness:
  "limiter_log ''a'' [(0, new_context\<lparr>TenantID := ''a''\<rparr>), (1, new_context\<lparr>TenantID := ''b''\<rparr>),
      (2, new_context\<lparr>TenantID := ''a''\<rparr>)] (SetTenantLimit ''a'' 1 0 (NewRateLimiter 0 0)) =
    spec_log 1 0 (calls_of ''a'' [(0, new_context\<lparr>TenantID := ''a''\<rparr>),
      (1, new_context\<lparr>TenantID := ''b''\<rparr>), (2, new_context\<lparr>TenantID := ''a''\<rparr>)]) []"
  by (rule limiter_refines_history) simp_all

text \<open>
  C14: no window of 60 seconds, wherever it starts, holds more admitted requests of a tenant than its
  RPM quota.
\<close>

theorem rpm_quota_every_window:
  assumes "sorted (map fst cs)" and "0 < r"
  shows "int (length (window_of T (limiter_log tid cs (SetTenantLimit tid r t (NewRateLimiter dr dt))))) \<le> r"
  using spec_log_rpm[of "calls_of tid cs" "[]" r t] assms
  by (simp add: limiter_log_spec_log calls_of_sorted rpm_ok_def[of r "spec_log _ _ _ _"])

theorem rpm_quota_every_window_witness:
  "int (length (window_of 7 (limiter_log ''a'' [(5, new_context\<lparr>TenantID := ''a''\<rparr>),
     (6, new_context\<lparr>TenantID := ''a''\<rparr>)] (SetTenantLimit ''a'' 1 9 (NewRateLimiter 0 0))))) \<le> 1"
  by (rule rpm_quota_every_window) simp_all

text \<open>
  C27: if no estimate of a tenant's calls is negative or overflows with its TPM quota, then in every
  window of 60 seconds the estimates of its admitted requests add up to at most that quota.
\<close>

theorem tpm_quota_every_window:
  assumes "sorted (map fst cs)" and "0 < t"
    and "\<forall>(_, e) \<in> set (calls_of tid cs). 0 \<le> e \<and> e + t < 2 ^ 63"
  shows "sum_list (map snd (window_of T
    (limiter_log tid cs (SetTenantLimit tid r t (NewRateLimiter dr dt))))) \<le> t"
  using spec_log_tpm[of "calls_of tid cs" "[]" t r] assms
  by (simp add: limiter_log_spec_log calls_of_sorted tpm_ok_def[of t "spec_log _ _ _ _"])

theorem tpm_quota_every_window_witness:
  "sum_list (map snd (window_of 7 (limiter_log ''a'' [(5, new_context\<lparr>TenantID := ''a''\<rparr>),
     (6, new_context\<lparr>TenantID := ''a''\<rparr>)] (SetTenantLimit ''a'' 0 1 (NewRateLimiter 0 0))))) \<le> 1"
  by (rule tpm_quota_every_window)
     (simp_all add: calls_of_def EstimateTokens_def new_context_def)

text \<open>
  the bound on tokens fails without its condition. A request body with a negative \<open>max_tokens\<close> is
  admitted and credits the tenant: after it, under a quota of 100, a request for 5000 tokens passes
  that the same limiter refuses on its own.
\<close>

theorem negative_max_tokens_credits_quota:
  "(let rl = SetTenantLimit ''a'' 0 100 (NewRateLimiter 0 0);
        credit = new_context\<lparr>TenantID := ''a'', CleanPayload := render (JObj [(''max_tokens'', JNum ''-9000'')])\<rparr>;
        big = new_context\<lparr>TenantID := ''a'', CleanPayload := render (JObj [(''max_tokens'', JNum ''5000'')])\<rparr>
    in limiter_log ''a'' [(0, big)] rl = [] \<and>
       map snd (limiter_log ''a'' [(0, credit), (1, big)] rl) = [- 8994, 5006])"
  by code_simp

end
