(* ===== verification/Delimiter.thy ===== *)
theory Delimiter
  imports Pipeline Go_Case
begin

text \<open>
  \<open>internal/inbound/delimiter.go\<close>: the sanitizer strips zero-width and bidirectional code points, raw
  and as JSON escapes, and rejects framing tokens of prompt templates.
\<close>

section \<open>Tables\<close>

definition dangerousRunes :: "rune list" where
  "dangerousRunes = [0x200B, 0x200C, 0x200D, 0x200E, 0x200F, 0xFEFF, 0x202A, 0x202B, 0x202C, 0x202D, 0x202E,
     0x2066, 0x2067, 0x2068, 0x2069]"

definition escape :: "string \<Rightarrow> string" where "escape h = CHR 0x5C # CHR ''u'' # h"

definition dangerousJSONEscapes :: "string list" where
  "dangerousJSONEscapes = map escape
     [''200b'', ''200B'', ''200c'', ''200C'', ''200d'', ''200D'', ''200e'', ''200E'', ''200f'', ''200F'',
      ''feff'', ''FEFF'', ''202a'', ''202A'', ''202b'', ''202B'', ''202c'', ''202C'', ''202d'', ''202D'',
      ''202e'', ''202E'', ''2066'', ''2067'', ''2068'', ''2069'']"

definition unauthorizedFramingTokens :: "string list" where
  "unauthorizedFramingTokens =
     [''<|im_start|>'', ''<|im_end|>'', ''[inst]'', ''[/inst]'', ''<<sys>>'', ''<</sys>>'', ''<s>'', ''</s>'',
      ''<|endoftext|>'']"

section \<open>The stage\<close>

function StripDangerousRunes :: "bytes \<Rightarrow> bytes" where
  "StripDangerousRunes s =
     (if s = [] then []
      else case decode_rune s of (r, n) \<Rightarrow>
        if r = RuneError \<and> n = 1 then hd s # StripDangerousRunes (drop 1 s)
        else (if r \<in> set dangerousRunes then [] else take n s) @ StripDangerousRunes (drop n s))"
  by pat_completeness auto
termination by (relation "measure length") (auto intro: decode_drop_less)

declare StripDangerousRunes.simps [simp del]

definition strip_escapes :: "bytes \<Rightarrow> bytes" where
  "strip_escapes s = fold (\<lambda>esc s. if contains s esc then replace_all esc [] s else s) dangerousJSONEscapes s"

definition sanitize :: "bytes \<Rightarrow> bytes" where
  "sanitize s = strip_escapes (StripDangerousRunes s)"

definition normalize_brackets :: "bytes \<Rightarrow> bytes" where
  "normalize_brackets s =
     replace_all (escape ''005d'') '']'' (replace_all (escape ''005b'') ''[''
       (replace_all (escape ''003e'') ''>'' (replace_all (escape ''003c'') ''<'' s)))"

definition Delimiter_Execute ::
  "(rune \<Rightarrow> rune) \<Rightarrow> PipelineContext \<Rightarrow> 'w \<Rightarrow> PipelineContext \<times> 'w \<times> outcome" where
  "Delimiter_Execute ul ctx w =
     (if CleanPayload ctx = [] then (ctx, w, Returned StageContinue)
      else
        let sanitized = sanitize (CleanPayload ctx);
            ctx1 = ctx\<lparr>CleanPayload := sanitized\<rparr>;
            normalized = normalize_brackets (to_lower ul sanitized) in
        case find (\<lambda>tok. contains normalized tok) unauthorizedFramingTokens of
          Some tok \<Rightarrow> (ctx1\<lparr>MatchedRuleID := ''DELIMITER_BREAKOUT'', ViolationType := ''FRAMING_TOKEN: '' @ tok\<rparr>,
                      w, Returned StageTripwire)
        | None \<Rightarrow> (ctx1, w, Returned StageContinue))"

definition delimiter_stage :: "(rune \<Rightarrow> rune) \<Rightarrow> 'w Stage" where
  "delimiter_stage ul = \<lparr>Name = ''delimiter_sanitizer'', FailClosed = True, Execute = Delimiter_Execute ul\<rparr>"

declare delimiter_stage_def [stage_defs]

interpretation delimiter: inbound_stage "delimiter_stage ul" for ul
  by unfold_locales
     (auto simp: stage_defs Delimiter_Execute_def same_request_def Let_def
        split: if_splits option.splits)

section \<open>Stripping as a filter on code points\<close>

text \<open>The code points of a byte string as a range loop sees them, with their sizes.\<close>

function runes :: "bytes \<Rightarrow> (rune \<times> nat) list" where
  "runes s = (if s = [] then [] else decode_rune s # runes (drop (snd (decode_rune s)) s))"
  by pat_completeness auto
termination by (relation "measure length") (auto dest: decode_size simp: Suc_le_eq)

declare runes.simps [simp del]

definition well_encoded :: "bytes \<Rightarrow> bool" where
  "well_encoded s \<longleftrightarrow> (RuneError, 1) \<notin> set (runes s)"

lemma runes_Nil [simp]: "runes [] = []"
  by (simp add: runes.simps)

lemma runes_chunk:
  assumes "decode_rune s = (r, n)" and "s \<noteq> []" and "(r, n) \<noteq> (RuneError, 1)"
  shows "runes (take n s @ t) = (r, n) # runes t"
proof -
  have "1 \<le> n" "n \<le> length s" using decode_rune_valid[OF assms] by auto
  then have "take n s \<noteq> []" "length (take n s) = n" using assms(2) by auto
  then show ?thesis using decode_chunk[OF assms, of t] by (subst runes.simps) auto
qed

lemma runes_encode:
  assumes "valid_rune r"
  shows "runes (encode_rune r @ t) = (r, length (encode_rune r)) # runes t"
  using decode_encode[OF assms, of t] by (subst runes.simps) simp

lemma strip_runes:
  "well_encoded s \<Longrightarrow> runes (StripDangerousRunes s) = filter (\<lambda>(r, n). r \<notin> set dangerousRunes) (runes s)"
proof (induction s rule: StripDangerousRunes.induct)
  case (1 s)
  show ?case
  proof (cases "s = []")
    case True
    then show ?thesis by (simp add: StripDangerousRunes.simps)
  next
    case False
    obtain r n where d: "decode_rune s = (r, n)" by fastforce
    have rs: "runes s = (r, n) # runes (drop n s)" using False d by (subst runes.simps) simp
    then have v: "(r, n) \<noteq> (RuneError, 1)" "well_encoded (drop n s)" using "1.prems" by (auto simp: well_encoded_def)
    have IH: "runes (StripDangerousRunes (drop n s)) = filter (\<lambda>(r, n). r \<notin> set dangerousRunes) (runes (drop n s))"
      using "1.IH"(2)[OF False d[symmetric]] v by auto
    have "StripDangerousRunes s = (if r \<in> set dangerousRunes then [] else take n s) @ StripDangerousRunes (drop n s)"
      using False d v by (subst StripDangerousRunes.simps) auto
    then show ?thesis using rs IH runes_chunk[OF d False v(1)] by simp
  qed
qed

section \<open>Framing tokens\<close>

text \<open>A replacement cannot break an occurrence of a pattern if neither string has the other's first byte.\<close>

lemma replace_all_skip: "old \<noteq> [] \<Longrightarrow> hd old \<notin> set p \<Longrightarrow> replace_all old new (p @ t) = p @ replace_all old new t"
proof (induction p)
  case (Cons x p)
  have "\<not> has_prefix (x # p @ t) old" using Cons.prems by (cases old) auto
  with Cons show ?case by auto
qed simp

lemma replace_all_keeps:
  assumes "old \<noteq> []" and "hd old \<notin> set p" and "p \<noteq> []" and "hd p \<notin> set old"
  shows "contains s p \<Longrightarrow> contains (replace_all old new s) p"
proof (induction s rule: length_induct)
  case (1 s)
  show ?case
  proof (cases s)
    case Nil
    with "1.prems" show ?thesis by simp
  next
    case (Cons c s')
    show ?thesis
    proof (cases "old \<noteq> [] \<and> has_prefix s old")
      case True
      let ?rest = "drop (length old) s"
      have s: "s = old @ ?rest" using True by (auto simp: has_prefix_iff)
      obtain u v where u: "s = u @ p @ v" using "1.prems" by (auto simp: contains_iff)
      have "length old \<le> length u"
      proof (rule ccontr)
        assume l: "\<not> length old \<le> length u"
        then have "s ! length u \<in> set old" using s by (metis nth_append nth_mem not_le)
        moreover have "s ! length u = hd p" using u assms(3) by (cases p) (simp_all add: nth_append)
        ultimately show False using assms(4) by simp
      qed
      then have "?rest = drop (length old) u @ p @ v" using u by simp
      then have "contains ?rest p" by (auto simp: contains_iff)
      moreover have "length ?rest < length s" using Cons True by auto
      ultimately have "contains (replace_all old new ?rest) p" using "1.IH" by blast
      then show ?thesis using True Cons contains_append_I2 by simp
    next
      case False
      then have r: "replace_all old new s = c # replace_all old new s'" using Cons by auto
      show ?thesis
      proof (cases "has_prefix s p")
        case True
        then obtain t where "s = p @ t" by (auto simp: has_prefix_iff)
        then have "replace_all old new s = [] @ p @ replace_all old new t"
          using replace_all_skip[OF assms(1,2)] by simp
        then show ?thesis unfolding contains_iff by blast
      next
        case False
        with "1.prems" Cons have "contains s' p" by simp
        then show ?thesis using "1.IH" Cons r by simp
      qed
    qed
  qed
qed

section \<open>Spellings of a framing token\<close>

text \<open>How a byte of a token may stand in the payload: as itself or, for the four brackets, as its JSON escape.
  The spellings of a token are all the ways to choose.\<close>

definition forms :: "char \<Rightarrow> bytes list" where
  "forms c =
     (if c = CHR ''<'' then [''<'', [CHR 0x5C] @ ''u003c'']
      else if c = CHR ''>'' then [''>'', [CHR 0x5C] @ ''u003e'']
      else if c = CHR ''['' then [''['', [CHR 0x5C] @ ''u005b'']
      else if c = CHR '']'' then ['']'', [CHR 0x5C] @ ''u005d'']
      else [[c]])"

definition spellings :: "string \<Rightarrow> bytes list" where
  "spellings tok = map concat (product_lists (map forms tok))"

text \<open>A text in pieces, each a byte or a whole escape, and the replacement of one escape in it.\<close>

definition piece :: "bytes \<Rightarrow> bool" where
  "piece k \<longleftrightarrow> (\<exists>x. k = [x] \<and> x \<noteq> CHR 0x5C) \<or>
     (\<exists>e. k = CHR 0x5C # e \<and> length e = 5 \<and> list_all (\<lambda>x. x \<notin> set ''<>[]'' \<and> x \<noteq> CHR 0x5C) e)"

definition unescape :: "bytes \<Rightarrow> char \<Rightarrow> bytes \<Rightarrow> bytes" where
  "unescape old c k = (if k = old then [c] else k)"

text \<open>The escapes of the stage, each with its bracket.\<close>

definition bracket_escape :: "bytes \<Rightarrow> char \<Rightarrow> bool" where
  "bracket_escape old c \<longleftrightarrow> piece old \<and> hd old = CHR 0x5C \<and> c \<in> set ''<>[]''"

lemma bracket_escapes:
  "bracket_escape (escape ''003c'') (CHR ''<'')" "bracket_escape (escape ''003e'') (CHR ''>'')"
  "bracket_escape (escape ''005b'') (CHR ''['')" "bracket_escape (escape ''005d'') (CHR '']'')"
  by (simp_all add: bracket_escape_def piece_def escape_def)

lemma bracket_escapeE:
  assumes "bracket_escape old c"
  obtains e where "old = CHR 0x5C # e" "length e = 5" "list_all (\<lambda>x. x \<notin> set ''<>[]'' \<and> x \<noteq> CHR 0x5C) e" "c \<in> set ''<>[]''"
  using assms by (auto simp: bracket_escape_def piece_def)

lemma pieceE:
  assumes "piece k"
  obtains (byte) x where "k = [x]" "x \<noteq> CHR 0x5C"
  | (escaped) e where "k = CHR 0x5C # e" "length e = 5" "list_all (\<lambda>x. x \<notin> set ''<>[]'' \<and> x \<noteq> CHR 0x5C) e"
  using assms by (auto simp: piece_def)

lemma replace_piece:
  assumes "bracket_escape old c" and "piece k"
  shows "replace_all old [c] (k @ t) = unescape old c k @ replace_all old [c] t"
proof (cases "k = old")
  case True
  obtain e where "old = CHR 0x5C # e" using assms(1) by (rule bracket_escapeE)
  then show ?thesis using True by (simp add: unescape_def has_prefix_iff)
next
  case False
  obtain e where old: "old = CHR 0x5C # e" "length e = 5" using assms(1) by (rule bracket_escapeE)
  from assms(2) show ?thesis
  proof (cases rule: pieceE)
    case (byte x)
    then show ?thesis using False old by (simp add: unescape_def)
  next
    case (escaped e')
    have "\<not> has_prefix (k @ t) old"
    proof
      assume "has_prefix (k @ t) old"
      then obtain v where "k @ t = old @ v" by (auto simp: has_prefix_iff)
      moreover have "length k = length old" using escaped old by simp
      ultimately show False using False by simp
    qed
    then have "replace_all old [c] (k @ t) = CHR 0x5C # replace_all old [c] (e' @ t)" using escaped by simp
    moreover have "CHR 0x5C \<notin> set e'" using escaped(3) by (auto simp: list_all_iff)
    ultimately show ?thesis using escaped False replace_all_skip[of old e' "[c]" t] old by (simp add: unescape_def)
  qed
qed

lemma replace_pieces:
  assumes "bracket_escape old c" and "list_all piece ks"
  shows "replace_all old [c] (concat ks @ t) = concat (map (unescape old c) ks) @ replace_all old [c] t"
  using assms(2) by (induction ks) (simp_all add: replace_piece[OF assms(1)])

lemma replace_escape: "bracket_escape old c \<Longrightarrow> replace_all old [c] (old @ t) = c # replace_all old [c] t"
  using replace_piece[of old c old t] by (simp add: bracket_escape_def unescape_def)

text \<open>A token begins with an opening bracket, so no replaced escape reaches into it.\<close>

definition opens :: "bytes list \<Rightarrow> bool" where
  "opens ks \<longleftrightarrow> ks \<noteq> [] \<and> hd ks \<noteq> [] \<and> hd (hd ks) \<in> set ''<['' \<union> {CHR 0x5C}"

lemma replace_gives:
  assumes "bracket_escape old c" and "list_all piece ks" and "opens ks"
  shows "replace_all old [c] (u @ concat ks @ v) = x \<Longrightarrow> contains x (concat (map (unescape old c) ks))"
proof (induction "length u" arbitrary: u x rule: less_induct)
  case less
  obtain e where old: "old = CHR 0x5C # e" "length e = 5" "list_all (\<lambda>x. x \<notin> set ''<>[]'' \<and> x \<noteq> CHR 0x5C) e"
    using assms(1) by (rule bracket_escapeE)
  show ?case
  proof (cases u)
    case Nil
    then show ?thesis using less.prems replace_pieces[OF assms(1,2)] by (auto simp: contains_iff intro: exI[of _ "[]"])
  next
    case (Cons a u')
    show ?thesis
    proof (cases "has_prefix (u @ concat ks @ v) old")
      case True
      then obtain z where z: "u @ concat ks @ v = old @ z" by (auto simp: has_prefix_iff)
      have "length old \<le> length u"
      proof (rule ccontr)
        assume l: "\<not> length old \<le> length u"
        obtain h w where w: "concat ks = h # w" "h \<in> set ''<['' \<union> {CHR 0x5C}"
          using assms(3) by (cases ks; cases "hd ks") (auto simp: opens_def)
        have "(u @ concat ks @ v) ! length u = h" by (simp add: w nth_append)
        moreover have "(old @ z) ! length u = e ! (length u - 1)" using l Cons by (simp add: old nth_append)
        moreover have "e ! (length u - 1) \<in> set e" using l Cons old by simp
        ultimately have "h \<in> set e" using z by simp
        then show False using w old(3) by (auto simp: list_all_iff)
      qed
      then have z': "z = drop (length old) u @ concat ks @ v" using z by (metis append_eq_conv_conj drop_append diff_is_0_eq drop0)
      have "replace_all old [c] (u @ concat ks @ v) = c # replace_all old [c] z"
        unfolding z using old by (simp add: has_prefix_iff)
      moreover have "contains (replace_all old [c] z) (concat (map (unescape old c) ks))"
        using less.hyps[of "drop (length old) u"] z' Cons old by simp
      ultimately show ?thesis using less.prems by auto
    next
      case False
      then have "replace_all old [c] (u @ concat ks @ v) = a # replace_all old [c] (u' @ concat ks @ v)" using Cons by simp
      moreover have "contains (replace_all old [c] (u' @ concat ks @ v)) (concat (map (unescape old c) ks))"
        using less.hyps[of u'] Cons by simp
      ultimately show ?thesis using less.prems by auto
    qed
  qed
qed

lemma replace_keeps_plain:
  assumes "bracket_escape old c" and "c \<notin> set e"
  shows "has_prefix (replace_all old [c] s) (e @ z) \<Longrightarrow> \<exists>t. s = e @ t \<and> has_prefix (replace_all old [c] t) z"
  using assms(2)
proof (induction e arbitrary: s)
  case (Cons x e)
  have "s \<noteq> []" using Cons.prems(1) by auto
  moreover have "\<not> has_prefix s old"
    using Cons.prems replace_escape[OF assms(1)] by (auto simp: has_prefix_iff)
  ultimately show ?case using Cons by (cases s) auto
qed simp

lemma replace_needs:
  assumes "bracket_escape old c" and "list_all piece qs"
  shows "has_prefix (replace_all old [c] s) (concat qs) \<Longrightarrow>
    \<exists>ks t. map (unescape old c) ks = qs \<and> list_all piece ks \<and> s = concat ks @ t"
  using assms(2)
proof (induction qs arbitrary: s)
  case Nil
  show ?case by (intro exI[of _ "[]"] exI[of _ s]) simp
next
  case (Cons q qs)
  obtain e0 where old: "old = CHR 0x5C # e0" "c \<in> set ''<>[]''" using assms(1) by (rule bracket_escapeE)
  have po: "piece old" using assms(1) by (simp add: bracket_escape_def)
  have q: "piece q" "list_all piece qs" using Cons.prems by simp_all
  show ?case
  proof (cases "has_prefix s old")
    case True
    then obtain rest where s: "s = old @ rest" by (auto simp: has_prefix_iff)
    then have r: "replace_all old [c] s = c # replace_all old [c] rest" using old by (simp add: has_prefix_iff)
    have "q = [c]" using q(1) r Cons.prems(1) old(2) by (cases rule: pieceE) (auto simp: has_prefix_iff)
    then obtain ks t where "map (unescape old c) ks = qs" "list_all piece ks" "rest = concat ks @ t"
      using Cons.IH[of rest] q(2) r Cons.prems(1) by (auto simp: has_prefix_iff)
    moreover have "unescape old c old = [c]" by (simp add: unescape_def)
    ultimately show ?thesis using s \<open>q = [c]\<close> po by (intro exI[of _ "old # ks"] exI[of _ t]) simp
  next
    case False
    have "\<exists>t. s = q @ t \<and> has_prefix (replace_all old [c] t) (concat qs)"
      using q(1)
    proof (cases rule: pieceE)
      case (byte x)
      then show ?thesis using False Cons.prems(1) by (cases s) (auto simp: has_prefix_iff)
    next
      case (escaped e)
      obtain a s' where s: "s = a # s'" using Cons.prems(1) escaped by (cases s) (auto simp: has_prefix_iff)
      have "c \<notin> set e" using escaped(3) old(2) by (auto simp: list_all_iff)
      moreover have "a = CHR 0x5C" "has_prefix (replace_all old [c] s') (e @ concat qs)"
        using False Cons.prems(1) escaped s by (auto simp: has_prefix_iff)
      ultimately show ?thesis using replace_keeps_plain[OF assms(1)] s escaped(1) by auto
    qed
    then obtain t where t: "s = q @ t" "has_prefix (replace_all old [c] t) (concat qs)" by blast
    then have "unescape old c q = q" using False by (auto simp: unescape_def has_prefix_iff)
    moreover obtain ks t' where "map (unescape old c) ks = qs" "list_all piece ks" "t = concat ks @ t'"
      using Cons.IH[OF t(2) q(2)] by blast
    ultimately show ?thesis using t(1) q(1) by (intro exI[of _ "q # ks"] exI[of _ t']) simp
  qed
qed

lemma replace_needs_somewhere:
  assumes "bracket_escape old c" and "list_all piece qs"
  shows "contains (replace_all old [c] s) (concat qs) \<Longrightarrow>
    \<exists>ks. map (unescape old c) ks = qs \<and> list_all piece ks \<and> contains s (concat ks)"
proof (induction "length s" arbitrary: s rule: less_induct)
  case less
  show ?case
  proof (cases "has_prefix (replace_all old [c] s) (concat qs)")
    case True
    then show ?thesis using replace_needs[OF assms] by (metis append_Nil contains_iff)
  next
    case False
    then obtain a s' where s: "s = a # s'" using less.prems by (cases s) (auto simp: has_prefix_iff)
    obtain s2 b where "replace_all old [c] s = b # replace_all old [c] s2" "length s2 < length s" "\<exists>u. s = u @ s2"
    proof (cases "has_prefix s old")
      case True
      obtain e where "old = CHR 0x5C # e" using assms(1) by (rule bracket_escapeE)
      with True show ?thesis using that[of c "drop (length old) s"] s by (auto simp: has_prefix_iff)
    next
      case False
      then show ?thesis using that[of a s'] s by (auto intro: exI[of _ "[a]"])
    qed
    then show ?thesis using less.hyps[of s2] less.prems False contains_append_I2 by auto
  qed
qed

text \<open>One replacement: what stands in its result stood in its input, with some of the brackets escaped.\<close>

lemma contains_replaced:
  assumes "bracket_escape old c" and "list_all piece qs" and "opens qs"
  shows "contains (replace_all old [c] s) (concat qs) \<longleftrightarrow>
    (\<exists>ks. map (unescape old c) ks = qs \<and> list_all piece ks \<and> opens ks \<and> contains s (concat ks))"
proof
  assume "contains (replace_all old [c] s) (concat qs)"
  from replace_needs_somewhere[OF assms(1,2) this] obtain ks where
    ks: "map (unescape old c) ks = qs" "list_all piece ks" "contains s (concat ks)" by blast
  have "opens ks"
  proof -
    obtain k ks' where k: "ks = k # ks'" using ks(1) assms(3) by (cases ks) (auto simp: opens_def)
    obtain e where "old = CHR 0x5C # e" using assms(1) by (rule bracket_escapeE)
    then show ?thesis using ks(1) assms(3) k by (auto simp: opens_def unescape_def split: if_splits)
  qed
  with ks show "\<exists>ks. map (unescape old c) ks = qs \<and> list_all piece ks \<and> opens ks \<and> contains s (concat ks)" by blast
next
  assume "\<exists>ks. map (unescape old c) ks = qs \<and> list_all piece ks \<and> opens ks \<and> contains s (concat ks)"
  then obtain ks u v where "map (unescape old c) ks = qs" "list_all piece ks" "opens ks" "s = u @ concat ks @ v"
    by (auto simp: contains_iff)
  then show "contains (replace_all old [c] s) (concat qs)" using replace_gives[OF assms(1)] by blast
qed

lemma unescape_piece: "bracket_escape old c \<Longrightarrow> piece k \<Longrightarrow> piece (unescape old c k)"
  by (auto simp: unescape_def bracket_escape_def piece_def)

lemma unescape_opens:
  "bracket_escape old c \<Longrightarrow> opens (map (unescape old c) ks) \<Longrightarrow> opens ks"
  by (auto simp: opens_def unescape_def bracket_escape_def hd_map piece_def split: if_splits)

lemma contains_step:
  assumes "bracket_escape old c" and "\<And>qs. opens (map f qs) \<Longrightarrow> opens qs" and "opens ps"
  shows "(\<exists>qs. map f qs = ps \<and> list_all piece qs \<and> contains (replace_all old [c] s) (concat qs)) \<longleftrightarrow>
    (\<exists>ks. map (\<lambda>k. f (unescape old c k)) ks = ps \<and> list_all piece ks \<and> contains s (concat ks))" (is "?l \<longleftrightarrow> ?r")
proof
  assume ?l
  then obtain qs where qs: "map f qs = ps" "list_all piece qs" "contains (replace_all old [c] s) (concat qs)" by blast
  with contains_replaced[OF assms(1) qs(2)] assms(2,3) obtain ks where
    "map (unescape old c) ks = qs" "list_all piece ks" "contains s (concat ks)" by blast
  with qs(1) show ?r by (intro exI[of _ ks]) auto
next
  assume ?r
  then obtain ks where ks: "map (\<lambda>k. f (unescape old c k)) ks = ps" "list_all piece ks" "contains s (concat ks)" by blast
  let ?qs = "map (unescape old c) ks"
  have f: "map f ?qs = ps" using ks(1) by (simp add: comp_def)
  then have "opens ?qs" using assms(2,3) by blast
  moreover have "list_all piece ?qs" using ks(2) unescape_piece[OF assms(1)] by (auto simp: list_all_iff)
  ultimately have "contains (replace_all old [c] s) (concat ?qs)"
    using contains_replaced[OF assms(1)] ks(2,3) unescape_opens[OF assms(1)] by blast
  with f \<open>list_all piece ?qs\<close> show ?l by blast
qed

definition plain_form :: "bytes \<Rightarrow> bytes" where
  "plain_form k = unescape (escape ''005d'') (CHR '']'') (unescape (escape ''005b'') (CHR ''['')
     (unescape (escape ''003e'') (CHR ''>'') (unescape (escape ''003c'') (CHR ''<'') k)))"

lemma plain_form_cases:
  "plain_form k = (if k = escape ''003c'' then ''<'' else if k = escape ''003e'' then ''>''
     else if k = escape ''005b'' then ''['' else if k = escape ''005d'' then '']'' else k)"
  by (simp add: plain_form_def unescape_def escape_def)

lemma forms_escape:
  "forms x = [x] # (if x = CHR ''<'' then [escape ''003c''] else if x = CHR ''>'' then [escape ''003e'']
     else if x = CHR ''['' then [escape ''005b''] else if x = CHR '']'' then [escape ''005d''] else [])"
  by (simp add: forms_def escape_def)

lemma plain_form_single:
  assumes "x \<noteq> CHR 0x5C"
  shows "piece k \<and> plain_form k = [x] \<longleftrightarrow> k \<in> set (forms x)"
proof -
  have e: "piece (escape ''003c'')" "piece (escape ''003e'')" "piece (escape ''005b'')" "piece (escape ''005d'')"
    using bracket_escapes by (simp_all add: bracket_escape_def)
  have n: "escape h \<noteq> [x]" for h by (simp add: escape_def)
  have x: "piece [x]" using assms by (simp add: piece_def)
  show ?thesis
    unfolding plain_form_cases forms_escape using e x n n[THEN not_sym]
    by (auto simp: escape_def split: if_splits)
qed

lemma contains_normalized:
  assumes "opens (map (\<lambda>x. [x]) tok)" and "CHR 0x5C \<notin> set tok"
  shows "contains (normalize_brackets s) tok \<longleftrightarrow> list_ex (contains s) (spellings tok)"
proof -
  let ?qs = "map (\<lambda>x. [x]) tok"
  let ?u1 = "unescape (escape ''003c'') (CHR ''<'')" and ?u2 = "unescape (escape ''003e'') (CHR ''>'')"
    and ?u3 = "unescape (escape ''005b'') (CHR ''['')" and ?u4 = "unescape (escape ''005d'') (CHR '']'')"
  let ?s1 = "replace_all (escape ''003c'') ''<'' s"
  let ?s2 = "replace_all (escape ''003e'') ''>'' ?s1"
  let ?s3 = "replace_all (escape ''005b'') ''['' ?s2"
  note b = bracket_escapes
  have o: "opens ks" if "opens (map (\<lambda>k. f (unescape old c k)) ks)" "bracket_escape old c" "\<And>qs. opens (map f qs) \<Longrightarrow> opens qs"
    for f old c ks
    using that(1) that(3)[of "map (unescape old c) ks"] unescape_opens[OF that(2)] by (simp add: comp_def)
  have o4: "opens (map ?u4 qs) \<Longrightarrow> opens qs" for qs by (rule unescape_opens[OF b(4)])
  have o3: "opens (map (\<lambda>k. ?u4 (?u3 k)) qs) \<Longrightarrow> opens qs" for qs by (rule o[OF _ b(3) o4])
  have o2: "opens (map (\<lambda>k. ?u4 (?u3 (?u2 k))) qs) \<Longrightarrow> opens qs" for qs by (rule o[OF _ b(2) o3])
  have q: "list_all piece ?qs" "concat ?qs = tok" using assms(2) by (auto simp: list_all_iff piece_def)
  have "contains (normalize_brackets s) tok \<longleftrightarrow>
      (\<exists>qs. map (\<lambda>k. k) qs = ?qs \<and> list_all piece qs \<and> contains (normalize_brackets s) (concat qs))"
    using q by auto
  also have "\<dots> \<longleftrightarrow> (\<exists>ks. map ?u4 ks = ?qs \<and> list_all piece ks \<and> contains ?s3 (concat ks))"
    unfolding normalize_brackets_def by (rule contains_step[OF b(4) _ assms(1)]) simp
  also have "\<dots> \<longleftrightarrow> (\<exists>ks. map (\<lambda>k. ?u4 (?u3 k)) ks = ?qs \<and> list_all piece ks \<and> contains ?s2 (concat ks))"
    by (rule contains_step[OF b(3) o4 assms(1)])
  also have "\<dots> \<longleftrightarrow> (\<exists>ks. map (\<lambda>k. ?u4 (?u3 (?u2 k))) ks = ?qs \<and> list_all piece ks \<and> contains ?s1 (concat ks))"
    by (rule contains_step[OF b(2) o3 assms(1)])
  also have "\<dots> \<longleftrightarrow> (\<exists>ks. map plain_form ks = ?qs \<and> list_all piece ks \<and> contains s (concat ks))"
    unfolding plain_form_def by (rule contains_step[OF b(1) o2 assms(1)])
  also have "\<dots> \<longleftrightarrow> (\<exists>ks. list_all2 (\<lambda>k ys. k \<in> set ys) ks (map forms tok) \<and> contains s (concat ks))"
  proof -
    have "map plain_form ks = ?qs \<and> list_all piece ks \<longleftrightarrow> list_all2 (\<lambda>k ys. k \<in> set ys) ks (map forms tok)" for ks
      using assms(2)
    proof (induction tok arbitrary: ks)
      case (Cons x tok)
      have "x \<noteq> CHR 0x5C" "CHR 0x5C \<notin> set tok" using Cons.prems by auto
      then show ?case using Cons.IH plain_form_single by (cases ks) auto
    qed auto
    then show ?thesis by blast
  qed
  also have "\<dots> \<longleftrightarrow> list_ex (contains s) (spellings tok)"
    by (auto simp: spellings_def list_ex_iff product_lists_set)
  finally show ?thesis .
qed

lemma token_spelled:
  "tok \<in> set unauthorizedFramingTokens \<Longrightarrow> contains (normalize_brackets s) tok \<longleftrightarrow> list_ex (contains s) (spellings tok)"
  by (rule contains_normalized) (auto simp: unauthorizedFramingTokens_def opens_def)

section \<open>Properties\<close>

text \<open>
  on well-formed UTF-8 the stripping removes exactly the zero-width and bidirectional code points:
  the code points of the result are those of the input without them, in order.
\<close>

theorem strip_filters_runes:
  assumes "well_encoded s"
  shows "runes (StripDangerousRunes s) = filter (\<lambda>(r, n). r \<notin> set dangerousRunes) (runes s)"
  using assms by (rule strip_runes)

theorem strip_filters_runes_witness:
  "runes (StripDangerousRunes (''a'' @ encode_rune 0x200B @ encode_rune 0x4E2D)) =
     filter (\<lambda>(r, n). r \<notin> set dangerousRunes) (runes (''a'' @ encode_rune 0x200B @ encode_rune 0x4E2D))"
proof (rule strip_filters_runes)
  have v: "valid_rune 0x200B" "valid_rune 0x4E2D" by (simp_all add: valid_rune_def)
  have "is_ascii (CHR ''a'')" by (simp add: is_ascii_def byte_def)
  then have "runes (''a'' @ encode_rune 0x200B @ encode_rune 0x4E2D) =
      (byte (CHR ''a''), 1) # runes (encode_rune 0x200B @ encode_rune 0x4E2D @ [])"
    by (subst runes.simps) simp
  also have "\<dots> = [(byte (CHR ''a''), 1), (0x200B, length (encode_rune 0x200B)), (0x4E2D, length (encode_rune 0x4E2D))]"
    using runes_encode[OF v(1), of "encode_rune 0x4E2D @ []"] runes_encode[OF v(2), of "[]"] by simp
  finally show "well_encoded (''a'' @ encode_rune 0x200B @ encode_rune 0x4E2D)"
    by (simp add: well_encoded_def RuneError_def byte_def)
qed

lemma framing_normalized:
  "tok \<in> set unauthorizedFramingTokens \<Longrightarrow> contains s tok \<Longrightarrow> contains (normalize_brackets s) tok"
  unfolding normalize_brackets_def
  by (intro replace_all_keeps) (auto simp: unauthorizedFramingTokens_def escape_def)

text \<open>A request that passes the stage, and the payload it passes with.\<close>

lemma Delimiter_passes:
  assumes "Delimiter_Execute ul ctx w = (ctx', w', Returned StageContinue)" and "CleanPayload ctx \<noteq> []"
  shows "ctx' = ctx\<lparr>CleanPayload := sanitize (CleanPayload ctx)\<rparr> \<and> w' = w \<and>
    list_all (\<lambda>tok. \<not> contains (to_lower ul (CleanPayload ctx')) tok) unauthorizedFramingTokens"
  using assms framing_normalized
  by (auto simp: Delimiter_Execute_def Let_def find_None_iff list_all_iff split: option.splits)

text \<open>ASCII text has nothing to strip.\<close>

lemma strip_ascii: "list_all is_ascii s \<Longrightarrow> StripDangerousRunes s = s"
proof (induction s)
  case (Cons c s)
  then have "byte c \<notin> set dangerousRunes" "byte c \<noteq> RuneError"
    by (auto simp: is_ascii_def dangerousRunes_def RuneError_def)
  then show ?case using Cons by (subst StripDangerousRunes.simps) simp
qed (simp add: StripDangerousRunes.simps)

lemma execute_ascii_continues:
  assumes "list_all is_ascii s" and "strip_escapes s = s"
    and "find (\<lambda>tok. contains (normalize_brackets (map lower_byte s)) tok) unauthorizedFramingTokens = None"
  shows "snd (snd (Delimiter_Execute ul (ctx\<lparr>CleanPayload := s\<rparr>) w)) = Returned StageContinue"
  using assms by (simp add: Delimiter_Execute_def sanitize_def strip_ascii to_lower_def Let_def)

text \<open>A zero-width space split by another one: its first byte is ill-formed on its own.\<close>

lemma strip_split_zwsp:
  "StripDangerousRunes (byte_string [0xE2, 0xE2, 0x80, 0x8B, 0x80, 0x8B]) = encode_rune 0x200B"
proof -
  note dec = decode_rune_def decode_bytes_def accept_second_def cont_def RuneError_def byte_string_def
  have d: "decode_rune (byte_string [0xE2, 0xE2, 0x80, 0x8B, 0x80, 0x8B]) = (RuneError, 1)"
    "decode_rune (byte_string [0xE2, 0x80, 0x8B, 0x80, 0x8B]) = (0x200B, 3)"
    "decode_rune (byte_string [0x80, 0x8B]) = (RuneError, 1)" "decode_rune (byte_string [0x8B]) = (RuneError, 1)"
    by (simp_all add: dec)
  have step: "StripDangerousRunes (byte_string (b # bs)) = char_of b # StripDangerousRunes (byte_string bs)"
    if "decode_rune (byte_string (b # bs)) = (RuneError, 1)" for b :: nat and bs
    using that by (subst StripDangerousRunes.simps) (simp add: byte_string_def)
  have "StripDangerousRunes (byte_string [0xE2, 0x80, 0x8B, 0x80, 0x8B]) = StripDangerousRunes (byte_string [0x80, 0x8B])"
    using d(2) by (subst StripDangerousRunes.simps) (simp add: byte_string_def RuneError_def dangerousRunes_def)
  then have "StripDangerousRunes (byte_string [0xE2, 0xE2, 0x80, 0x8B, 0x80, 0x8B]) = byte_string [0xE2, 0x80, 0x8B]"
    using step[OF d(1)] step[OF d(3)] step[OF d(4)] by (simp add: byte_string_def StripDangerousRunes.simps[of "[]"])
  then show ?thesis by (simp add: encode_rune_def valid_rune_def encode_bytes_def byte_string_def)
qed

text \<open>
  C32: what the sanitizer lets pass holds no framing token, in upper or lower case, in none of its spellings:
  no mixture of plain brackets and brackets written as JSON escapes; and what it blocks holds a
  framing token in one of its spellings. The payload is what the stage forwards, in lower case.
\<close>

theorem sanitizer_rejects_framing:
  assumes "Delimiter_Execute ul ctx w = (ctx', w', out)" and "CleanPayload ctx \<noteq> []"
  shows "if out = Returned StageContinue
    then list_all (\<lambda>tok. list_all (\<lambda>sp. \<not> contains (to_lower ul (CleanPayload ctx')) sp) (spellings tok)) unauthorizedFramingTokens
    else out = Returned StageTripwire \<and>
      list_ex (\<lambda>tok. list_ex (contains (to_lower ul (CleanPayload ctx'))) (spellings tok)) unauthorizedFramingTokens"
proof -
  let ?p = "to_lower ul (sanitize (CleanPayload ctx))"
  show ?thesis
  proof (cases "find (\<lambda>tok. contains (normalize_brackets ?p) tok) unauthorizedFramingTokens")
    case None
    then have "list_all (\<lambda>tok. \<not> list_ex (contains ?p) (spellings tok)) unauthorizedFramingTokens"
      using token_spelled by (auto simp: find_None_iff list_all_iff)
    moreover have "CleanPayload ctx' = sanitize (CleanPayload ctx)" "out = Returned StageContinue"
      using assms None by (auto simp: Delimiter_Execute_def Let_def)
    ultimately show ?thesis by (simp add: list_all_iff list_ex_iff)
  next
    case (Some t)
    then have "t \<in> set unauthorizedFramingTokens" "contains (normalize_brackets ?p) t" by (auto simp: find_Some_iff)
    then have "list_ex (\<lambda>tok. list_ex (contains ?p) (spellings tok)) unauthorizedFramingTokens"
      using token_spelled unfolding list_ex_iff by blast
    moreover have "CleanPayload ctx' = sanitize (CleanPayload ctx)" "out = Returned StageTripwire"
      using assms Some by (auto simp: Delimiter_Execute_def Let_def)
    ultimately show ?thesis by simp
  qed
qed

text \<open>An instruction token with both brackets escaped is blocked: it could not have passed.\<close>

theorem sanitizer_rejects_framing_witness:
  "snd (snd (Delimiter_Execute id (new_context\<lparr>CleanPayload := escape ''005b'' @ ''INST'' @ escape ''005D''\<rparr>) ())) =
     Returned StageTripwire"
proof -
  let ?s = "escape ''005b'' @ ''INST'' @ escape ''005D''" and ?sp = "escape ''005b'' @ ''inst'' @ escape ''005d''"
  let ?r = "Delimiter_Execute id (new_context\<lparr>CleanPayload := ?s\<rparr>) ()"
  have r: "?r = (fst ?r, fst (snd ?r), snd (snd ?r))" by (simp only: prod.collapse)
  have "list_all is_ascii ?s" by (simp add: escape_def is_ascii_def byte_def)
  moreover have "strip_escapes ?s = ?s" by (simp add: strip_escapes_def dangerousJSONEscapes_def escape_def)
  ultimately have "sanitize ?s = ?s" "to_lower id ?s = map lower_byte ?s" by (simp_all add: sanitize_def strip_ascii to_lower_def)
  moreover have "CleanPayload (fst ?r) = sanitize ?s"
    by (simp add: Delimiter_Execute_def Let_def escape_def split: option.split)
  moreover have "map lower_byte ?s = ?sp" by code_simp
  ultimately have p: "to_lower id (CleanPayload (fst ?r)) = ?sp" by simp
  have "''[inst]'' \<in> set unauthorizedFramingTokens" "?sp \<in> set (spellings ''[inst]'')"
    by (simp_all add: unauthorizedFramingTokens_def spellings_def forms_def escape_def)
  then have "\<not> list_all (\<lambda>tok. list_all (\<lambda>sp. \<not> contains ?sp sp) (spellings tok)) unauthorizedFramingTokens"
    unfolding list_all_iff using contains_iff[of ?sp ?sp] by (metis append_Nil append_Nil2)
  moreover have "CleanPayload (new_context\<lparr>CleanPayload := ?s\<rparr>) \<noteq> []" by (simp add: escape_def)
  ultimately show ?thesis using sanitizer_rejects_framing[OF r] unfolding p by (metis (no_types, lifting))
qed

text \<open>
  single passes can be evaded. Escapes of letters are not normalized, so a framing token with one
  such escape passes, and the JSON decoder of the model's server restores it. A zero-width code point
  that the removal of another one completes survives the pass over ill-formed input, and an escape
  that the removal of another one completes survives the pass over escapes.
\<close>

theorem sanitizer_evaded:
  "snd (snd (Delimiter_Execute id (new_context\<lparr>CleanPayload := ''<'' @ escape ''0073'' @ ''>''\<rparr>) ())) =
     Returned StageContinue \<and>
   StripDangerousRunes (byte_string [0xE2, 0xE2, 0x80, 0x8B, 0x80, 0x8B]) = encode_rune 0x200B \<and>
   strip_escapes (escape ''20'' @ escape ''200b'' @ ''0b'') = escape ''200b''"
proof (intro conjI)
  show "snd (snd (Delimiter_Execute id (new_context\<lparr>CleanPayload := ''<'' @ escape ''0073'' @ ''>''\<rparr>) ())) =
     Returned StageContinue"
  proof -
    let ?s = "''<'' @ escape ''0073'' @ ''>''"
    have a: "list_all is_ascii ?s" by (simp add: escape_def is_ascii_def byte_def)
    have e: "strip_escapes ?s = ?s" by (simp add: strip_escapes_def dangerousJSONEscapes_def escape_def)
    have "find (\<lambda>tok. contains (normalize_brackets (map lower_byte ?s)) tok) unauthorizedFramingTokens = None"
      by code_simp
    with a e show ?thesis by (intro execute_ascii_continues) (simp_all only: append.simps list.distinct not_False_eq_True)
  qed
  show "StripDangerousRunes (byte_string [0xE2, 0xE2, 0x80, 0x8B, 0x80, 0x8B]) = encode_rune 0x200B"
    by (rule strip_split_zwsp)
  show "strip_escapes (escape ''20'' @ escape ''200b'' @ ''0b'') = escape ''200b''"
    by (simp add: strip_escapes_def dangerousJSONEscapes_def escape_def)
qed

end
