(* ===== verification/Aho_Corasick.thy ===== *)
theory Aho_Corasick
  imports Pipeline Go_Case
begin

text \<open>
  \<open>internal/inbound/ahocorasick.go\<close>: the multi-pattern matcher as the code builds it (a trie in an array
  of nodes, completed to an automaton by a breadth-first search over failure links) and the stage that
  runs it. State numbers are natural numbers: a dictionary has fewer than \<open>2 ^ 32\<close> bytes.
\<close>

section \<open>The automaton\<close>

record acNode =
  nextNode :: "char \<Rightarrow> nat"
  failNode :: nat
  outputs :: "string list"

definition zero_node :: acNode where
  "zero_node = \<lparr>nextNode = (\<lambda>_. 0), failNode = 0, outputs = []\<rparr>"

text \<open>Phase 1: the path of a pattern, and its output.\<close>

fun add_path :: "bytes \<Rightarrow> nat \<Rightarrow> acNode list \<Rightarrow> nat \<times> acNode list" where
  "add_path [] cur ns = (cur, ns)"
| "add_path (b # bs) cur ns =
     (let n = nextNode (ns ! cur) b in
      if n = 0
      then let n' = length ns; ns1 = ns @ [zero_node] in
           add_path bs n' (ns1[cur := (ns1 ! cur)\<lparr>nextNode := (nextNode (ns1 ! cur))(b := n')\<rparr>])
      else add_path bs n ns)"

definition clean_pattern :: "(rune \<Rightarrow> rune) \<Rightarrow> string \<Rightarrow> bytes" where
  "clean_pattern ul p = to_lower ul (trim_space p)"

definition add_pattern :: "(rune \<Rightarrow> rune) \<Rightarrow> string \<Rightarrow> acNode list \<Rightarrow> acNode list" where
  "add_pattern ul p ns =
     (let cl = clean_pattern ul p in
      if cl = [] then ns
      else case add_path cl 0 ns of
        (cur, ns1) \<Rightarrow> ns1[cur := (ns1 ! cur)\<lparr>outputs := outputs (ns1 ! cur) @ [p]\<rparr>])"

text \<open>Phase 2: one byte of the node \<open>curr\<close>, whose failure state is \<open>fs\<close>.\<close>

definition complete_byte :: "nat \<Rightarrow> nat \<Rightarrow> char \<Rightarrow> acNode list \<times> nat list \<Rightarrow> acNode list \<times> nat list" where
  "complete_byte cur fs b st =
     (case st of (ns, queue) \<Rightarrow>
        let child = nextNode (ns ! cur) b in
        if child \<noteq> 0
        then let ns1 = ns[child := (ns ! child)\<lparr>failNode := nextNode (ns ! fs) b\<rparr>];
                 inherited = outputs (ns1 ! failNode (ns1 ! child));
                 ns2 = (if inherited \<noteq> []
                        then ns1[child := (ns1 ! child)\<lparr>outputs := outputs (ns1 ! child) @ inherited\<rparr>]
                        else ns1)
             in (ns2, queue @ [child])
        else (ns[cur := (ns ! cur)\<lparr>nextNode := (nextNode (ns ! cur))(b := nextNode (ns ! fs) b)\<rparr>], queue))"

definition all_bytes :: "char list" where "all_bytes = map char_of [0..<256]"

definition depth_one :: "char \<Rightarrow> acNode list \<times> nat list \<Rightarrow> acNode list \<times> nat list" where
  "depth_one b st =
     (case st of (ns, queue) \<Rightarrow>
        let child = nextNode (ns ! 0) b in
        if child \<noteq> 0 then (ns[child := (ns ! child)\<lparr>failNode := 0\<rparr>], queue @ [child]) else (ns, queue))"

text \<open>The loop over the queue; \<open>None\<close> if it did not end.\<close>

partial_function (option) bfs :: "acNode list \<Rightarrow> nat list \<Rightarrow> acNode list option" where
  "bfs ns queue =
     (case queue of
        [] \<Rightarrow> Some ns
      | cur # rest \<Rightarrow>
          (case fold (complete_byte cur (failNode (ns ! cur))) all_bytes (ns, rest) of
             (ns', queue') \<Rightarrow> bfs ns' queue'))"

declare bfs.simps [code]

definition NewAhoCorasick :: "(rune \<Rightarrow> rune) \<Rightarrow> string list \<Rightarrow> acNode list option" where
  "NewAhoCorasick ul patterns =
     (let ns = fold (add_pattern ul) patterns [zero_node] in
      case fold depth_one all_bytes (ns, []) of (ns', queue) \<Rightarrow> bfs ns' queue)"

fun search_from :: "acNode list \<Rightarrow> nat \<Rightarrow> bytes \<Rightarrow> string option" where
  "search_from ns cur [] = None"
| "search_from ns cur (c # cs) =
     (let cur' = nextNode (ns ! cur) (lower_byte c) in
      case outputs (ns ! cur') of
        p # _ \<Rightarrow> Some p
      | [] \<Rightarrow> search_from ns cur' cs)"

definition Search :: "acNode list \<Rightarrow> bytes \<Rightarrow> string option" where
  "Search ns text = search_from ns 0 text"

section \<open>Longest suffixes\<close>

text \<open>The labels \<open>D\<close> of a trie are the prefixes of its patterns.\<close>

fun lsuf :: "bytes set \<Rightarrow> bytes \<Rightarrow> bytes" where
  "lsuf D [] = []"
| "lsuf D (c # cs) = (if c # cs \<in> D then c # cs else lsuf D cs)"

definition prefix_closed :: "bytes set \<Rightarrow> bool" where
  "prefix_closed D \<longleftrightarrow> [] \<in> D \<and> (\<forall>u b. u @ [b] \<in> D \<longrightarrow> u \<in> D)"

lemma lsuf_mem: "[] \<in> D \<Longrightarrow> lsuf D u \<in> D"
  by (induction u) auto

lemma lsuf_suffix: "suffix (lsuf D u) u"
  by (induction u) (auto simp: suffix_Cons)

lemma lsuf_id: "u \<in> D \<Longrightarrow> lsuf D u = u"
  by (cases u) auto

lemma lsuf_length: "length (lsuf D u) \<le> length u"
  using lsuf_suffix suffix_length_le by blast

lemma lsuf_longest: "v \<in> D \<Longrightarrow> suffix v u \<Longrightarrow> suffix v (lsuf D u)"
  by (induction u) (auto simp: suffix_Cons)

lemma lsuf_snoc:
  assumes "prefix_closed D"
  shows "lsuf D (lsuf D u @ [b]) = lsuf D (u @ [b])"
proof (induction u)
  case (Cons c u)
  show ?case
  proof (cases "c # u \<in> D")
    case False
    then have "(c # u) @ [b] \<notin> D" using assms unfolding prefix_closed_def by blast
    with False Cons show ?thesis by simp
  qed simp
qed simp

definition failw :: "bytes set \<Rightarrow> bytes \<Rightarrow> bytes" where
  "failw D u = lsuf D (tl u)"

lemma failw_length: "u \<noteq> [] \<Longrightarrow> length (failw D u) < length u"
  using lsuf_length[of D "tl u"] by (cases u) (auto simp: failw_def)

lemma failw_mem: "prefix_closed D \<Longrightarrow> failw D u \<in> D"
  by (simp add: failw_def lsuf_mem prefix_closed_def)

lemma failw_snoc: "prefix_closed D \<Longrightarrow> u \<noteq> [] \<Longrightarrow> lsuf D (failw D u @ [b]) = failw D (u @ [b])"
  by (simp add: failw_def lsuf_snoc)

lemma goto_fail: "u \<noteq> [] \<Longrightarrow> u @ [b] \<notin> D \<Longrightarrow> lsuf D (u @ [b]) = failw D (u @ [b])"
  by (cases u) (auto simp: failw_def)

text \<open>Outputs along the failure links.\<close>

function outw :: "bytes set \<Rightarrow> (bytes \<Rightarrow> string list) \<Rightarrow> bytes \<Rightarrow> string list" where
  "outw D own u = (if u = [] then [] else own u @ outw D own (failw D u))"
  by pat_completeness auto
termination by (relation "measure (\<lambda>(D, own, u). length u)") (auto intro: failw_length)

declare outw.simps [simp del]

lemma outw_Nil [simp]: "outw D own [] = []"
  by (simp add: outw.simps)

lemma outw_set:
  assumes "prefix_closed D" and "\<And>v. own v \<noteq> [] \<Longrightarrow> v \<in> D"
  shows "u \<in> D \<Longrightarrow> p \<in> set (outw D own u) \<longleftrightarrow> (\<exists>v. v \<noteq> [] \<and> suffix v u \<and> p \<in> set (own v))"
proof (induction "length u" arbitrary: u rule: less_induct)
  case less
  show ?case
  proof (cases "u = []")
    case False
    have "p \<in> set (outw D own (failw D u)) \<longleftrightarrow> (\<exists>v. v \<noteq> [] \<and> suffix v (failw D u) \<and> p \<in> set (own v))"
      using less.hyps[OF failw_length[OF False]] failw_mem[OF assms(1)] by blast
    moreover have "suffix v (failw D u) \<longleftrightarrow> suffix v (tl u)" if "p \<in> set (own v)" for v
    proof -
      from that have "own v \<noteq> []" by auto
      with assms(2) have "v \<in> D" .
      then show ?thesis
        using lsuf_longest[of v D "tl u"] lsuf_suffix[of D "tl u"] suffix_order.trans by (auto simp: failw_def)
    qed
    moreover have "suffix v u \<longleftrightarrow> v = u \<or> suffix v (tl u)" for v
      using False by (cases u) (auto simp: suffix_Cons)
    ultimately show ?thesis using False by (subst outw.simps) auto
  qed simp
qed

section \<open>Positions of labels\<close>

definition pos_of :: "bytes list \<Rightarrow> bytes \<Rightarrow> nat" where
  "pos_of L u = length (takeWhile (\<lambda>v. v \<noteq> u) L)"

lemma pos_of_less: "u \<in> set L \<Longrightarrow> pos_of L u < length L"
  by (induction L) (auto simp: pos_of_def)

lemma pos_of_nth: "u \<in> set L \<Longrightarrow> L ! pos_of L u = u"
  by (induction L) (auto simp: pos_of_def)

lemma pos_of_inject: "u \<in> set L \<Longrightarrow> v \<in> set L \<Longrightarrow> pos_of L u = pos_of L v \<longleftrightarrow> u = v"
  using pos_of_nth by metis

lemma pos_of_append: "u \<in> set L \<Longrightarrow> pos_of (L @ M) u = pos_of L u"
  by (induction L) (auto simp: pos_of_def)

lemma pos_of_new: "u \<notin> set L \<Longrightarrow> pos_of (L @ [u]) u = length L"
  by (induction L) (auto simp: pos_of_def)

definition labels_ok :: "bytes list \<Rightarrow> bool" where
  "labels_ok L \<longleftrightarrow> prefix_closed (set L) \<and> L \<noteq> [] \<and> hd L = [] \<and> distinct L"

lemma labels_root: "labels_ok L \<Longrightarrow> [] \<in> set L" "labels_ok L \<Longrightarrow> pos_of L [] = 0"
  by (cases L; auto simp: labels_ok_def pos_of_def)+

lemma pos_of_zero: "labels_ok L \<Longrightarrow> u \<in> set L \<Longrightarrow> pos_of L u = 0 \<longleftrightarrow> u = []"
  using pos_of_inject[of u L "[]"] labels_root[of L] by auto

lemma nth_update_pos:
  "u \<in> set L \<Longrightarrow> v \<in> set L \<Longrightarrow> length ns = length L \<Longrightarrow>
     (ns[pos_of L u := x]) ! pos_of L v = (if u = v then x else ns ! pos_of L v)"
  using pos_of_inject[of u L v] pos_of_less[of u L] by auto

section \<open>Phase 1 builds the trie\<close>

definition trie_next :: "bytes list \<Rightarrow> bytes \<Rightarrow> char \<Rightarrow> nat" where
  "trie_next L u b = (if u @ [b] \<in> set L then pos_of L (u @ [b]) else 0)"

definition trie_node :: "bytes list \<Rightarrow> (bytes \<Rightarrow> string list) \<Rightarrow> bytes \<Rightarrow> acNode" where
  "trie_node L own u = \<lparr>nextNode = trie_next L u, failNode = 0, outputs = own u\<rparr>"

definition trie_nodes :: "bytes list \<Rightarrow> (bytes \<Rightarrow> string list) \<Rightarrow> acNode list \<Rightarrow> bool" where
  "trie_nodes L own ns \<longleftrightarrow> labels_ok L \<and> length ns = length L \<and> (\<forall>v. own v \<noteq> [] \<longrightarrow> v \<in> set L) \<and>
     (\<forall>u \<in> set L. ns ! pos_of L u = trie_node L own u)"

lemma trie_next_zero: "labels_ok L \<Longrightarrow> trie_next L u b = 0 \<longleftrightarrow> u @ [b] \<notin> set L"
  using pos_of_zero[of L "u @ [b]"] by (simp add: trie_next_def)

lemma labels_extend:
  assumes "labels_ok L" and "u \<in> set L" and "u @ [b] \<notin> set L"
  shows "labels_ok (L @ [u @ [b]])"
  using assms by (auto simp: labels_ok_def prefix_closed_def)

lemma trie_extend:
  assumes "trie_nodes L own ns" and "u \<in> set L" and "u @ [b] \<notin> set L"
  shows "trie_nodes (L @ [u @ [b]]) own
    ((ns @ [zero_node])[pos_of L u := ((ns @ [zero_node]) ! pos_of L u)
       \<lparr>nextNode := (nextNode ((ns @ [zero_node]) ! pos_of L u))(b := length ns)\<rparr>])"
    (is "trie_nodes ?L own ?ns")
proof -
  have L: "labels_ok L" and len: "length ns = length L" and own: "\<forall>v. own v \<noteq> [] \<longrightarrow> v \<in> set L"
    and nd: "\<And>v. v \<in> set L \<Longrightarrow> ns ! pos_of L v = trie_node L own v"
    using assms(1) by (auto simp: trie_nodes_def)
  have pu: "pos_of L u < length ns" using pos_of_less[OF assms(2)] len by simp
  have closed: "v @ [c] \<in> set L \<Longrightarrow> v \<in> set L" for v c
    using L by (auto simp: labels_ok_def prefix_closed_def)
  have "?ns ! pos_of ?L v = trie_node ?L own v" if v: "v \<in> set ?L" for v
  proof (cases "v \<in> set L")
    case True
    have nx: "trie_next ?L v c = (if v = u \<and> c = b then length L else trie_next L v c)" for c
      using assms(3) by (auto simp: trie_next_def pos_of_append pos_of_new)
    show ?thesis
    proof (cases "v = u")
      case True
      with nd[OF assms(2)] nx pu len show ?thesis
        by (auto simp: trie_node_def pos_of_append assms(2) nth_append fun_eq_iff)
    next
      case False
      with True nd[OF True] nx pu len pos_of_inject[OF assms(2) True] pos_of_less[OF True] show ?thesis
        by (auto simp: trie_node_def pos_of_append nth_append fun_eq_iff)
    qed
  next
    case False
    with v have v: "v = u @ [b]" by simp
    have "trie_next ?L v c = 0" for c
      using False closed[of v c] v by (auto simp: trie_next_def)
    moreover have "own v = []" using own False by auto
    ultimately show ?thesis
      using v pu len pos_of_new[OF assms(3)] by (simp add: trie_node_def zero_node_def fun_eq_iff nth_append)
  qed
  then show ?thesis using labels_extend[OF L assms(2,3)] own len by (auto simp: trie_nodes_def)
qed

lemma add_path_trie:
  "trie_nodes L own ns \<Longrightarrow> u \<in> set L \<Longrightarrow> add_path bs (pos_of L u) ns = (c, ns') \<Longrightarrow>
     \<exists>M. trie_nodes (L @ M) own ns' \<and> u @ bs \<in> set (L @ M) \<and> c = pos_of (L @ M) (u @ bs)"
proof (induction bs arbitrary: u L ns)
  case Nil
  then show ?case by (intro exI[of _ "[]"]) auto
next
  case (Cons b bs)
  have L: "labels_ok L" and nd: "ns ! pos_of L u = trie_node L own u"
    using Cons.prems(1,2) by (auto simp: trie_nodes_def)
  show ?case
  proof (cases "u @ [b] \<in> set L")
    case True
    then have "add_path bs (pos_of L (u @ [b])) ns = (c, ns')"
      using Cons.prems(3) nd trie_next_zero[OF L, of u b] by (simp add: trie_node_def trie_next_def)
    from Cons.IH[OF Cons.prems(1) True this] show ?thesis by simp
  next
    case False
    note ext = trie_extend[OF Cons.prems(1,2) False]
    have "length ns = pos_of (L @ [u @ [b]]) (u @ [b])"
      using Cons.prems(1) pos_of_new[OF False] by (simp add: trie_nodes_def)
    then have "add_path bs (pos_of (L @ [u @ [b]]) (u @ [b]))
      ((ns @ [zero_node])[pos_of L u := ((ns @ [zero_node]) ! pos_of L u)
         \<lparr>nextNode := (nextNode ((ns @ [zero_node]) ! pos_of L u))(b := length ns)\<rparr>]) = (c, ns')"
      using Cons.prems(3) nd False by (simp add: trie_node_def trie_next_def Let_def)
    from Cons.IH[OF ext _ this] obtain M where
      "trie_nodes ((L @ [u @ [b]]) @ M) own ns'" "(u @ [b]) @ bs \<in> set ((L @ [u @ [b]]) @ M)"
      "c = pos_of ((L @ [u @ [b]]) @ M) ((u @ [b]) @ bs)" by auto
    then show ?thesis by (intro exI[of _ "(u @ [b]) # M"]) simp
  qed
qed

definition own_of :: "(rune \<Rightarrow> rune) \<Rightarrow> string list \<Rightarrow> bytes \<Rightarrow> string list" where
  "own_of ul ps u = (if u = [] then [] else filter (\<lambda>p. clean_pattern ul p = u) ps)"

lemma trie_output:
  assumes "trie_nodes L own ns" and "u \<in> set L"
  shows "trie_nodes L (own(u := own u @ [p]))
    (ns[pos_of L u := (ns ! pos_of L u)\<lparr>outputs := outputs (ns ! pos_of L u) @ [p]\<rparr>])"
  using assms by (auto simp: trie_nodes_def nth_update_pos trie_node_def)

lemma add_pattern_trie:
  assumes "trie_nodes L (own_of ul ps) ns"
  shows "\<exists>M. trie_nodes (L @ M) (own_of ul (ps @ [p])) (add_pattern ul p ns)"
proof (cases "clean_pattern ul p = []")
  case True
  then have "own_of ul (ps @ [p]) = own_of ul ps" by (auto simp: own_of_def)
  with assms True show ?thesis by (intro exI[of _ "[]"]) (simp add: add_pattern_def)
next
  case False
  let ?cl = "clean_pattern ul p"
  have L: "labels_ok L" using assms by (simp add: trie_nodes_def)
  obtain c ns1 where a: "add_path ?cl 0 ns = (c, ns1)" by fastforce
  then obtain M where M: "trie_nodes (L @ M) (own_of ul ps) ns1" "?cl \<in> set (L @ M)" "c = pos_of (L @ M) ?cl"
    using add_path_trie[OF assms, of "[]" ?cl c ns1] labels_root[OF L] by auto
  moreover have "(own_of ul ps)(?cl := own_of ul ps ?cl @ [p]) = own_of ul (ps @ [p])"
    using False by (auto simp: own_of_def fun_eq_iff)
  ultimately show ?thesis
    using trie_output[OF M(1,2), of p] a False by (intro exI[of _ M]) (simp add: add_pattern_def Let_def)
qed

lemma trie_built: "\<exists>L. trie_nodes L (own_of ul ps) (fold (add_pattern ul) ps [zero_node])"
proof (induction ps rule: rev_induct)
  case Nil
  have "trie_nodes [[]] (own_of ul []) [zero_node]"
    by (auto simp: trie_nodes_def labels_ok_def prefix_closed_def own_of_def pos_of_def trie_node_def
        trie_next_def zero_node_def fun_eq_iff)
  then show ?case by auto
next
  case (snoc p ps)
  then show ?case using add_pattern_trie[of _ ul ps _ p] by fastforce
qed

section \<open>Phase 2 completes the automaton\<close>

text \<open>A node when the search has left it, when it waits in the queue, and while its bytes \<open>B\<close> are done.\<close>

definition done_node :: "bytes list \<Rightarrow> (bytes \<Rightarrow> string list) \<Rightarrow> bytes \<Rightarrow> acNode" where
  "done_node L own u = \<lparr>nextNode = (\<lambda>b. pos_of L (lsuf (set L) (u @ [b]))),
     failNode = pos_of L (failw (set L) u), outputs = outw (set L) own u\<rparr>"

definition queued_node :: "bytes list \<Rightarrow> (bytes \<Rightarrow> string list) \<Rightarrow> bytes \<Rightarrow> acNode" where
  "queued_node L own u = \<lparr>nextNode = trie_next L u,
     failNode = pos_of L (failw (set L) u), outputs = outw (set L) own u\<rparr>"

definition half_node :: "bytes list \<Rightarrow> (bytes \<Rightarrow> string list) \<Rightarrow> bytes \<Rightarrow> char list \<Rightarrow> acNode" where
  "half_node L own u B = \<lparr>nextNode = (\<lambda>b. if b \<in> set B then pos_of L (lsuf (set L) (u @ [b])) else trie_next L u b),
     failNode = pos_of L (failw (set L) u), outputs = outw (set L) own u\<rparr>"

definition kids :: "bytes list \<Rightarrow> bytes \<Rightarrow> char list \<Rightarrow> bytes list" where
  "kids L u B = map (\<lambda>b. u @ [b]) (filter (\<lambda>b. u @ [b] \<in> set L) B)"

definition inner_inv :: "bytes list \<Rightarrow> (bytes \<Rightarrow> string list) \<Rightarrow> bytes set \<Rightarrow> bytes \<Rightarrow> bytes set \<Rightarrow> char list \<Rightarrow>
    acNode list \<Rightarrow> bool" where
  "inner_inv L own P u W B ns \<longleftrightarrow> length ns = length L \<and>
     (\<forall>v \<in> set L. ns ! pos_of L v =
        (if v \<in> P then done_node L own v
         else if v = u then half_node L own u B
         else if v \<in> W \<or> v \<in> set (kids L u B) then queued_node L own v
         else trie_node L own v))"

text \<open>Where the search stands: \<open>u\<close> has just left the queue, of which \<open>W\<close> remains.\<close>

definition frontier :: "bytes list \<Rightarrow> bytes set \<Rightarrow> bytes \<Rightarrow> bytes set \<Rightarrow> bool" where
  "frontier L P u W \<longleftrightarrow> u \<in> set L \<and> u \<noteq> [] \<and> u \<notin> P \<and> P \<inter> W = {} \<and> u \<notin> W \<and>
     (\<forall>b. u @ [b] \<in> set L \<longrightarrow> u @ [b] \<notin> P \<and> u @ [b] \<notin> W) \<and>
     (\<forall>v \<in> set L. (length v < length u \<longrightarrow> v \<in> P) \<and> (length v = length u \<longrightarrow> v \<in> P \<or> v = u \<or> v \<in> W))"

lemma complete_byte_step:
  assumes L: "labels_ok L" and f: "frontier L P u W" and i: "inner_inv L own P u W B ns" and b: "b \<notin> set B"
  shows "\<exists>ns'. complete_byte (pos_of L u) (pos_of L (failw (set L) u)) b (ns, q) =
      (ns', q @ map (pos_of L) (kids L u [b])) \<and> inner_inv L own P u W (B @ [b]) ns'"
proof -
  let ?D = "set L"
  have pc: "prefix_closed ?D" using L by (simp add: labels_ok_def)
  have u: "u \<in> ?D" "u \<noteq> []" "u \<notin> P" using f by (auto simp: frontier_def)
  have len: "length ns = length L" using i by (simp add: inner_inv_def)
  have nu: "ns ! pos_of L u = half_node L own u B" using i u by (simp add: inner_inv_def)
  have "failw ?D u \<in> P" using f failw_length[OF u(2)] failw_mem[OF pc] by (auto simp: frontier_def)
  then have nf: "ns ! pos_of L (failw ?D u) = done_node L own (failw ?D u)"
    using i failw_mem[OF pc, of u] by (simp add: inner_inv_def)
  then have go: "nextNode (ns ! pos_of L (failw ?D u)) b = pos_of L (failw ?D (u @ [b]))"
    using failw_snoc[OF pc u(2)] by (simp add: done_node_def)
  have ch: "nextNode (ns ! pos_of L u) b = trie_next L u b" using nu b by (simp add: half_node_def)
  show ?thesis
  proof (cases "u @ [b] \<in> ?D")
    case True
    let ?c = "u @ [b]" and ?f = "failw ?D (u @ [b])"
    have c: "?c \<notin> P" "?c \<notin> W" "?c \<noteq> u" "?c \<notin> set (kids L u B)"
      using f True b by (auto simp: frontier_def kids_def)
    then have nc: "ns ! pos_of L ?c = trie_node L own ?c" using i True by (simp add: inner_inv_def)
    have fl: "?f \<in> ?D" "length ?f \<le> length u" using failw_mem[OF pc] failw_length[of ?c ?D] by auto
    then have "?f \<in> P \<or> ?f = u \<or> ?f \<in> W" using f by (cases "length ?f = length u") (auto simp: frontier_def)
    then have of: "outputs (ns ! pos_of L ?f) = outw ?D own ?f"
      using i fl(1) by (auto simp: inner_inv_def done_node_def half_node_def queued_node_def)
    have fc: "?f \<noteq> ?c" using fl(2) by auto
    have tn: "trie_next L u b = pos_of L ?c" "trie_next L u b \<noteq> 0"
      using True trie_next_zero[OF L, of u b] by (simp_all add: trie_next_def)
    have out: "outw ?D own ?c = own ?c @ outw ?D own ?f" by (subst outw.simps) simp
    have "complete_byte (pos_of L u) (pos_of L (failw ?D u)) b (ns, q) =
        (ns[pos_of L ?c := queued_node L own ?c], q @ [pos_of L ?c])"
      using tn ch go nc of out fc True fl(1) len
      by (auto simp: complete_byte_def Let_def nth_update_pos trie_node_def queued_node_def)
    moreover have "inner_inv L own P u W (B @ [b]) (ns[pos_of L ?c := queued_node L own ?c])"
      unfolding inner_inv_def
    proof (intro conjI ballI)
      fix v assume v: "v \<in> ?D"
      have h: "half_node L own u (B @ [b]) = half_node L own u B"
        using tn(1) lsuf_id[OF True] by (auto simp: half_node_def fun_eq_iff)
      have k: "set (kids L u (B @ [b])) = insert ?c (set (kids L u B))" using True by (auto simp: kids_def)
      show "ns[pos_of L ?c := queued_node L own ?c] ! pos_of L v =
        (if v \<in> P then done_node L own v else if v = u then half_node L own u (B @ [b])
         else if v \<in> W \<or> v \<in> set (kids L u (B @ [b])) then queued_node L own v else trie_node L own v)"
        using i v c True len unfolding nth_update_pos[OF True v len] h k inner_inv_def by auto
    qed (simp add: len)
    moreover have "kids L u [b] = [?c]" using True by (simp add: kids_def)
    ultimately show ?thesis by auto
  next
    case False
    have tn: "trie_next L u b = 0" using False by (simp add: trie_next_def)
    let ?n = "(ns ! pos_of L u)\<lparr>nextNode := (nextNode (ns ! pos_of L u))(b := pos_of L (failw ?D (u @ [b])))\<rparr>"
    have "complete_byte (pos_of L u) (pos_of L (failw ?D u)) b (ns, q) = (ns[pos_of L u := ?n], q)"
      using ch tn go by (simp add: complete_byte_def)
    moreover have "?n = half_node L own u (B @ [b])"
      using nu goto_fail[OF u(2) False] by (auto simp: half_node_def fun_eq_iff)
    moreover have "inner_inv L own P u W (B @ [b]) (ns[pos_of L u := half_node L own u (B @ [b])])"
      unfolding inner_inv_def
    proof (intro conjI ballI)
      fix v assume v: "v \<in> ?D"
      have k: "kids L u (B @ [b]) = kids L u B" using False by (simp add: kids_def)
      show "ns[pos_of L u := half_node L own u (B @ [b])] ! pos_of L v =
        (if v \<in> P then done_node L own v else if v = u then half_node L own u (B @ [b])
         else if v \<in> W \<or> v \<in> set (kids L u (B @ [b])) then queued_node L own v else trie_node L own v)"
        using i v u unfolding nth_update_pos[OF u(1) v len] k inner_inv_def by auto
    qed (simp add: len)
    moreover have "kids L u [b] = []" using False by (simp add: kids_def)
    ultimately show ?thesis by auto
  qed
qed

lemma complete_bytes:
  assumes "labels_ok L" and "frontier L P u W"
  shows "inner_inv L own P u W B ns \<Longrightarrow> distinct (B @ bs) \<Longrightarrow>
    \<exists>ns'. fold (complete_byte (pos_of L u) (pos_of L (failw (set L) u))) bs (ns, q) =
      (ns', q @ map (pos_of L) (kids L u bs)) \<and> inner_inv L own P u W (B @ bs) ns'"
proof (induction bs arbitrary: B ns q)
  case (Cons b bs)
  from complete_byte_step[OF assms Cons.prems(1), of b q] Cons.prems(2) obtain ns1 where
    1: "complete_byte (pos_of L u) (pos_of L (failw (set L) u)) b (ns, q) =
      (ns1, q @ map (pos_of L) (kids L u [b]))" "inner_inv L own P u W (B @ [b]) ns1" by auto
  from Cons.IH[OF 1(2), of "q @ map (pos_of L) (kids L u [b])"] Cons.prems(2) 1(1) show ?case
    by (auto simp: kids_def)
qed (auto simp: kids_def)

definition outer_inv :: "bytes list \<Rightarrow> (bytes \<Rightarrow> string list) \<Rightarrow> bytes set \<Rightarrow> bytes list \<Rightarrow> acNode list \<Rightarrow> bool" where
  "outer_inv L own P Q ns \<longleftrightarrow> length ns = length L \<and> [] \<in> P \<and> P \<subseteq> set L \<and> set Q \<subseteq> set L \<and>
     P \<inter> set Q = {} \<and> distinct Q \<and>
     (\<forall>u b. u @ [b] \<in> set L \<longrightarrow> (u @ [b] \<in> P \<union> set Q \<longleftrightarrow> u \<in> P)) \<and>
     sorted (map length Q) \<and> (\<forall>q \<in> set Q. length q \<le> Suc (length (hd Q))) \<and>
     (\<forall>v \<in> set L. ns ! pos_of L v =
        (if v \<in> P then done_node L own v
         else if v \<in> set Q then queued_node L own v else trie_node L own v))"

lemma waiting_ancestor:
  assumes "labels_ok L" and "outer_inv L own P Q ns"
  shows "v \<in> set L \<Longrightarrow> v \<notin> P \<Longrightarrow> \<exists>a \<in> set Q. prefix a v"
proof (induction v rule: rev_induct)
  case Nil
  then show ?case using assms(2) by (simp add: outer_inv_def)
next
  case (snoc b v)
  have v: "v \<in> set L" using snoc.prems assms(1) by (auto simp: labels_ok_def prefix_closed_def)
  show ?case
  proof (cases "v \<in> P")
    case True
    then have "v @ [b] \<in> set Q" using snoc.prems assms(2) unfolding outer_inv_def by blast
    then show ?thesis by auto
  next
    case False
    with snoc.IH v obtain a where "a \<in> set Q" "prefix a v" by blast
    then show ?thesis by (meson prefix_prefix)
  qed
qed

lemma outer_frontier:
  assumes "labels_ok L" and "outer_inv L own P (u # W) ns"
  shows "frontier L P u (set W)"
proof -
  note i = assms(2)[unfolded outer_inv_def]
  have kid: "u @ [b] \<notin> P \<and> u @ [b] \<notin> set W" if "u @ [b] \<in> set L" for b
  proof -
    have "u \<notin> P" using i by auto
    with i that have "u @ [b] \<notin> P \<union> set (u # W)" by blast
    then show ?thesis by auto
  qed
  have len: "(length v < length u \<longrightarrow> v \<in> P) \<and> (length v = length u \<longrightarrow> v \<in> P \<or> v = u \<or> v \<in> set W)"
    if v: "v \<in> set L" for v
  proof (cases "v \<in> P")
    case False
    from waiting_ancestor[OF assms v False] obtain a where a: "a \<in> set (u # W)" "prefix a v" by blast
    have "length u \<le> length a" using a(1) i by auto
    moreover have "length a \<le> length v" using a(2) by (rule prefix_length_le)
    moreover have "length a = length v \<Longrightarrow> a = v" using a(2) by (auto simp: prefix_def)
    ultimately show ?thesis using a(1) by auto
  qed simp
  show ?thesis using i kid len unfolding frontier_def by auto
qed

lemma all_bytes_set [simp]: "set all_bytes = UNIV" "distinct all_bytes"
proof -
  have "c \<in> set all_bytes" for c
    unfolding all_bytes_def by (auto intro!: image_eqI[of c char_of "byte c"])
  then show "set all_bytes = UNIV" by blast
  show "distinct all_bytes"
    unfolding all_bytes_def distinct_map by (auto simp: inj_on_def)
qed

lemma sorted_constant: "\<forall>x \<in> set xs. f x = c \<Longrightarrow> sorted (map f xs)"
  by (induction xs) auto

lemma outer_step:
  assumes L: "labels_ok L" and o: "outer_inv L own P (u # W) ns"
  shows "\<exists>ns'. bfs ns (map (pos_of L) (u # W)) = bfs ns' (map (pos_of L) (W @ kids L u all_bytes)) \<and>
    outer_inv L own (insert u P) (W @ kids L u all_bytes) ns'"
proof -
  note i = o[unfolded outer_inv_def] and fr = outer_frontier[OF L o]
  have u: "u \<in> set L" "u \<notin> P" "u \<notin> set W" using i by auto
  have "half_node L own u [] = queued_node L own u" by (simp add: half_node_def queued_node_def)
  then have "inner_inv L own P u (set W) [] ns"
    using i unfolding inner_inv_def by (auto simp: kids_def)
  from complete_bytes[OF L fr this, of all_bytes "map (pos_of L) W"] obtain ns' where
    run: "fold (complete_byte (pos_of L u) (pos_of L (failw (set L) u))) all_bytes (ns, map (pos_of L) W) =
      (ns', map (pos_of L) W @ map (pos_of L) (kids L u all_bytes))"
    and inner: "inner_inv L own P u (set W) all_bytes ns'" by auto
  have "failNode (ns ! pos_of L u) = pos_of L (failw (set L) u)"
    using i u by (auto simp: queued_node_def)
  then have b: "bfs ns (map (pos_of L) (u # W)) = bfs ns' (map (pos_of L) (W @ kids L u all_bytes))"
    using run by (subst bfs.simps) simp
  let ?K = "kids L u all_bytes"
  have K: "set ?K = {u @ [b] | b. u @ [b] \<in> set L}" "distinct ?K"
    by (auto simp: kids_def distinct_map inj_on_def)
  have disj: "insert u P \<inter> set (W @ ?K) = {}" "distinct (W @ ?K)"
    using fr i u K by (auto simp: frontier_def)
  have tree: "w @ [b] \<in> insert u P \<union> set (W @ ?K) \<longleftrightarrow> w \<in> insert u P" if "w @ [b] \<in> set L" for w b
  proof (cases "w = u")
    case False
    then have "w @ [b] \<in> insert u P \<union> set (W @ ?K) \<longleftrightarrow> w @ [b] \<in> P \<union> set (u # W)" using K by auto
    with i that False show ?thesis by (metis insertE insertI2)
  qed (use K that in auto)
  have lens: "\<forall>q \<in> set W. length u \<le> length q \<and> length q \<le> Suc (length u)" "\<forall>q \<in> set ?K. length q = Suc (length u)"
    using i K by auto
  have srt: "sorted (map length (W @ ?K))"
  proof -
    have "sorted (map length ?K)" using lens(2) by (rule sorted_constant)
    then show ?thesis using i lens by (auto simp: sorted_append)
  qed
  have bound: "length q \<le> Suc (length (hd (W @ ?K)))" if "q \<in> set (W @ ?K)" for q
  proof -
    have "length u \<le> length (hd (W @ ?K))"
      using that lens by (metis Suc_leD UnE hd_in_set list.set_sel(1) order_refl set_append empty_iff list.set(1))
    moreover have "length q \<le> Suc (length u)" using that lens by auto
    ultimately show ?thesis by simp
  qed
  have "half_node L own u all_bytes = done_node L own u" by (simp add: half_node_def done_node_def)
  then have nodes: "ns' ! pos_of L v = (if v \<in> insert u P then done_node L own v
       else if v \<in> set (W @ ?K) then queued_node L own v else trie_node L own v)" if "v \<in> set L" for v
    using inner that unfolding inner_inv_def by auto
  have "length ns' = length L" using inner by (simp add: inner_inv_def)
  then have "outer_inv L own (insert u P) (W @ ?K) ns'"
    unfolding outer_inv_def using i u K(1) disj tree srt bound nodes by (intro conjI) auto
  with b show ?thesis by blast
qed

lemma bfs_completes:
  assumes L: "labels_ok L"
  shows "outer_inv L own P Q ns \<Longrightarrow>
    \<exists>ns'. bfs ns (map (pos_of L) Q) = Some ns' \<and> (\<forall>v \<in> set L. ns' ! pos_of L v = done_node L own v)"
proof (induction "card (set L - P)" arbitrary: P Q ns rule: less_induct)
  case less
  show ?case
  proof (cases Q)
    case Nil
    have "v \<in> P" if "v \<in> set L" for v
      using waiting_ancestor[OF L less.prems that] Nil by auto
    with less.prems Nil show ?thesis by (subst bfs.simps) (auto simp: outer_inv_def)
  next
    case (Cons u W)
    with outer_step[OF L, of own P u W ns] less.prems obtain ns1 where
      1: "bfs ns (map (pos_of L) Q) = bfs ns1 (map (pos_of L) (W @ kids L u all_bytes))"
        "outer_inv L own (insert u P) (W @ kids L u all_bytes) ns1" by blast
    have "u \<in> set L - P" using less.prems Cons by (auto simp: outer_inv_def)
    then have "card (set L - insert u P) < card (set L - P)"
      by (intro psubset_card_mono) auto
    from less.hyps[OF this 1(2)] 1(1) show ?thesis by simp
  qed
qed

section \<open>Start of the search\<close>

lemma depth_one_step:
  assumes "trie_nodes L own ns"
  shows "depth_one b (ns, q) = (ns, q @ map (pos_of L) (kids L [] [b]))"
proof -
  have L: "labels_ok L" using assms by (simp add: trie_nodes_def)
  have root: "ns ! 0 = trie_node L own []"
    using assms labels_root[OF L] by (metis trie_nodes_def)
  show ?thesis
  proof (cases "[b] \<in> set L")
    case True
    have "ns ! pos_of L [b] = trie_node L own [b]" using assms True by (simp add: trie_nodes_def)
    then have "(ns ! pos_of L [b])\<lparr>failNode := 0\<rparr> = ns ! pos_of L [b]" by (simp add: trie_node_def)
    then have "ns[pos_of L [b] := (ns ! pos_of L [b])\<lparr>failNode := 0\<rparr>] = ns" by simp
    with True root trie_next_zero[OF L, of "[]" b] show ?thesis
      by (simp add: depth_one_def trie_node_def trie_next_def kids_def Let_def)
  next
    case False
    with root show ?thesis by (simp add: depth_one_def trie_node_def trie_next_def kids_def)
  qed
qed

lemma depth_ones:
  "trie_nodes L own ns \<Longrightarrow> fold depth_one bs (ns, q) = (ns, q @ map (pos_of L) (kids L [] bs))"
  by (induction bs arbitrary: q) (auto simp: depth_one_step kids_def)

lemma start_inv:
  assumes t: "trie_nodes L own ns" and "own [] = []"
  shows "outer_inv L own {[]} (kids L [] all_bytes) ns"
proof -
  have L: "labels_ok L" using t by (simp add: trie_nodes_def)
  let ?Q = "kids L [] all_bytes"
  have Q: "set ?Q = {[b] | b. [b] \<in> set L}" "distinct ?Q"
    by (auto simp: kids_def distinct_map inj_on_def)
  have "trie_node L own [] = done_node L own []"
    using assms(2) labels_root[OF L] by (auto simp: trie_node_def done_node_def trie_next_def failw_def fun_eq_iff)
  moreover have "trie_node L own [b] = queued_node L own [b]" for b
    using labels_root[OF L] by (subst queued_node_def, subst outw.simps) (simp add: trie_node_def failw_def)
  ultimately have "\<forall>v \<in> set L. ns ! pos_of L v = (if v \<in> {[]} then done_node L own v
         else if v \<in> set ?Q then queued_node L own v else trie_node L own v)"
    using t Q by (auto simp: trie_nodes_def)
  moreover have "sorted (map length ?Q)" "\<forall>q \<in> set ?Q. length q \<le> Suc (length (hd ?Q))"
    using Q by (auto intro!: sorted_constant[of _ _ 1])
  ultimately show ?thesis
    unfolding outer_inv_def using t Q labels_root[OF L] by (intro conjI) (auto simp: trie_nodes_def)
qed

lemma automaton_built:
  "\<exists>ns L. NewAhoCorasick ul ps = Some ns \<and> labels_ok L \<and> (\<forall>v. own_of ul ps v \<noteq> [] \<longrightarrow> v \<in> set L) \<and>
     (\<forall>v \<in> set L. ns ! pos_of L v = done_node L (own_of ul ps) v)"
proof -
  let ?ns = "fold (add_pattern ul) ps [zero_node]"
  obtain L where t: "trie_nodes L (own_of ul ps) ?ns" using trie_built by blast
  then have L: "labels_ok L" and own: "\<forall>v. own_of ul ps v \<noteq> [] \<longrightarrow> v \<in> set L" by (auto simp: trie_nodes_def)
  from bfs_completes[OF L start_inv[OF t]] obtain ns where
    "bfs ?ns (map (pos_of L) (kids L [] all_bytes)) = Some ns"
    "\<forall>v \<in> set L. ns ! pos_of L v = done_node L (own_of ul ps) v" by (auto simp: own_of_def)
  then show ?thesis using L own depth_ones[OF t] by (auto simp: NewAhoCorasick_def Let_def)
qed

section \<open>The search\<close>

text \<open>The search with the outputs after every prefix of the text given.\<close>

fun first_output :: "(bytes \<Rightarrow> string list) \<Rightarrow> bytes \<Rightarrow> bytes \<Rightarrow> string option" where
  "first_output out t [] = None"
| "first_output out t (c # cs) =
     (let t' = t @ [lower_byte c] in
      case out t' of p # _ \<Rightarrow> Some p | [] \<Rightarrow> first_output out t' cs)"

lemma search_from_first_output:
  assumes L: "labels_ok L" and nodes: "\<forall>v \<in> set L. ns ! pos_of L v = done_node L own v"
  shows "search_from ns (pos_of L (lsuf (set L) t)) s = first_output (outw (set L) own \<circ> lsuf (set L)) t s"
proof (induction s arbitrary: t)
  case (Cons c s)
  let ?D = "set L" and ?t = "t @ [lower_byte c]"
  have pc: "prefix_closed ?D" using L by (simp add: labels_ok_def)
  then have mem: "lsuf ?D t \<in> ?D" "lsuf ?D ?t \<in> ?D" by (simp_all add: lsuf_mem prefix_closed_def)
  have go: "nextNode (ns ! pos_of L (lsuf ?D t)) (lower_byte c) = pos_of L (lsuf ?D ?t)"
    using nodes mem(1) lsuf_snoc[OF pc, of t] by (simp add: done_node_def)
  have out: "outputs (ns ! pos_of L (lsuf ?D ?t)) = outw ?D own (lsuf ?D ?t)"
    using nodes mem(2) by (simp add: done_node_def)
  show ?case using Cons.IH[of ?t] go out by (simp add: Let_def comp_def cong: list.case_cong)
qed simp

lemma first_output_spec:
  "case first_output out t s of
     None \<Rightarrow> \<forall>u. u \<noteq> [] \<and> prefix u s \<longrightarrow> out (t @ map lower_byte u) = []
   | Some p \<Rightarrow> \<exists>u. u \<noteq> [] \<and> prefix u s \<and> p \<in> set (out (t @ map lower_byte u)) \<and>
       (\<forall>w. w \<noteq> [] \<and> prefix w (butlast u) \<longrightarrow> out (t @ map lower_byte w) = [])"
proof (induction s arbitrary: t)
  case (Cons c s)
  let ?t = "t @ [lower_byte c]"
  show ?case
  proof (cases "out ?t")
    case (Cons p ps)
    then show ?thesis by (auto intro!: exI[of _ "[c]"])
  next
    case Nil
    show ?thesis
    proof (cases "first_output out ?t s")
      case None
      have "out (t @ map lower_byte u) = []" if "u \<noteq> []" "prefix u (c # s)" for u
      proof -
        from that obtain w where "u = c # w" "prefix w s" by (auto simp: prefix_Cons)
        with None Cons.IH[of ?t] Nil show ?thesis by (cases "w = []") auto
      qed
      with None Nil show ?thesis by simp
    next
      case (Some p)
      with Cons.IH[of ?t] obtain u where u: "u \<noteq> []" "prefix u s" "p \<in> set (out (?t @ map lower_byte u))"
        "\<forall>w. w \<noteq> [] \<and> prefix w (butlast u) \<longrightarrow> out (?t @ map lower_byte w) = []" by auto
      have "out (t @ map lower_byte w) = []" if w: "w \<noteq> []" "prefix w (butlast (c # u))" for w
      proof -
        from w u(1) obtain w' where "w = c # w'" "prefix w' (butlast u)" by (auto simp: prefix_Cons)
        with u(4) Nil show ?thesis by (cases "w' = []") auto
      qed
      with u(1-3) Some Nil show ?thesis by (auto intro!: exI[of _ "c # u"])
    qed
  qed
qed simp

text \<open>A pattern occurs in a text that the search has put into lower case.\<close>

definition occurs :: "(rune \<Rightarrow> rune) \<Rightarrow> string \<Rightarrow> bytes \<Rightarrow> bool" where
  "occurs ul p inp \<longleftrightarrow> clean_pattern ul p \<noteq> [] \<and> contains (map lower_byte inp) (clean_pattern ul p)"

lemma contains_prefix_suffix: "contains s p \<longleftrightarrow> (\<exists>u. prefix u s \<and> suffix p u)"
  unfolding contains_iff prefix_def suffix_def by (metis append.assoc)

lemma occurs_prefix:
  "occurs ul p inp \<longleftrightarrow> clean_pattern ul p \<noteq> [] \<and> (\<exists>u. u \<noteq> [] \<and> prefix u inp \<and> suffix (clean_pattern ul p) (map lower_byte u))"
proof -
  have "prefix v (map lower_byte inp) \<longleftrightarrow> (\<exists>u. prefix u inp \<and> v = map lower_byte u)" for v
    by (auto simp: prefix_def map_eq_append_conv)
  moreover have "u \<noteq> []" if "suffix (clean_pattern ul p) (map lower_byte u)" "clean_pattern ul p \<noteq> []" for u
    using that by (auto simp: suffix_def)
  ultimately show ?thesis
    unfolding occurs_def contains_prefix_suffix by (metis (no_types, lifting))
qed

lemma outputs_at:
  assumes "labels_ok L" and own: "\<forall>v. own_of ul ps v \<noteq> [] \<longrightarrow> v \<in> set L"
  shows "p \<in> set ((outw (set L) (own_of ul ps) \<circ> lsuf (set L)) t) \<longleftrightarrow>
    p \<in> set ps \<and> clean_pattern ul p \<noteq> [] \<and> suffix (clean_pattern ul p) t"
proof -
  have pc: "prefix_closed (set L)" using assms(1) by (simp add: labels_ok_def)
  have m: "p \<in> set (own_of ul ps v) \<longleftrightarrow> v \<noteq> [] \<and> p \<in> set ps \<and> clean_pattern ul p = v" for v
    by (auto simp: own_of_def)
  have "suffix v (lsuf (set L) t) \<longleftrightarrow> suffix v t" if "p \<in> set (own_of ul ps v)" for v
  proof -
    from that have "own_of ul ps v \<noteq> []" by auto
    with own have "v \<in> set L" by blast
    then show ?thesis using lsuf_longest[of v "set L" t] lsuf_suffix[of "set L" t] suffix_order.trans by blast
  qed
  then show ?thesis
    using outw_set[OF pc, of "own_of ul ps" "lsuf (set L) t" p] own lsuf_mem[of "set L" t] pc m
    by (auto simp: prefix_closed_def)
qed

lemma Search_spec:
  "\<exists>ns. NewAhoCorasick ul ps = Some ns \<and>
     (\<forall>inp. case Search ns inp of
        None \<Rightarrow> \<not> list_ex (\<lambda>p. occurs ul p inp) ps
      | Some p \<Rightarrow> \<exists>u v. inp = u @ v \<and> p \<in> set ps \<and> clean_pattern ul p \<noteq> [] \<and>
          suffix (clean_pattern ul p) (map lower_byte u) \<and> \<not> list_ex (\<lambda>q. occurs ul q (butlast u)) ps)"
proof -
  obtain ns L where ns: "NewAhoCorasick ul ps = Some ns" and L: "labels_ok L"
    and own: "\<forall>v. own_of ul ps v \<noteq> [] \<longrightarrow> v \<in> set L"
    and nodes: "\<forall>v \<in> set L. ns ! pos_of L v = done_node L (own_of ul ps) v"
    using automaton_built[of ul ps] by blast
  let ?out = "outw (set L) (own_of ul ps) \<circ> lsuf (set L)"
  note at = outputs_at[OF L own]
  have S: "Search ns inp = first_output ?out [] inp" for inp
    using search_from_first_output[OF L nodes, of "[]" inp] labels_root[OF L] by (simp add: Search_def)
  have none: "\<not> list_ex (\<lambda>p. occurs ul p s) ps"
    if "\<forall>u. u \<noteq> [] \<and> prefix u s \<longrightarrow> ?out (map lower_byte u) = []" for s
  proof
    assume "list_ex (\<lambda>p. occurs ul p s) ps"
    then obtain p u where p: "p \<in> set ps" "clean_pattern ul p \<noteq> []" "u \<noteq> []" "prefix u s"
      "suffix (clean_pattern ul p) (map lower_byte u)" by (auto simp: list_ex_iff occurs_prefix)
    then have "p \<in> set (?out (map lower_byte u))" using at by blast
    with that p show False by auto
  qed
  have "case Search ns inp of
        None \<Rightarrow> \<not> list_ex (\<lambda>p. occurs ul p inp) ps
      | Some p \<Rightarrow> \<exists>u v. inp = u @ v \<and> p \<in> set ps \<and> clean_pattern ul p \<noteq> [] \<and>
          suffix (clean_pattern ul p) (map lower_byte u) \<and> \<not> list_ex (\<lambda>q. occurs ul q (butlast u)) ps" for inp
  proof (cases "Search ns inp")
    case None
    then show ?thesis using first_output_spec[where out = ?out and t = "[]" and s = inp] none[of inp] by (simp add: S)
  next
    case (Some p)
    then obtain u where u: "prefix u inp" "p \<in> set (?out (map lower_byte u))"
      "\<forall>w. w \<noteq> [] \<and> prefix w (butlast u) \<longrightarrow> ?out (map lower_byte w) = []"
      using first_output_spec[where out = ?out and t = "[]" and s = inp] by (auto simp: S)
    from u(1) obtain v where "inp = u @ v" by (auto simp: prefix_def)
    with Some u(2) at none[OF u(3)] show ?thesis by auto
  qed
  with ns show ?thesis by blast
qed

section \<open>The stage\<close>

definition DefaultInjectionSignatures :: "string list" where
  "DefaultInjectionSignatures =
     [''ignore previous instructions'', ''ignore all previous instructions'', ''ignore all instructions'',
      ''ignore above instructions'', ''ignore all previous directions'', ''system override'', ''jailbreak'',
      ''jailbroken'', ''you are now an unrestricted'', ''dan mode'', ''disregard all previous rules'',
      ''disregard previous instructions'', ''developer mode enabled'', ''bypass all restrictions'',
      ''pretend you are an unrestricted'', ''act as an unrestricted'', ''do anything now'']"

text \<open>The variadic \<open>customPatterns\<close> is a list of lists of which only the first counts.\<close>

definition injection_patterns :: "string list list \<Rightarrow> string list" where
  "injection_patterns custom =
     (case custom of p # _ \<Rightarrow> if p \<noteq> [] then p else DefaultInjectionSignatures | [] \<Rightarrow> DefaultInjectionSignatures)"

definition NewInjectionMatcher :: "(rune \<Rightarrow> rune) \<Rightarrow> string list list \<Rightarrow> acNode list option" where
  "NewInjectionMatcher ul custom = NewAhoCorasick ul (injection_patterns custom)"

definition InjectionMatcher_Execute ::
  "acNode list \<Rightarrow> PipelineContext \<Rightarrow> 'w \<Rightarrow> PipelineContext \<times> 'w \<times> outcome" where
  "InjectionMatcher_Execute automaton ctx w =
     (if CleanPayload ctx = [] then (ctx, w, Returned StageContinue)
      else case Search automaton (CleanPayload ctx) of
        Some m \<Rightarrow> (ctx\<lparr>MatchedRuleID := ''PROMPT_INJECTION_DETECTED'', ViolationType := ''INJECTION: '' @ m\<rparr>,
                   w, Returned StageTripwire)
      | None \<Rightarrow> (ctx, w, Returned StageContinue))"

definition injection_matcher_stage :: "acNode list \<Rightarrow> 'w Stage" where
  "injection_matcher_stage automaton =
     \<lparr>Name = ''injection_matcher'', FailClosed = True, Execute = InjectionMatcher_Execute automaton\<rparr>"

declare injection_matcher_stage_def [stage_defs]

interpretation injection_matcher: inbound_stage "injection_matcher_stage automaton" for automaton
  by unfold_locales
     (auto simp: stage_defs InjectionMatcher_Execute_def same_request_def
        split: if_splits option.splits)

lemma matcher_decides:
  "\<exists>ns. NewInjectionMatcher ul custom = Some ns \<and>
     (\<forall>inp. Search ns inp \<noteq> None \<longleftrightarrow> list_ex (\<lambda>p. occurs ul p inp) (injection_patterns custom))"
proof -
  obtain ns where ns: "NewInjectionMatcher ul custom = Some ns" and s: "\<And>inp. case Search ns inp of
        None \<Rightarrow> \<not> list_ex (\<lambda>p. occurs ul p inp) (injection_patterns custom)
      | Some p \<Rightarrow> \<exists>u v. inp = u @ v \<and> p \<in> set (injection_patterns custom) \<and> clean_pattern ul p \<noteq> [] \<and>
          suffix (clean_pattern ul p) (map lower_byte u) \<and>
          \<not> list_ex (\<lambda>q. occurs ul q (butlast u)) (injection_patterns custom)"
    using Search_spec[of ul "injection_patterns custom"] unfolding NewInjectionMatcher_def by blast
  have iff: "Search ns inp \<noteq> None \<longleftrightarrow> list_ex (\<lambda>p. occurs ul p inp) (injection_patterns custom)" for inp
  proof (cases "Search ns inp")
    case None
    then show ?thesis using s[of inp] by simp
  next
    case (Some p)
    with s[of inp] obtain u v where "inp = u @ v" "p \<in> set (injection_patterns custom)"
      "clean_pattern ul p \<noteq> []" "suffix (clean_pattern ul p) (map lower_byte u)" by auto
    then have "contains (map lower_byte u) (clean_pattern ul p)"
      unfolding contains_prefix_suffix by blast
    then have "occurs ul p inp"
      using \<open>inp = u @ v\<close> \<open>clean_pattern ul p \<noteq> []\<close> by (simp add: occurs_def contains_append_I1)
    with Some \<open>p \<in> _\<close> show ?thesis by (auto simp: list_ex_iff)
  qed
  show ?thesis using ns iff by blast
qed

lemma occurs_Nil [simp]: "\<not> occurs ul p []"
  by (auto simp: occurs_def)

section \<open>Properties\<close>

text \<open>
  C16: the construction of the automaton ends for every dictionary, and its search over a text of any
  length is the reference: it reports nothing exactly when no pattern, trimmed and in lower case,
  occurs in the text with ASCII letters in lower case; otherwise it reports a pattern that ends where
  the first occurrence of any pattern ends.
\<close>

theorem aho_corasick_finds_first_occurrence:
  "\<exists>ns. NewAhoCorasick ul ps = Some ns \<and>
     (\<forall>inp. case Search ns inp of
        None \<Rightarrow> \<not> list_ex (\<lambda>p. occurs ul p inp) ps
      | Some p \<Rightarrow> \<exists>u v. inp = u @ v \<and> p \<in> set ps \<and> clean_pattern ul p \<noteq> [] \<and>
          suffix (clean_pattern ul p) (map lower_byte u) \<and> \<not> list_ex (\<lambda>q. occurs ul q (butlast u)) ps)"
  by (rule Search_spec)

text \<open>
  C30: the injection stage with any dictionary lets a request pass unchanged exactly when no signature
  occurs in the payload; otherwise it blocks it with the rule of prompt injections.
\<close>

theorem injection_stage_decides:
  "\<exists>ns. NewInjectionMatcher ul custom = Some ns \<and>
     (\<forall>ctx (w :: 'w). case Execute (injection_matcher_stage ns) ctx w of (ctx', w', out) \<Rightarrow> w' = w \<and>
        (if list_ex (\<lambda>p. occurs ul p (CleanPayload ctx)) (injection_patterns custom)
         then out = Returned StageTripwire \<and> MatchedRuleID ctx' = ''PROMPT_INJECTION_DETECTED'' \<and>
           CleanPayload ctx' = CleanPayload ctx
         else out = Returned StageContinue \<and> ctx' = ctx))"
proof -
  obtain ns where ns: "NewInjectionMatcher ul custom = Some ns"
    and iff: "\<And>inp. Search ns inp \<noteq> None \<longleftrightarrow> list_ex (\<lambda>p. occurs ul p inp) (injection_patterns custom)"
    using matcher_decides[of ul custom] by blast
  have "case Execute (injection_matcher_stage ns) ctx w of (ctx', w', out) \<Rightarrow> w' = w \<and>
        (if list_ex (\<lambda>p. occurs ul p (CleanPayload ctx)) (injection_patterns custom)
         then out = Returned StageTripwire \<and> MatchedRuleID ctx' = ''PROMPT_INJECTION_DETECTED'' \<and>
           CleanPayload ctx' = CleanPayload ctx
         else out = Returned StageContinue \<and> ctx' = ctx)" for ctx and w :: 'w
    using iff[of "CleanPayload ctx"]
    by (auto simp: stage_defs InjectionMatcher_Execute_def list_ex_iff split: option.splits)
  then show ?thesis using ns by (intro exI[of _ ns] conjI allI)
qed

end
