(* ===== verification/Regex.thy ===== *)
theory Regex
  imports Go_Strings
begin

text \<open>
  The fragment of RE2 that the secret scanners use, with the leftmost-first semantics of package
  \<open>regexp\<close>: \<open>rx\<close> lists the ways to match in the order of preference of a backtracking search, and the
  match that the package reports is the first one at the leftmost position. Positions are bytes: the
  expressions begin and end at ASCII bytes, and inside an encoded rune neither a word boundary nor an
  ASCII class can hold, so the matches are those that stepping by runes gives.
\<close>

section \<open>Expressions and matches\<close>

datatype regex =
    Class bool "(nat \<times> nat) list"
  | WordB
  | Eps
  | Cat regex regex
  | Alt regex regex
  | Star regex

text \<open>A position: whether the byte before it is a word character, and the text after it.\<close>

type_synonym pos = "bool \<times> bytes"

definition is_word :: "char \<Rightarrow> bool" where
  "is_word c \<longleftrightarrow> is_upper c \<or> is_lower c \<or> is_digit c \<or> c = CHR ''_''"

definition next_word :: "bytes \<Rightarrow> bool" where
  "next_word s = (case s of [] \<Rightarrow> False | c # _ \<Rightarrow> is_word c)"

definition in_class :: "bool \<Rightarrow> (nat \<times> nat) list \<Rightarrow> char \<Rightarrow> bool" where
  "in_class neg rs c \<longleftrightarrow> list_ex (\<lambda>(lo, hi). lo \<le> byte c \<and> byte c \<le> hi) rs \<noteq> neg"

text \<open>Greedy repetition of the matcher \<open>f\<close>.\<close>

function star :: "(pos \<Rightarrow> pos list) \<Rightarrow> pos \<Rightarrow> pos list" where
  "star f p =
     concat (map (\<lambda>q. if length (snd q) < length (snd p) then star f q else []) (f p)) @ [p]"
  by pat_completeness auto
termination by (relation "measure (\<lambda>(f, p). length (snd p))") auto

declare star.simps [simp del]

primrec rx :: "regex \<Rightarrow> pos \<Rightarrow> pos list" where
  "rx (Class neg rs) p = (case snd p of [] \<Rightarrow> []
     | c # cs \<Rightarrow> if in_class neg rs c then [(is_word c, cs)] else [])"
| "rx WordB p = (if fst p \<noteq> next_word (snd p) then [p] else [])"
| "rx Eps p = [p]"
| "rx (Cat a b) p = concat (map (rx b) (rx a p))"
| "rx (Alt a b) p = rx a p @ rx b p"
| "rx (Star a) p = star (rx a) p"

text \<open>\<open>Match\<close>, and \<open>FindAll\<close> for an expression that never matches the empty text.\<close>

fun rx_scan :: "regex \<Rightarrow> bool \<Rightarrow> bytes \<Rightarrow> bool" where
  "rx_scan r w [] \<longleftrightarrow> rx r (w, []) \<noteq> []"
| "rx_scan r w (c # cs) \<longleftrightarrow> rx r (w, c # cs) \<noteq> [] \<or> rx_scan r (is_word c) cs"

definition rx_match :: "regex \<Rightarrow> bytes \<Rightarrow> bool" where
  "rx_match r s \<longleftrightarrow> rx_scan r False s"

function rx_find_all :: "regex \<Rightarrow> bool \<Rightarrow> bytes \<Rightarrow> bytes list" where
  "rx_find_all r w [] = []"
| "rx_find_all r w (c # cs) =
     (case rx r (w, c # cs) of
        (w', t) # _ \<Rightarrow>
          if length t < length (c # cs)
          then take (length (c # cs) - length t) (c # cs) # rx_find_all r w' t
          else rx_find_all r (is_word c) cs
      | [] \<Rightarrow> rx_find_all r (is_word c) cs)"
  by pat_completeness auto
termination by (relation "measure (\<lambda>(r, w, s). length s)") auto

definition find_all :: "regex \<Rightarrow> bytes \<Rightarrow> bytes list" where
  "find_all r s = rx_find_all r False s"

section \<open>Derived expressions\<close>

definition Lit :: "char \<Rightarrow> regex" where "Lit c = Class False [(byte c, byte c)]"

fun Str :: "bytes \<Rightarrow> regex" where
  "Str [] = Eps"
| "Str [c] = Lit c"
| "Str (c # cs) = Cat (Lit c) (Str cs)"

fun Alts :: "regex list \<Rightarrow> regex" where
  "Alts [] = Class False []"
| "Alts [r] = r"
| "Alts (r # rs) = Alt r (Alts rs)"

fun Seq :: "regex list \<Rightarrow> regex" where
  "Seq [] = Eps"
| "Seq [r] = r"
| "Seq (r # rs) = Cat r (Seq rs)"

fun Times :: "nat \<Rightarrow> regex \<Rightarrow> regex" where
  "Times 0 r = Eps"
| "Times (Suc n) r = Cat r (Times n r)"

definition AtLeast :: "nat \<Rightarrow> regex \<Rightarrow> regex" where "AtLeast n r = Cat (Times n r) (Star r)"
definition Opt :: "regex \<Rightarrow> regex" where "Opt r = Alt r Eps"

section \<open>Facts about matches\<close>

lemma star_unfold: "q \<in> set (star f p) \<longleftrightarrow>
    q = p \<or> (\<exists>m \<in> set (f p). length (snd m) < length (snd p) \<and> q \<in> set (star f m))"
  by (subst star.simps) (auto split: if_splits)

text \<open>A property of single matches that is reflexive and transitive carries over to repetitions.\<close>

lemma star_induct_rel:
  assumes "\<And>p. R p p" and "\<And>p q r. R p q \<Longrightarrow> R q r \<Longrightarrow> R p r"
    and "\<And>p q. q \<in> set (f p) \<Longrightarrow> R p q"
  shows "q \<in> set (star f p) \<Longrightarrow> R p q"
proof (induction "length (snd p)" arbitrary: p rule: less_induct)
  case less
  then show ?case using assms unfolding star_unfold[of q f p] by metis
qed

lemma rx_rest: "q \<in> set (rx r p) \<Longrightarrow> suffix (snd q) (snd p)"
proof (induction r arbitrary: p q)
  case (Star r)
  have "suffix (snd q) (snd p)" if "q \<in> set (star (rx r) p)" for p q
    using that by (rule star_induct_rel[of "\<lambda>p q. suffix (snd q) (snd p)", rotated 3])
      (auto intro: Star.IH suffix_order.trans)
  with Star.prems show ?case by simp
next
  case (Cat a b)
  then obtain m where "m \<in> set (rx a p)" "q \<in> set (rx b m)" by auto
  with Cat.IH show ?case using suffix_order.trans by blast
qed (auto split: list.splits prod.splits if_splits simp: suffix_Cons)

text \<open>The bytes of a match all lie in the classes of the expression.\<close>

primrec rx_only :: "(char \<Rightarrow> bool) \<Rightarrow> regex \<Rightarrow> bool" where
  "rx_only A (Class neg rs) \<longleftrightarrow> (\<forall>c. in_class neg rs c \<longrightarrow> A c)"
| "rx_only A WordB \<longleftrightarrow> True"
| "rx_only A Eps \<longleftrightarrow> True"
| "rx_only A (Cat a b) \<longleftrightarrow> rx_only A a \<and> rx_only A b"
| "rx_only A (Alt a b) \<longleftrightarrow> rx_only A a \<and> rx_only A b"
| "rx_only A (Star a) \<longleftrightarrow> rx_only A a"

definition spans :: "(char \<Rightarrow> bool) \<Rightarrow> pos \<Rightarrow> pos \<Rightarrow> bool" where
  "spans A p q \<longleftrightarrow> (\<exists>u. snd p = u @ snd q \<and> list_all A u)"

lemma spans_refl: "spans A p p"
  by (simp add: spans_def)

lemma spans_trans: "spans A p q \<Longrightarrow> spans A q r \<Longrightarrow> spans A p r"
  unfolding spans_def by (metis append.assoc list_all_append)

lemma rx_only_spans: "rx_only A r \<Longrightarrow> q \<in> set (rx r p) \<Longrightarrow> spans A p q"
proof (induction r arbitrary: p q)
  case (Star r)
  then show ?case
    using star_induct_rel[of "spans A" "rx r" q p] spans_refl spans_trans by (metis rx.simps(6) rx_only.simps(6))
next
  case (Cat a b)
  then obtain m where "m \<in> set (rx a p)" "q \<in> set (rx b m)" by auto
  with Cat show ?case using spans_trans by (metis rx_only.simps(4))
next
  case (Class neg rs)
  then show ?case by (cases p) (auto simp: spans_def split: list.splits if_splits)
qed (auto simp: spans_def split: if_splits)

text \<open>The least number of bytes of a match.\<close>

primrec rx_min :: "regex \<Rightarrow> nat" where
  "rx_min (Class neg rs) = 1"
| "rx_min WordB = 0"
| "rx_min Eps = 0"
| "rx_min (Cat a b) = rx_min a + rx_min b"
| "rx_min (Alt a b) = min (rx_min a) (rx_min b)"
| "rx_min (Star a) = 0"

lemma rx_min_length: "q \<in> set (rx r p) \<Longrightarrow> length (snd q) + rx_min r \<le> length (snd p)"
proof (induction r arbitrary: p q)
  case (Star r)
  then show ?case using rx_rest[of q "Star r" p] by (auto dest: suffix_length_le)
next
  case (Cat a b)
  then obtain m where m: "m \<in> set (rx a p)" "q \<in> set (rx b m)" by auto
  from Cat.IH(1)[OF m(1)] Cat.IH(2)[OF m(2)] show ?case by simp
next
  case (Class neg rs)
  then show ?case by (cases p) (auto split: list.splits if_splits)
next
  case (Alt a b)
  from Alt.prems consider "q \<in> set (rx a p)" | "q \<in> set (rx b p)" by auto
  then show ?case
  proof cases
    case 1
    from Alt.IH(1)[OF this] show ?thesis by simp
  next
    case 2
    from Alt.IH(2)[OF this] show ?thesis by simp
  qed
qed (auto split: if_splits prod.splits)

text \<open>Every match has a byte with the property \<open>P\<close>.\<close>

primrec rx_needs :: "(char \<Rightarrow> bool) \<Rightarrow> regex \<Rightarrow> bool" where
  "rx_needs P (Class neg rs) \<longleftrightarrow> (\<forall>d. in_class neg rs d \<longrightarrow> P d)"
| "rx_needs P WordB \<longleftrightarrow> False"
| "rx_needs P Eps \<longleftrightarrow> False"
| "rx_needs P (Cat a b) \<longleftrightarrow> rx_needs P a \<or> rx_needs P b"
| "rx_needs P (Alt a b) \<longleftrightarrow> rx_needs P a \<and> rx_needs P b"
| "rx_needs P (Star a) \<longleftrightarrow> False"

lemma in_class_single [simp]: "in_class False [(byte d, byte d)] c \<longleftrightarrow> c = d"
  by (auto simp: in_class_def byte_inject dest: le_antisym)

lemma rx_needs_Lit [simp]: "rx_needs P (Lit d) \<longleftrightarrow> P d"
  by (simp add: Lit_def)

lemma rx_only_Lit [simp]: "rx_only A (Lit d) \<longleftrightarrow> A d"
  by (simp add: Lit_def)

lemma rx_needs_mem: "rx_needs P r \<Longrightarrow> q \<in> set (rx r p) \<Longrightarrow> \<exists>u. snd p = u @ snd q \<and> (\<exists>c \<in> set u. P c)"
proof (induction r arbitrary: p q)
  case (Cat a b)
  then obtain m where m: "m \<in> set (rx a p)" "q \<in> set (rx b m)" by auto
  obtain x y where x: "snd p = x @ snd m" and y: "snd m = y @ snd q"
    using rx_rest[OF m(1)] rx_rest[OF m(2)] by (auto simp: suffix_def)
  have "(\<exists>c \<in> set x. P c) \<or> (\<exists>c \<in> set y. P c)"
    using Cat.prems(1) Cat.IH(1)[OF _ m(1)] Cat.IH(2)[OF _ m(2)] x y by auto
  with x y show ?case by (intro exI[of _ "x @ y"]) auto
next
  case (Class neg rs)
  then show ?case by (cases p) (auto split: list.splits if_splits)
qed auto

lemma rx_scan_needs: "rx_needs P r \<Longrightarrow> rx_scan r w s \<Longrightarrow> \<exists>c \<in> set s. P c"
proof (induction r w s rule: rx_scan.induct)
  case (1 r w)
  then obtain q where "q \<in> set (rx r (w, []))" by (cases "rx r (w, [])") auto
  from rx_needs_mem[OF "1.prems"(1) this] show ?case by simp
next
  case (2 r w d cs)
  show ?case
  proof (cases "rx r (w, d # cs)")
    case Nil
    with 2 show ?thesis by simp
  next
    case (Cons q qs)
    with rx_needs_mem[OF "2.prems"(1), of q "(w, d # cs)"] obtain u where
      "d # cs = u @ snd q" "\<exists>c \<in> set u. P c" by auto
    then show ?thesis by (metis UnI1 set_append)
  qed
qed

lemma rx_match_needs: "rx_needs ((=) c) r \<Longrightarrow> c \<notin> set s \<Longrightarrow> \<not> rx_match r s"
  unfolding rx_match_def using rx_scan_needs by blast

text \<open>An expression that begins at a word boundary can only match at the edges of a run of word characters.\<close>

lemma scan_word_run:
  "list_all is_word u \<Longrightarrow> rx a (True, []) = [] \<Longrightarrow> \<not> rx_scan (Cat WordB a) True u"
  by (induction u) (auto simp: next_word_def)

lemma scan_no_word_run:
  "list_all (\<lambda>c. \<not> is_word c) u \<Longrightarrow> rx_scan (Cat WordB a) False (u @ s) \<longleftrightarrow> rx_scan (Cat WordB a) False s"
  by (induction u) (auto simp: next_word_def)

text \<open>A match stays one when the text goes on with a byte that is not a word character.\<close>

definition extend :: "bytes \<Rightarrow> pos \<Rightarrow> pos" where
  "extend y p = (fst p, snd p @ y)"

lemma next_word_append: "y \<noteq> [] \<Longrightarrow> \<not> next_word y \<Longrightarrow> next_word (s @ y) = next_word s"
  by (auto simp: next_word_def split: list.splits)

lemma star_extend:
  assumes "\<And>p q. q \<in> set (f p) \<Longrightarrow> extend y q \<in> set (f (extend y p))"
  shows "q \<in> set (star f p) \<Longrightarrow> extend y q \<in> set (star f (extend y p))"
proof (induction "length (snd p)" arbitrary: p rule: less_induct)
  case less
  from less.prems consider "q = p" | m where "m \<in> set (f p)" "length (snd m) < length (snd p)" "q \<in> set (star f m)"
    unfolding star_unfold[of q f p] by blast
  then show ?case
  proof cases
    case 1
    then show ?thesis by (subst star_unfold) simp
  next
    case 2
    with less.hyps have "extend y q \<in> set (star f (extend y m))" by blast
    with 2 assms[of m p] show ?thesis
      by (subst star_unfold) (auto simp: extend_def)
  qed
qed

lemma rx_extend:
  assumes "y \<noteq> []" and "\<not> next_word y"
  shows "q \<in> set (rx r p) \<Longrightarrow> extend y q \<in> set (rx r (extend y p))"
proof (induction r arbitrary: p q)
  case (Star r)
  then show ?case using star_extend[of "rx r" y q p] by simp
next
  case (Class neg rs)
  then show ?case by (cases p) (auto simp: extend_def split: list.splits if_splits)
next
  case WordB
  then show ?case using assms by (cases p) (auto simp: extend_def next_word_append split: if_splits)
next
  case (Cat a b)
  from Cat.prems obtain m where "m \<in> set (rx a p)" "q \<in> set (rx b m)" by auto
  then have "extend y m \<in> set (rx a (extend y p))" "extend y q \<in> set (rx b (extend y m))"
    by (auto intro: Cat.IH)
  then show ?case by auto
qed (auto split: if_splits)

lemma rx_scan_append:
  "rx_scan r (if u = [] then w else is_word (last u)) s \<Longrightarrow> rx_scan r w (u @ s)"
proof (induction u arbitrary: w)
  case (Cons c u)
  then show ?case by (cases u) (auto split: if_splits)
qed simp

text \<open>
  Hence the scanner sees a match wherever it stands between bytes that are not word characters, or at
  an end of the text.
\<close>

definition full_match :: "regex \<Rightarrow> bytes \<Rightarrow> bool" where
  "full_match r k \<longleftrightarrow> list_ex (\<lambda>(w, t). t = []) (rx r (False, k))"

lemma rx_match_bracketed:
  assumes "full_match r k" and "\<not> is_word c" and "\<not> is_word d" and "contains s (c # k @ [d])"
  shows "rx_match r s"
proof -
  obtain u v where s: "s = u @ (c # k @ [d]) @ v" using assms(4) by (auto simp: contains_iff)
  from assms(1) obtain w where "(w, []) \<in> set (rx r (False, k))"
    by (auto simp: full_match_def list_ex_iff)
  then have "extend (d # v) (w, []) \<in> set (rx r (extend (d # v) (False, k)))"
    using assms(3) by (intro rx_extend) (auto simp: next_word_def)
  then have "rx r (False, k @ d # v) \<noteq> []" by (auto simp: extend_def)
  then have "rx_scan r False (k @ d # v)" by (cases "k @ d # v") auto
  then have "rx_scan r False ((u @ [c]) @ (k @ d # v))"
    using assms(2) rx_scan_append[of r "u @ [c]" False "k @ d # v"] by simp
  then show ?thesis by (simp add: rx_match_def s)
qed

section \<open>What \<open>FindAll\<close> returns\<close>

lemma rx_find_all_sound:
  "m \<in> set (rx_find_all r w s) \<Longrightarrow>
     \<exists>u v w' q. s = u @ m @ v \<and> q \<in> set (rx r (w', m @ v)) \<and> snd q = v \<and> m \<noteq> []"
proof (induction r w s rule: rx_find_all.induct)
  case (1 r w)
  then show ?case by simp
next
  case (2 r w c cs)
  show ?case
  proof (cases "\<exists>w' t qs. rx r (w, c # cs) = (w', t) # qs \<and> length t < length (c # cs)")
    case True
    then obtain w' t qs where q: "rx r (w, c # cs) = (w', t) # qs" and l: "length t < length (c # cs)" by auto
    let ?m = "take (length (c # cs) - length t) (c # cs)"
    have "suffix t (c # cs)" using rx_rest[of "(w', t)" r "(w, c # cs)"] q by simp
    then obtain z where z: "c # cs = z @ t" by (auto simp: suffix_def)
    then have split: "c # cs = ?m @ t" unfolding z by simp
    have ne: "?m \<noteq> []" using l by auto
    have "rx_find_all r w (c # cs) = ?m # rx_find_all r w' t" using q l by simp
    then consider "m = ?m" | "m \<in> set (rx_find_all r w' t)" using "2.prems" by auto
    then show ?thesis
    proof cases
      case 1
      then show ?thesis using split ne q by (intro exI[of _ "[]"] exI[of _ t] exI[of _ w] exI[of _ "(w', t)"]) auto
    next
      case 2
      with "2.IH"(2)[OF q refl l] obtain u v w2 p where
        "t = u @ m @ v" "p \<in> set (rx r (w2, m @ v))" "snd p = v" "m \<noteq> []" by blast
      then show ?thesis using split by (intro exI[of _ "?m @ u"] exI[of _ v] exI[of _ w2] exI[of _ p]) auto
    qed
  next
    case False
    then have "rx_find_all r w (c # cs) = rx_find_all r (is_word c) cs"
      by (auto split: list.splits prod.splits)
    with "2.prems" have m: "m \<in> set (rx_find_all r (is_word c) cs)" by simp
    have "\<exists>u v w' q. cs = u @ m @ v \<and> q \<in> set (rx r (w', m @ v)) \<and> snd q = v \<and> m \<noteq> []"
    proof (cases "rx r (w, c # cs)")
      case Nil
      from "2.IH"(1)[OF this m] show ?thesis .
    next
      case (Cons q qs)
      obtain w' t where "q = (w', t)" by (cases q)
      with Cons False show ?thesis using "2.IH"(3)[OF Cons _ _ m] by auto
    qed
    then obtain u v w2 p where
      "cs = u @ m @ v" "p \<in> set (rx r (w2, m @ v))" "snd p = v" "m \<noteq> []" by blast
    then show ?thesis by (intro exI[of _ "c # u"] exI[of _ v] exI[of _ w2] exI[of _ p]) auto
  qed
qed

definition matched :: "regex \<Rightarrow> bytes \<Rightarrow> bool" where
  "matched r m \<longleftrightarrow> m \<noteq> [] \<and> (\<exists>w v q. q \<in> set (rx r (w, m @ v)) \<and> snd q = v)"

lemma find_all_matched: "m \<in> set (find_all r s) \<Longrightarrow> matched r m"
  using rx_find_all_sound[of m r False s] unfolding matched_def find_all_def by blast

lemma matched_only: "matched r m \<Longrightarrow> rx_only A r \<Longrightarrow> list_all A m"
  using rx_only_spans[of A r] unfolding matched_def spans_def by fastforce

lemma matched_min: "matched r m \<Longrightarrow> rx_min r \<le> length m"
  using rx_min_length[of _ r] unfolding matched_def by fastforce

lemma matched_needs: "matched r m \<Longrightarrow> rx_needs P r \<Longrightarrow> \<exists>c \<in> set m. P c"
  using rx_needs_mem[of P r] unfolding matched_def by fastforce

lemma matched_Alt: "matched (Alt a b) m \<Longrightarrow> matched a m \<or> matched b m"
  unfolding matched_def by auto

section \<open>Character classes of the credential expressions\<close>

definition up_num :: regex where "up_num = Class False [(0x41, 0x5A), (0x30, 0x39)]"
definition alnum :: regex where "alnum = Class False [(0x61, 0x7A), (0x41, 0x5A), (0x30, 0x39)]"
definition key_char :: regex where
  "key_char = Class False [(0x61, 0x7A), (0x41, 0x5A), (0x30, 0x39), (0x5F, 0x5F), (0x2D, 0x2D)]"
definition label_char :: regex where
  "label_char = Class False [(0x41, 0x5A), (0x30, 0x39), (0x5F, 0x5F), (0x2D, 0x2D)]"
definition uri_char :: regex where
  "uri_char = Class True [(9, 10), (12, 13), (32, 32), (0x22, 0x22), (0x27, 0x27), (0x3E, 0x3E), (0x5C, 0x5C)]"
definition digit :: regex where "digit = Class False [(0x30, 0x39)]"
definition digit_sep :: regex where "digit_sep = Class False [(0x2D, 0x2D), (0x20, 0x20)]"

end
