(* ===== verification/Session_Vault.thy ===== *)
theory Session_Vault
  imports Go_Strings
begin

text \<open>
  The session vault of \<open>internal/inbound/dlp.go\<close>. The raw secrets are byte slices that \<open>Resolve\<close> hands
  out without copying and \<open>Destroy\<close> overwrites, so they live in an explicit heap: a slice is an address,
  and the maps hold addresses. A Go map is an association list with distinct keys.
\<close>

section \<open>State and operations\<close>

record SessionMapping =
  forwardMap :: "(string \<times> string) list"
  reverseMap :: "(string \<times> nat) list"

record SessionVault =
  sessions :: "string \<rightharpoonup> SessionMapping"
  heap :: "bytes list"

definition NewSessionVault :: SessionVault where
  "NewSessionVault = \<lparr>sessions = Map.empty, heap = []\<rparr>"

definition new_session :: SessionMapping where
  "new_session = \<lparr>forwardMap = [], reverseMap = []\<rparr>"

definition getOrCreateSession :: "string \<Rightarrow> SessionVault \<Rightarrow> SessionMapping \<times> SessionVault" where
  "getOrCreateSession key v =
     (case sessions v key of
        Some sm \<Rightarrow> (sm, v)
      | None \<Rightarrow> (new_session, v\<lparr>sessions := (sessions v)(key \<mapsto> new_session)\<rparr>))"

definition pseudonym :: "nat \<Rightarrow> string" where
  "pseudonym seq = ''[REDACTED_SECRET_'' @ dec_nat seq @ '']''"

definition Store :: "string \<Rightarrow> string \<Rightarrow> SessionVault \<Rightarrow> string \<times> SessionVault" where
  "Store key rawSecret v0 =
     (case getOrCreateSession key v0 of (sm, v) \<Rightarrow>
        case map_of (forwardMap sm) rawSecret of
          Some pseudo \<Rightarrow> (pseudo, v)
        | None \<Rightarrow>
            let pseudo = pseudonym (length (forwardMap sm) + 1);
                sm' = sm\<lparr>forwardMap := forwardMap sm @ [(rawSecret, pseudo)],
                         reverseMap := (pseudo, length (heap v)) # filter (\<lambda>(p, _). p \<noteq> pseudo) (reverseMap sm)\<rparr>
            in (pseudo, v\<lparr>sessions := (sessions v)(key \<mapsto> sm'), heap := heap v @ [rawSecret]\<rparr>))"

definition Resolve :: "string \<Rightarrow> string \<Rightarrow> SessionVault \<Rightarrow> nat option" where
  "Resolve key pseudo v =
     (case sessions v key of None \<Rightarrow> None | Some sm \<Rightarrow> map_of (reverseMap sm) pseudo)"

definition zeroize :: "nat \<Rightarrow> bytes list \<Rightarrow> bytes list" where
  "zeroize a h = h[a := replicate (length (h ! a)) (CHR 0x00)]"

definition Destroy :: "string \<Rightarrow> SessionVault \<Rightarrow> SessionVault" where
  "Destroy key v =
     (case sessions v key of
        None \<Rightarrow> v
      | Some sm \<Rightarrow> v\<lparr>sessions := (sessions v)(key := None),
                     heap := fold zeroize (map snd (reverseMap sm)) (heap v)\<rparr>)"

text \<open>What a caller reads when it looks a pseudonym up.\<close>

definition secret_of :: "string \<Rightarrow> string \<Rightarrow> SessionVault \<Rightarrow> bytes option" where
  "secret_of key pseudo v = map_option (\<lambda>a. heap v ! a) (Resolve key pseudo v)"

section \<open>Invariant\<close>

text \<open>A session numbers its secrets 1, 2, 3, ... in the order of their first \<open>Store\<close>; the reverse map
  holds the address of a copy of each; no two of all the slices share an address.\<close>

definition session_ok :: "bytes list \<Rightarrow> SessionMapping \<Rightarrow> bool" where
  "session_ok h sm \<longleftrightarrow> distinct (map fst (forwardMap sm)) \<and>
     map snd (forwardMap sm) = map pseudonym [1..<Suc (length (forwardMap sm))] \<and>
     distinct (map fst (reverseMap sm)) \<and>
     (\<forall>raw p. (raw, p) \<in> set (forwardMap sm) \<longleftrightarrow>
        (\<exists>a. (p, a) \<in> set (reverseMap sm) \<and> a < length h \<and> h ! a = raw)) \<and>
     (\<forall>p a. (p, a) \<in> set (reverseMap sm) \<longrightarrow> a < length h)"

definition addresses :: "SessionMapping \<Rightarrow> nat set" where
  "addresses sm = set (map snd (reverseMap sm))"

definition vault_ok :: "SessionVault \<Rightarrow> bool" where
  "vault_ok v \<longleftrightarrow> (\<forall>k sm. sessions v k = Some sm \<longrightarrow> session_ok (heap v) sm) \<and>
     (\<forall>k sm k' sm'. k \<noteq> k' \<longrightarrow> sessions v k = Some sm \<longrightarrow> sessions v k' = Some sm' \<longrightarrow>
        addresses sm \<inter> addresses sm' = {})"

lemma pseudonym_inject [simp]: "pseudonym i = pseudonym j \<longleftrightarrow> i = j"
  by (simp add: pseudonym_def)

lemma session_ok_new [simp]: "session_ok h new_session"
  by (simp add: session_ok_def new_session_def)

lemma vault_ok_new: "vault_ok NewSessionVault"
  by (simp add: vault_ok_def NewSessionVault_def)

lemma session_ok_grow:
  assumes "session_ok h sm" shows "session_ok (h @ [x]) sm"
proof -
  have "(\<exists>a. (p, a) \<in> set (reverseMap sm) \<and> a < length h \<and> h ! a = raw) \<longleftrightarrow>
      (\<exists>a. (p, a) \<in> set (reverseMap sm) \<and> a < length (h @ [x]) \<and> (h @ [x]) ! a = raw)" for p raw
    using assms by (auto simp: session_ok_def nth_append)
  with assms show ?thesis unfolding session_ok_def by (auto intro: less_SucI)
qed

lemma session_pseudonyms:
  assumes "session_ok h sm" and "(raw, p) \<in> set (forwardMap sm)"
  shows "\<exists>i. p = pseudonym i \<and> 1 \<le> i \<and> i \<le> length (forwardMap sm)"
proof -
  have "p \<in> set (map snd (forwardMap sm))" using assms(2) by force
  then show ?thesis using assms(1) by (auto simp: session_ok_def simp del: set_map upt_Suc) auto
qed

lemma session_ok_store:
  assumes s: "session_ok h sm" and new: "map_of (forwardMap sm) raw = None"
  shows "session_ok (h @ [raw])
    (sm\<lparr>forwardMap := forwardMap sm @ [(raw, pseudonym (length (forwardMap sm) + 1))],
        reverseMap := (pseudonym (length (forwardMap sm) + 1), length h) #
          filter (\<lambda>(p, _). p \<noteq> pseudonym (length (forwardMap sm) + 1)) (reverseMap sm)\<rparr>)"
    (is "session_ok ?h ?sm")
proof -
  let ?p = "pseudonym (length (forwardMap sm) + 1)"
  note i = s[unfolded session_ok_def] and g = session_ok_grow[OF s, of raw, unfolded session_ok_def]
  have fresh: "?p \<noteq> q" if "(x, q) \<in> set (forwardMap sm)" for x q
    using session_pseudonyms[OF s that] by auto
  have fresh2: "?p \<noteq> q" if "(q, a) \<in> set (reverseMap sm)" for q a
    using fresh i that by blast
  then have f: "filter (\<lambda>(p, _). p \<noteq> ?p) (reverseMap sm) = reverseMap sm"
    by (auto simp: filter_id_conv)
  have "raw \<notin> fst ` set (forwardMap sm)" using new by (simp add: map_of_eq_None_iff)
  moreover have "?p \<notin> fst ` set (reverseMap sm)" using fresh2 by force
  moreover have "(x, p) \<in> set (forwardMap ?sm) \<longleftrightarrow>
      (\<exists>a. (p, a) \<in> set (reverseMap ?sm) \<and> a < length ?h \<and> ?h ! a = x)" for x p
  proof -
    have "(x, p) \<in> set (forwardMap sm) \<longleftrightarrow> (\<exists>a. (p, a) \<in> set (reverseMap sm) \<and> a < length ?h \<and> ?h ! a = x)"
      using g by blast
    then show ?thesis unfolding f by auto
  qed
  moreover have "a < length ?h" if "(p, a) \<in> set (reverseMap ?sm)" for p a
    using that g unfolding f by auto
  ultimately show ?thesis using i unfolding session_ok_def f by auto
qed

lemma addresses_less: "session_ok h sm \<Longrightarrow> a \<in> addresses sm \<Longrightarrow> a < length h"
  by (auto simp: session_ok_def addresses_def)

lemma vault_ok_update:
  assumes "vault_ok v" and "session_ok h' sm"
    and "\<And>k s. sessions v k = Some s \<Longrightarrow> k \<noteq> key \<Longrightarrow> session_ok h' s \<and> addresses sm \<inter> addresses s = {}"
  shows "vault_ok (v\<lparr>sessions := (sessions v)(key \<mapsto> sm), heap := h'\<rparr>)"
  using assms unfolding vault_ok_def by (auto simp: Int_commute split: if_splits)

lemma getOrCreateSession_ok:
  assumes "vault_ok v" and "getOrCreateSession key v = (sm, v')"
  shows "vault_ok v'" and "sessions v' key = Some sm" and "heap v' = heap v"
    and "k \<noteq> key \<Longrightarrow> sessions v' k = sessions v k" and "session_ok (heap v') sm"
    and "sm = (case sessions v key of None \<Rightarrow> new_session | Some sm \<Rightarrow> sm)"
proof -
  have a: "addresses new_session = {}" by (simp add: addresses_def new_session_def)
  show "vault_ok v'"
  proof (cases "sessions v key")
    case None
    then have "v' = v\<lparr>sessions := (sessions v)(key \<mapsto> new_session), heap := heap v\<rparr>"
      using assms(2) by (cases v) (auto simp: getOrCreateSession_def)
    then show ?thesis
      using assms(1) a vault_ok_update[OF assms(1), of "heap v" new_session key] by (simp add: vault_ok_def)
  qed (use assms in \<open>simp add: getOrCreateSession_def\<close>)
  then show "session_ok (heap v') sm"
    using assms(2) by (auto simp: getOrCreateSession_def vault_ok_def split: option.splits)
qed (use assms(2) in \<open>auto simp: getOrCreateSession_def split: option.splits\<close>)

lemma vault_ok_Store:
  assumes "vault_ok v" and "Store key raw v = (p, v')"
  shows "vault_ok v'"
proof -
  obtain sm v1 where g: "getOrCreateSession key v = (sm, v1)" by fastforce
  note ok = getOrCreateSession_ok[OF assms(1) g]
  show ?thesis
  proof (cases "map_of (forwardMap sm) raw")
    case (Some q)
    with assms(2) g ok(1) show ?thesis by (simp add: Store_def)
  next
    case None
    let ?sm = "sm\<lparr>forwardMap := forwardMap sm @ [(raw, pseudonym (length (forwardMap sm) + 1))],
        reverseMap := (pseudonym (length (forwardMap sm) + 1), length (heap v1)) #
          filter (\<lambda>(p, _). p \<noteq> pseudonym (length (forwardMap sm) + 1)) (reverseMap sm)\<rparr>"
    have v': "v' = v1\<lparr>sessions := (sessions v1)(key \<mapsto> ?sm), heap := heap v1 @ [raw]\<rparr>"
      using assms(2) g None by (auto simp: Store_def Let_def)
    have "addresses ?sm \<subseteq> insert (length (heap v1)) (addresses sm)" by (auto simp: addresses_def)
    moreover have "length (heap v1) \<notin> addresses s" if "sessions v1 k = Some s" for k s
      using ok(1) that addresses_less by (fastforce simp: vault_ok_def)
    ultimately have "addresses ?sm \<inter> addresses s = {}" if "k \<noteq> key" "sessions v1 k = Some s" for k s
      using ok(1,2) that unfolding vault_ok_def by blast
    then show ?thesis
      unfolding v' using ok(1) session_ok_store[OF ok(5) None]
      by (intro vault_ok_update) (auto simp: vault_ok_def intro: session_ok_grow)
  qed
qed

section \<open>Storing and resolving\<close>

lemma secret_of_forward:
  assumes "vault_ok v" and "sessions v key = Some sm"
  shows "secret_of key p v = Some raw \<longleftrightarrow> (raw, p) \<in> set (forwardMap sm)"
proof -
  have s: "session_ok (heap v) sm" using assms by (simp add: vault_ok_def)
  then have "map_of (reverseMap sm) p = Some a \<longleftrightarrow> (p, a) \<in> set (reverseMap sm)" for a
    by (simp add: session_ok_def map_of_eq_Some_iff)
  with s assms(2) show ?thesis
    unfolding secret_of_def Resolve_def session_ok_def by (simp, metis (no_types, lifting))
qed

lemma Store_forward:
  assumes "vault_ok v" and "Store key raw v = (p, v')"
  shows "\<exists>sm. sessions v' key = Some sm \<and> (raw, p) \<in> set (forwardMap sm) \<and>
    set (forwardMap (case sessions v key of None \<Rightarrow> new_session | Some sm \<Rightarrow> sm)) \<subseteq> set (forwardMap sm)"
proof -
  obtain sm v1 where g: "getOrCreateSession key v = (sm, v1)" by fastforce
  note ok = getOrCreateSession_ok[OF assms(1) g]
  show ?thesis
    using assms(2) g ok(2,6) by (auto simp: Store_def Let_def dest: map_of_SomeD split: option.splits)
qed

lemma Store_other: 
  assumes "vault_ok v" and "Store key raw v = (p, v')" and "k \<noteq> key"
  shows "sessions v' k = sessions v k" and "\<exists>x. heap v' = heap v @ x"
proof -
  obtain sm v1 where g: "getOrCreateSession key v = (sm, v1)" by fastforce
  note ok = getOrCreateSession_ok[OF assms(1) g]
  show "sessions v' k = sessions v k" "\<exists>x. heap v' = heap v @ x"
    using assms(2,3) g ok(3,4) by (auto simp: Store_def Let_def split: option.splits)
qed

lemma secret_of_Store: "vault_ok v \<Longrightarrow> Store key raw v = (p, v') \<Longrightarrow> secret_of key p v' = Some raw"
  using Store_forward secret_of_forward vault_ok_Store by blast

lemma secret_of_keeps:
  assumes "vault_ok v" and "Store key raw v = (p, v')" and "secret_of k q v = Some x"
  shows "secret_of k q v' = Some x"
proof -
  obtain sm where sm: "sessions v k = Some sm"
    using assms(3) by (auto simp: secret_of_def Resolve_def split: option.splits)
  then have q: "(x, q) \<in> set (forwardMap sm)" using assms(1,3) secret_of_forward by blast
  show ?thesis
  proof (cases "k = key")
    case True
    with Store_forward[OF assms(1,2)] sm q secret_of_forward vault_ok_Store[OF assms(1,2)] show ?thesis
      by fastforce
  next
    case False
    with Store_other(1)[OF assms(1,2) False] sm q secret_of_forward vault_ok_Store[OF assms(1,2)] show ?thesis
      by simp
  qed
qed

text \<open>The pseudonym a \<open>Store\<close> returns is a number in brackets, at most one more than there were.\<close>

definition secrets_held :: "string \<Rightarrow> SessionVault \<Rightarrow> nat" where
  "secrets_held key v = (case sessions v key of None \<Rightarrow> 0 | Some sm \<Rightarrow> length (forwardMap sm))"

lemma Store_pseudonym:
  assumes "vault_ok v" and "Store key raw v = (p, v')"
  shows "\<exists>i. p = pseudonym i \<and> i \<le> secrets_held key v'" and "secrets_held key v' \<le> Suc (secrets_held key v)"
    and "secrets_held key v \<le> secrets_held key v'"
proof -
  obtain sm where "sessions v' key = Some sm" "(raw, p) \<in> set (forwardMap sm)"
    using Store_forward[OF assms] by blast
  then show "\<exists>i. p = pseudonym i \<and> i \<le> secrets_held key v'"
    using vault_ok_Store[OF assms] session_pseudonyms[of "heap v'" sm raw p]
    by (auto simp: vault_ok_def secrets_held_def)
  obtain s1 v1 where g: "getOrCreateSession key v = (s1, v1)" by fastforce
  note ok = getOrCreateSession_ok[OF assms(1) g]
  show "secrets_held key v' \<le> Suc (secrets_held key v)" "secrets_held key v \<le> secrets_held key v'"
    using assms(2) g ok(2,6)
    by (auto simp: Store_def Let_def secrets_held_def new_session_def split: option.splits)
qed

section \<open>The interface of the redactor\<close>

text \<open>A store of secrets as the redactor relies on it: what was stored is found again under its
  pseudonym and stays there, and pseudonyms are numbers in brackets.\<close>

locale pseudonym_vault =
  fixes store :: "string \<Rightarrow> bytes \<Rightarrow> 'v \<Rightarrow> string \<times> 'v"
    and lookup :: "string \<Rightarrow> string \<Rightarrow> 'v \<Rightarrow> bytes option"
    and held :: "string \<Rightarrow> 'v \<Rightarrow> nat"
    and ok :: "'v \<Rightarrow> bool"
  assumes store_ok: "ok v \<Longrightarrow> store k raw v = (p, v') \<Longrightarrow> ok v'"
    and store_lookup: "ok v \<Longrightarrow> store k raw v = (p, v') \<Longrightarrow> lookup k p v' = Some raw"
    and store_keeps: "ok v \<Longrightarrow> store k raw v = (p, v') \<Longrightarrow> lookup k' q v = Some x \<Longrightarrow> lookup k' q v' = Some x"
    and store_names: "ok v \<Longrightarrow> store k raw v = (p, v') \<Longrightarrow> \<exists>i. p = pseudonym i \<and> i \<le> held k v'"
    and store_counts: "ok v \<Longrightarrow> store k raw v = (p, v') \<Longrightarrow> held k v' \<le> Suc (held k v)"
    and store_grows: "ok v \<Longrightarrow> store k raw v = (p, v') \<Longrightarrow> held k v \<le> held k v'"
begin

text \<open>Storing a list of secrets, in order.\<close>

fun store_list :: "string \<Rightarrow> bytes list \<Rightarrow> 'v \<Rightarrow> string list \<times> 'v" where
  "store_list k [] v = ([], v)"
| "store_list k (raw # raws) v =
     (case store k raw v of (p, v1) \<Rightarrow> case store_list k raws v1 of (ps, v2) \<Rightarrow> (p # ps, v2))"

lemma store_list_ok: "ok v \<Longrightarrow> store_list k raws v = (ps, v') \<Longrightarrow> ok v'"
  by (induction raws arbitrary: v ps) (auto intro: store_ok split: prod.splits)

lemma store_list_keeps:
  "ok v \<Longrightarrow> store_list k raws v = (ps, v') \<Longrightarrow> lookup k' q v = Some x \<Longrightarrow> lookup k' q v' = Some x"
proof (induction raws arbitrary: v ps)
  case (Cons raw raws)
  then show ?case by (auto split: prod.splits intro: store_ok store_keeps)
qed simp

lemma store_list_lookup:
  "ok v \<Longrightarrow> store_list k raws v = (ps, v') \<Longrightarrow> map (\<lambda>p. lookup k p v') ps = map Some raws"
proof (induction raws arbitrary: v ps)
  case (Cons raw raws)
  obtain p v1 where s: "store k raw v = (p, v1)" by fastforce
  obtain qs v2 where l: "store_list k raws v1 = (qs, v2)" by fastforce
  have ps: "ps = p # qs" "v' = v2" using Cons.prems(2) s l by auto
  have "ok v1" using store_ok[OF Cons.prems(1) s] .
  then show ?case
    using Cons.IH[of v1 qs] l ps store_list_keeps[OF _ l] store_lookup[OF Cons.prems(1) s] by auto
qed simp

end

interpretation vault: pseudonym_vault Store secret_of secrets_held vault_ok
  by unfold_locales (fact vault_ok_Store secret_of_Store secret_of_keeps Store_pseudonym)+

section \<open>Destruction\<close>

lemma zeroize_length: "length (zeroize a h) = length h"
  by (simp add: zeroize_def)

lemma fold_zeroize:
  "length (fold zeroize as h) = length h \<and>
   (fold zeroize as h) ! a = (if a \<in> set as \<and> a < length h then replicate (length (h ! a)) (CHR 0x00) else h ! a)"
proof (induction as arbitrary: h)
  case (Cons b as)
  have "zeroize b h ! a = (if a = b \<and> a < length h then replicate (length (h ! a)) (CHR 0x00) else h ! a)"
    by (cases "b < length h") (auto simp: zeroize_def nth_list_update list_update_beyond)
  then show ?case using Cons.IH[of "zeroize b h"] by (auto simp: zeroize_length)
qed simp

lemma Destroy_resolved:
  assumes "vault_ok v" and "Resolve key p v = Some a"
  shows "heap (Destroy key v) ! a = replicate (length (heap v ! a)) (CHR 0x00)"
proof -
  obtain sm where sm: "sessions v key = Some sm" "map_of (reverseMap sm) p = Some a"
    using assms(2) by (auto simp: Resolve_def split: option.splits)
  then have "(p, a) \<in> set (reverseMap sm)" by (simp add: map_of_SomeD)
  moreover have "a < length (heap v)"
    using assms(1) sm(1) calculation by (auto simp: vault_ok_def session_ok_def)
  ultimately show ?thesis using sm(1) fold_zeroize by (force simp: Destroy_def)
qed

lemma Destroy_other:
  assumes "vault_ok v" and "k \<noteq> key"
  shows "secret_of k q (Destroy key v) = secret_of k q v"
proof (cases "sessions v key")
  case (Some sm)
  have "heap (Destroy key v) ! a = heap v ! a" if res: "Resolve k q v = Some a" for a
  proof -
    obtain s where s: "sessions v k = Some s" "map_of (reverseMap s) q = Some a"
      using res by (auto simp: Resolve_def split: option.splits)
    then have "a \<in> addresses s" using map_of_SomeD[OF s(2)] by (force simp: addresses_def)
    then have "a \<notin> set (map snd (reverseMap sm))"
      using assms Some s(1) unfolding vault_ok_def addresses_def by blast
    then show ?thesis using Some fold_zeroize by (simp add: Destroy_def)
  qed
  moreover have "Resolve k q (Destroy key v) = Resolve k q v"
    using assms(2) Some by (simp add: Resolve_def Destroy_def)
  ultimately show ?thesis by (cases "Resolve k q v") (auto simp: secret_of_def)
qed (simp add: Destroy_def)

lemma Store_deterministic:
  assumes "vault_ok v" and "Store key raw v = (p, v')"
  shows "Store key raw v' = (p, v')"
proof -
  obtain sm where sm: "sessions v' key = Some sm" "(raw, p) \<in> set (forwardMap sm)"
    using Store_forward[OF assms] by blast
  moreover have "distinct (map fst (forwardMap sm))"
    using vault_ok_Store[OF assms] sm(1) by (auto simp: vault_ok_def session_ok_def)
  ultimately have "map_of (forwardMap sm) raw = Some p" by simp
  with sm(1) show ?thesis by (simp add: Store_def getOrCreateSession_def)
qed

section \<open>Properties\<close>

text \<open>Any sequence of \<open>Store\<close> calls for any sessions.\<close>

fun stores :: "(string \<times> bytes) list \<Rightarrow> SessionVault \<Rightarrow> string list \<times> SessionVault" where
  "stores [] v = ([], v)"
| "stores ((key, raw) # cs) v =
     (case Store key raw v of (p, v1) \<Rightarrow> case stores cs v1 of (ps, v2) \<Rightarrow> (p # ps, v2))"

lemma stores_ok: "vault_ok v \<Longrightarrow> stores cs v = (ps, v') \<Longrightarrow>
    vault_ok v' \<and> (\<forall>k q x. secret_of k q v = Some x \<longrightarrow> secret_of k q v' = Some x)"
proof (induction cs v arbitrary: ps rule: stores.induct)
  case (2 key raw cs v)
  obtain p v1 where s: "Store key raw v = (p, v1)" by fastforce
  obtain qs where t: "stores cs v1 = (qs, v')" using "2.prems"(2) s by (auto split: prod.splits)
  show ?case
    using "2.IH"[OF s[symmetric] vault_ok_Store[OF "2.prems"(1) s] t] "2.prems" s t
      secret_of_keeps[OF "2.prems"(1) s] by auto
qed simp

text \<open>
  C17: after any sequence of calls of \<open>Store\<close>, for any sessions in any order, every raw secret is still
  found in its session under the pseudonym that its call returned.
\<close>

theorem vault_round_trip:
  "case stores calls NewSessionVault of (ps, v) \<Rightarrow>
     list_all2 (\<lambda>(key, raw) p. secret_of key p v = Some raw) calls ps"
proof -
  have "vault_ok v0 \<Longrightarrow> stores calls v0 = (ps, v) \<Longrightarrow>
      list_all2 (\<lambda>(key, raw) p. secret_of key p v = Some raw) calls ps" for v0 ps v
  proof (induction calls v0 arbitrary: ps rule: stores.induct)
    case (2 key raw cs v0)
    obtain p v1 where s: "Store key raw v0 = (p, v1)" by fastforce
    obtain qs where t: "stores cs v1 = (qs, v)" using "2.prems"(2) s by (auto split: prod.splits)
    note ok = vault_ok_Store[OF "2.prems"(1) s]
    show ?case
      using "2.IH"[OF s[symmetric] ok] t stores_ok[OF ok t] secret_of_Store[OF "2.prems"(1) s] "2.prems"(2) s
      by auto
  qed simp
  then show ?thesis using vault_ok_new by (auto split: prod.splits)
qed

text \<open>
  pseudonyms are deterministic and injective within a session: two calls of \<open>Store\<close> get the same
  pseudonym exactly when they store the same secret.
\<close>

theorem pseudonyms_injective:
  assumes "vault_ok v" and "Store key raw1 v = (p1, v1)" and "Store key raw2 v1 = (p2, v2)"
  shows "p1 = p2 \<longleftrightarrow> raw1 = raw2"
proof -
  note ok1 = vault_ok_Store[OF assms(1,2)]
  have "secret_of key p1 v2 = Some raw1" "secret_of key p2 v2 = Some raw2"
    using secret_of_keeps[OF ok1 assms(3)] secret_of_Store[OF assms(1,2)] secret_of_Store[OF ok1 assms(3)] by auto
  then show ?thesis using Store_deterministic[OF assms(1,2)] assms(3) by auto
qed

theorem pseudonyms_injective_witness:
  "fst (Store ''t'' ''AKIA1'' NewSessionVault) =
     fst (Store ''t'' ''AKIA2'' (snd (Store ''t'' ''AKIA1'' NewSessionVault))) \<longleftrightarrow> ''AKIA1'' = ''AKIA2''"
  by (rule pseudonyms_injective[OF vault_ok_new]) (rule prod.collapse[symmetric])+

text \<open>
  C31: destroying a session overwrites with zeros every slice that \<open>Resolve\<close> ever handed out for it,
  makes the session's pseudonyms unknown, and leaves the secrets of all other sessions as they were.
\<close>

theorem destroy_zeroizes:
  assumes "vault_ok v" and "Resolve key p v = Some a"
  shows "heap (Destroy key v) ! a = replicate (length (heap v ! a)) (CHR 0x00) \<and>
    Resolve key q (Destroy key v) = None \<and>
    (k = key \<or> secret_of k q (Destroy key v) = secret_of k q v)"
proof (intro conjI)
  show "heap (Destroy key v) ! a = replicate (length (heap v ! a)) (CHR 0x00)"
    using assms by (rule Destroy_resolved)
  show "Resolve key q (Destroy key v) = None" by (simp add: Resolve_def Destroy_def split: option.splits)
  show "k = key \<or> secret_of k q (Destroy key v) = secret_of k q v" using Destroy_other[OF assms(1)] by blast
qed

theorem destroy_zeroizes_witness:
  "heap (Destroy ''t'' (snd (Store ''t'' ''pw'' NewSessionVault))) ! 0 =
     replicate (length (heap (snd (Store ''t'' ''pw'' NewSessionVault)) ! 0)) (CHR 0x00) \<and>
   Resolve ''t'' ''x'' (Destroy ''t'' (snd (Store ''t'' ''pw'' NewSessionVault))) = None \<and>
   (''u'' = ''t'' \<or> secret_of ''u'' ''x'' (Destroy ''t'' (snd (Store ''t'' ''pw'' NewSessionVault))) =
      secret_of ''u'' ''x'' (snd (Store ''t'' ''pw'' NewSessionVault)))"
proof (rule destroy_zeroizes)
  show "vault_ok (snd (Store ''t'' ''pw'' NewSessionVault))"
    using vault_ok_Store[OF vault_ok_new] prod.collapse by metis
  show "Resolve ''t'' (pseudonym 1) (snd (Store ''t'' ''pw'' NewSessionVault)) = Some 0"
    by (simp add: Resolve_def Store_def getOrCreateSession_def NewSessionVault_def new_session_def Let_def)
qed

end
