(* ===== verification/PII_Validators.thy ===== *)
theory PII_Validators
  imports Go_Strings
begin

text \<open>
  The validators of \<open>internal/inbound/dlp.go\<close> that decide whether a candidate is a social security
  number or a card number, with the facts that make them checks of such numbers.
\<close>

section \<open>Validators\<close>

definition IsValidSSN :: "string \<Rightarrow> bool" where
  "IsValidSSN match =
     (let digits = filter (\<lambda>c. c \<noteq> CHR ''-'' \<and> c \<noteq> CHR '' '') match;
          area = take 3 digits; grp = take 2 (drop 3 digits); serial = drop 5 digits in
      if length digits \<noteq> 9 then False
      else if area = ''000'' \<or> area = ''666'' \<or> area ! 0 = CHR ''9'' then False
      else if grp = ''00'' then False
      else if serial = ''0000'' then False
      else True)"

text \<open>The first loop of \<open>VerifyLuhn\<close>, which fills the array of 24 digits.\<close>

fun collect_digits :: "string \<Rightarrow> nat list \<Rightarrow> nat list option" where
  "collect_digits [] digits = Some digits"
| "collect_digits (c # cs) digits =
     (if is_digit c
      then (if length digits \<ge> 24 then None else collect_digits cs (digits @ [byte c - 48]))
      else if c = CHR ''-'' \<or> c = CHR '' '' then collect_digits cs digits
      else None)"

text \<open>The second loop, which goes from the last digit to the first.\<close>

fun luhn_sum :: "bool \<Rightarrow> nat list \<Rightarrow> nat" where
  "luhn_sum alternate [] = 0"
| "luhn_sum alternate (d # ds) =
     (if alternate then (if 2 * d > 9 then 2 * d - 9 else 2 * d) else d) + luhn_sum (\<not> alternate) ds"

definition VerifyLuhn :: "string \<Rightarrow> bool" where
  "VerifyLuhn number =
     (case collect_digits number [] of
        None \<Rightarrow> False
      | Some digits \<Rightarrow>
          if length digits < 13 \<or> length digits > 19 then False
          else luhn_sum False (rev digits) mod 10 = 0)"

section \<open>Social security numbers\<close>

lemma dec_value_3: "dec_value [a, b, c] = 100 * (byte a - 48) + 10 * (byte b - 48) + (byte c - 48)"
  and dec_value_2: "dec_value [a, b] = 10 * (byte a - 48) + (byte b - 48)"
  and dec_value_4: "dec_value [a, b, c, d] = 1000 * (byte a - 48) + 100 * (byte b - 48) + 10 * (byte c - 48) + (byte d - 48)"
  by (simp_all add: dec_value_def)

lemma digit_chars: "char_of (48 + 0 :: nat) = CHR ''0''" "char_of (48 + 6 :: nat) = CHR ''6''"
  "char_of (48 + 9 :: nat) = CHR ''9''"
  by code_simp+

lemma digit_is: "is_digit c \<Longrightarrow> n < 10 \<Longrightarrow> c = char_of (48 + n) \<longleftrightarrow> byte c - 48 = n"
proof -
  assume "is_digit c" "n < 10"
  then have "c = char_of (48 + n) \<longleftrightarrow> byte c = byte (char_of (48 + n))" by (simp only: byte_inject)
  with \<open>is_digit c\<close> \<open>n < 10\<close> show ?thesis by (auto simp: is_digit_def)
qed

lemma digit_le: "is_digit c \<Longrightarrow> byte c - 48 \<le> 9"
  by (simp add: is_digit_def le_diff_conv)

lemma three_digits:
  assumes "(x :: nat) \<le> 9" and "y \<le> 9" and "z \<le> 9"
  shows "100 * x + 10 * y + z = 666 \<longleftrightarrow> x = 6 \<and> y = 6 \<and> z = 6"
    and "900 \<le> 100 * x + 10 * y + z \<longleftrightarrow> x = 9"
proof -
  show "100 * x + 10 * y + z = 666 \<longleftrightarrow> x = 6 \<and> y = 6 \<and> z = 6"
  proof
    assume e: "100 * x + 10 * y + z = 666"
    with assms have x: "x = 6" by linarith
    with e assms have "y = 6" by linarith
    with e x show "x = 6 \<and> y = 6 \<and> z = 6" by simp
  qed simp
  show "900 \<le> 100 * x + 10 * y + z \<longleftrightarrow> x = 9" using assms by auto
qed

lemma not_sep: "is_digit c \<Longrightarrow> c \<noteq> CHR ''-'' \<and> c \<noteq> CHR '' ''"
  by (auto simp: is_digit_def byte_def)

text \<open>
  on a candidate of the form that the expression matches (three digits, two, four, with separators),
  the validator decides the rules on the numbers: the area is 1 to 899 and not 666, the group is not
  zero and the serial is not zero.
\<close>

theorem ssn_validator_decides:
  assumes "list_all is_digit (area @ grp @ serial)"
    and "length area = 3" and "length grp = 2" and "length serial = 4"
    and "s1 \<in> {CHR ''-'', CHR '' ''}" and "s2 \<in> {CHR ''-'', CHR '' ''}"
  shows "IsValidSSN (area @ [s1] @ grp @ [s2] @ serial) \<longleftrightarrow>
    dec_value area \<in> {1..899} - {666} \<and> dec_value grp \<noteq> 0 \<and> dec_value serial \<noteq> 0"
proof -
  obtain a b c where area: "area = [a, b, c]" using assms(2) by (auto simp: numeral_3_eq_3 length_Suc_conv)
  obtain d e where grp: "grp = [d, e]" using assms(3) by (auto simp: numeral_2_eq_2 length_Suc_conv)
  obtain f g h i where serial: "serial = [f, g, h, i]"
    using assms(4) by (auto simp: numeral_eq_Suc length_Suc_conv)
  have dg: "is_digit x" if "x \<in> {a, b, c, d, e, f, g, h, i}" for x
    using assms(1) that unfolding area grp serial by auto
  have eqs: "x = CHR ''0'' \<longleftrightarrow> byte x - 48 = 0" "x = CHR ''6'' \<longleftrightarrow> byte x - 48 = 6" "x = CHR ''9'' \<longleftrightarrow> byte x - 48 = 9"
    "byte x - 48 \<le> 9" if "x \<in> {a, b, c, d, e, f, g, h, i}" for x
    using digit_is[OF dg[OF that], of 0] digit_is[OF dg[OF that], of 6] digit_is[OF dg[OF that], of 9]
      digit_le[OF dg[OF that]] unfolding digit_chars by simp_all
  have keep: "filter (\<lambda>c. c \<noteq> CHR ''-'' \<and> c \<noteq> CHR '' '') (area @ [s1] @ grp @ [s2] @ serial) =
      [a, b, c, d, e, f, g, h, i]"
    using assms(5,6) not_sep[OF dg] unfolding area grp serial by auto
  have v: "IsValidSSN (area @ [s1] @ grp @ [s2] @ serial) \<longleftrightarrow>
      \<not> ([a, b, c] = ''000'' \<or> [a, b, c] = ''666'' \<or> a = CHR ''9'') \<and> [d, e] \<noteq> ''00'' \<and> [f, g, h, i] \<noteq> ''0000''"
    unfolding IsValidSSN_def keep Let_def by (simp add: numeral_3_eq_3 numeral_2_eq_2 eval_nat_numeral)
  have grp0: "[d, e] = ''00'' \<longleftrightarrow> dec_value grp = 0" and ser0: "[f, g, h, i] = ''0000'' \<longleftrightarrow> dec_value serial = 0"
    unfolding grp serial dec_value_2 dec_value_4 using eqs(1) by auto
  have "[a, b, c] = ''000'' \<longleftrightarrow> dec_value area = 0"
    unfolding area dec_value_3 using eqs(1) by auto
  moreover have "[a, b, c] = ''666'' \<longleftrightarrow> dec_value area = 666"
    unfolding area dec_value_3 using eqs(2)[of a] eqs(2)[of b] eqs(2)[of c]
      three_digits(1)[OF eqs(4)[of a] eqs(4)[of b] eqs(4)[of c]] by simp
  moreover have "a = CHR ''9'' \<longleftrightarrow> 900 \<le> dec_value area"
    unfolding area dec_value_3
    using eqs(3)[of a] three_digits(2)[OF eqs(4)[of a] eqs(4)[of b] eqs(4)[of c]] by simp
  ultimately show ?thesis unfolding v grp0 ser0 by auto
qed

theorem ssn_validator_decides_witness:
  "IsValidSSN (''123'' @ [CHR ''-''] @ ''45'' @ [CHR '' ''] @ ''6789'') \<longleftrightarrow>
    dec_value ''123'' \<in> {1..899} - {666} \<and> dec_value ''45'' \<noteq> 0 \<and> dec_value ''6789'' \<noteq> 0"
  by (rule ssn_validator_decides) (simp_all add: is_digit_def byte_def)

section \<open>Card numbers\<close>

definition number_char :: "char \<Rightarrow> bool" where
  "number_char c \<longleftrightarrow> is_digit c \<or> c = CHR ''-'' \<or> c = CHR '' ''"

definition digits_of :: "string \<Rightarrow> nat list" where
  "digits_of s = map (\<lambda>c. byte c - 48) (filter is_digit s)"

lemma collect_digits_iff:
  "length ds \<le> 24 \<Longrightarrow> collect_digits s ds = Some r \<longleftrightarrow>
     list_all number_char s \<and> r = ds @ digits_of s \<and> length r \<le> 24"
proof (induction s arbitrary: ds)
  case (Cons c s)
  show ?case
  proof (cases "is_digit c")
    case True
    then have d: "digits_of (c # s) = (byte c - 48) # digits_of s" "number_char c"
      by (simp_all add: digits_of_def number_char_def)
    show ?thesis
    proof (cases "24 \<le> length ds")
      case True
      with \<open>is_digit c\<close> Cons.prems d show ?thesis by auto
    next
      case False
      then show ?thesis using Cons.IH[of "ds @ [byte c - 48]"] \<open>is_digit c\<close> d by simp
    qed
  next
    case False
    then have "digits_of (c # s) = digits_of s" "number_char c \<longleftrightarrow> c = CHR ''-'' \<or> c = CHR '' ''"
      by (simp_all add: digits_of_def number_char_def)
    with False Cons.IH[OF Cons.prems] show ?thesis by simp
  qed
qed (auto simp: digits_of_def)

lemma VerifyLuhn_iff:
  "VerifyLuhn s \<longleftrightarrow> list_all number_char s \<and> 13 \<le> length (digits_of s) \<and> length (digits_of s) \<le> 19 \<and>
     luhn_sum False (rev (digits_of s)) mod 10 = 0"
proof (cases "collect_digits s []")
  case None
  with collect_digits_iff[of "[]" s "digits_of s"] show ?thesis by (auto simp: VerifyLuhn_def)
next
  case (Some r)
  with collect_digits_iff[of "[]" s r] show ?thesis by (auto simp: VerifyLuhn_def)
qed

definition weight :: "bool \<Rightarrow> nat \<Rightarrow> nat" where
  "weight alternate d = (if alternate then (if 2 * d > 9 then 2 * d - 9 else 2 * d) else d)"

lemma luhn_sum_append:
  "luhn_sum alt (xs @ ys) = luhn_sum alt xs + luhn_sum (if even (length xs) then alt else \<not> alt) ys"
  by (induction alt xs rule: luhn_sum.induct) auto

lemma luhn_sum_Cons: "luhn_sum alt (d # ds) = weight alt d + luhn_sum (\<not> alt) ds"
  by (simp add: weight_def)

lemma weight_le: "d \<le> 9 \<Longrightarrow> weight alt d \<le> 9"
  by (auto simp: weight_def)

lemma weight_inj:
  assumes "d \<le> 9" and "e \<le> 9" and "weight alt d mod 10 = weight alt e mod 10"
  shows "d = e"
proof -
  have "weight alt d = weight alt e"
    using assms weight_le[of d alt] weight_le[of e alt] by simp
  then show ?thesis using assms(1,2) by (cases alt) (simp_all add: weight_def split: if_splits, presburger+)
qed

lemma digit_cases: "(d :: nat) \<le> 9 \<Longrightarrow> d = 0 \<or> d = 1 \<or> d = 2 \<or> d = 3 \<or> d = 4 \<or> d = 5 \<or> d = 6 \<or> d = 7 \<or> d = 8 \<or> d = 9"
  by arith

lemma weight_swap_True:
  "(d :: nat) \<le> 9 \<Longrightarrow> e \<le> 9 \<Longrightarrow> (weight True d + e) mod 10 = (weight True e + d) mod 10 \<Longrightarrow>
     d = e \<or> d = 0 \<and> e = 9 \<or> d = 9 \<and> e = 0"
  by (drule digit_cases, drule digit_cases, elim disjE) (simp_all add: weight_def)

lemma weight_swap:
  "d \<le> 9 \<Longrightarrow> e \<le> 9 \<Longrightarrow> (weight alt d + weight (\<not> alt) e) mod 10 = (weight alt e + weight (\<not> alt) d) mod 10 \<Longrightarrow>
     d = e \<or> d = 0 \<and> e = 9 \<or> d = 9 \<and> e = 0"
  using weight_swap_True[of d e] weight_swap_True[of e d]
  by (cases alt) (auto simp: weight_def[of False] add.commute)

lemma mod_sum_cancel:
  assumes "(a + x + b) mod 10 = (0 :: nat)" and "(a + y + b) mod 10 = 0"
  shows "x mod 10 = y mod 10"
proof -
  have "z mod 10 = (9 * (a + b)) mod 10" if "(a + z + b) mod 10 = 0" for z
  proof -
    have "z mod 10 = (a + z + b + 9 * (a + b)) mod 10"
      using mod_mult_self1[of z "a + b" 10] by (simp add: algebra_simps)
    also have "\<dots> = ((a + z + b) mod 10 + 9 * (a + b)) mod 10" by (simp only: mod_add_left_eq)
    finally show ?thesis using that by simp
  qed
  with assms show ?thesis by metis
qed

lemma digits_of_append [simp]: "digits_of (u @ v) = digits_of u @ digits_of v"
  by (simp add: digits_of_def)

lemma digits_of_Cons [simp]: "is_digit c \<Longrightarrow> digits_of (c # s) = (byte c - 48) # digits_of s"
  by (simp add: digits_of_def)

text \<open>
  the card validator detects every single wrong digit: of two numbers that differ in one digit at
  most one passes.
\<close>

theorem luhn_detects_wrong_digit:
  assumes "VerifyLuhn (u @ [c] @ v)" and "is_digit c" and "is_digit d" and "c \<noteq> d"
  shows "\<not> VerifyLuhn (u @ [d] @ v)"
proof
  assume d: "VerifyLuhn (u @ [d] @ v)"
  let ?r = "rev (digits_of v)" and ?l = "rev (digits_of u)"
  let ?alt = "odd (length ?r)"
  have s: "luhn_sum False (rev (digits_of (u @ [x] @ v))) =
      luhn_sum False ?r + weight ?alt (byte x - 48) + luhn_sum (\<not> ?alt) ?l" if "is_digit x" for x
    using that by (simp add: luhn_sum_append luhn_sum_Cons del: luhn_sum.simps(2))
  have "weight ?alt (byte c - 48) mod 10 = weight ?alt (byte d - 48) mod 10"
    using assms(1) d s[OF assms(2)] s[OF assms(3)] mod_sum_cancel unfolding VerifyLuhn_iff by metis
  then have "byte c - 48 = byte d - 48"
    using weight_inj digit_le[OF assms(2)] digit_le[OF assms(3)] by blast
  then have "byte c = byte d" using assms(2,3) unfolding is_digit_def by linarith
  with assms(4) show False by (simp add: byte_inject)
qed

theorem luhn_detects_wrong_digit_witness: "\<not> VerifyLuhn (''411111111111'' @ [CHR ''2''] @ ''111'')"
  by (rule luhn_detects_wrong_digit[where c = "CHR ''1''"]) code_simp+

text \<open>
  the card validator detects every swap of two adjacent digits, except that of 0 and 9.
\<close>

theorem luhn_detects_swap:
  assumes "VerifyLuhn (u @ [c, d] @ v)" and "is_digit c" and "is_digit d" and "c \<noteq> d"
    and "{c, d} \<noteq> {CHR ''0'', CHR ''9''}"
  shows "\<not> VerifyLuhn (u @ [d, c] @ v)"
proof
  assume w: "VerifyLuhn (u @ [d, c] @ v)"
  let ?r = "rev (digits_of v)" and ?l = "rev (digits_of u)"
  let ?alt = "odd (length ?r)"
  let ?w = "\<lambda>x y. weight ?alt (byte y - 48) + weight (\<not> ?alt) (byte x - 48)"
  have s: "luhn_sum False (rev (digits_of (u @ [x, y] @ v))) =
      luhn_sum False ?r + ?w x y + luhn_sum ?alt ?l" if "is_digit x" "is_digit y" for x y
    using that by (simp add: luhn_sum_append luhn_sum_Cons del: luhn_sum.simps(2))
  have "?w c d mod 10 = ?w d c mod 10"
    using assms(1) w s[OF assms(2,3)] s[OF assms(3,2)] mod_sum_cancel unfolding VerifyLuhn_iff by metis
  then consider "byte c - 48 = byte d - 48" | "byte c - 48 = 0" "byte d - 48 = 9" | "byte c - 48 = 9" "byte d - 48 = 0"
    using weight_swap[OF digit_le[OF assms(3)] digit_le[OF assms(2)], of ?alt] by auto
  then show False
  proof cases
    case 1
    then have "byte c = byte d" using assms(2,3) unfolding is_digit_def by linarith
    with assms(4) show False by (simp add: byte_inject)
  next
    case 2
    then have "c = CHR ''0''" "d = CHR ''9''"
      using digit_is[OF assms(2), of 0] digit_is[OF assms(3), of 9] unfolding digit_chars by auto
    with assms(5) show False by simp
  next
    case 3
    then have "c = CHR ''9''" "d = CHR ''0''"
      using digit_is[OF assms(2), of 9] digit_is[OF assms(3), of 0] unfolding digit_chars by auto
    with assms(5) show False by auto
  qed
qed

theorem luhn_detects_swap_witness: "\<not> VerifyLuhn ([] @ [CHR ''1'', CHR ''4''] @ ''11111111111111'')"
  by (rule luhn_detects_swap) (code_simp | simp)+

end
