(* ===== verification/Inbound_DLP.thy ===== *)
theory Inbound_DLP
  imports Pipeline Regex Session_Vault PII_Validators
begin

text \<open>
  The scanner of \<open>internal/inbound/dlp.go\<close>: seven expressions, two of them with a validator, whose
  matches are replaced by pseudonyms of the session vault.
\<close>

section \<open>Expressions\<close>

definition ReAWSAccessKey :: regex where
  "ReAWSAccessKey = Seq [WordB,
     Alts [Cat (Str ''A3T'') up_num, Str ''AKIA'', Str ''AGPA'', Str ''AROA'', Str ''AIPA'',
           Str ''ANPA'', Str ''ANVA'', Str ''ASIA''],
     Times 16 up_num, WordB]"

definition ReGitHubToken :: regex where
  "ReGitHubToken = Seq [WordB,
     Alts [Seq [Str ''ghp_'', Times 36 alnum],
           Seq [Str ''github_pat_'', Times 22 alnum, Str ''_'', Times 59 alnum]],
     WordB]"

definition ReOpenAIKey :: regex where
  "ReOpenAIKey = Alts
     [Seq [WordB, Str ''sk-'', Times 20 alnum, Str ''T3BlbkFJ'', Times 20 alnum, WordB],
      Seq [WordB, Str ''sk-proj-'', AtLeast 40 key_char, WordB],
      Seq [WordB, Str ''sk-'', AtLeast 32 alnum, WordB]]"

definition RePrivateKey :: regex where
  "RePrivateKey = Seq [Str ''-----BEGIN '', Opt (Seq [AtLeast 1 label_char, Str '' '']), Str ''PRIVATE KEY-----'']"

definition ReDatabaseURI :: regex where
  "ReDatabaseURI = Seq [WordB,
     Alts [Str ''postgres'', Str ''postgresql'', Str ''mysql'', Str ''mongodb'', Str ''redis''],
     Str ''://'', AtLeast 1 uri_char, WordB]"

definition ReSSN :: regex where
  "ReSSN = Seq [WordB, Times 3 digit, digit_sep, Times 2 digit, digit_sep, Times 4 digit, WordB]"

definition ReCreditCard :: regex where
  "ReCreditCard = Alts
     [Seq [WordB,
        Alts [Seq [Str ''4'', Times 12 digit, Opt (Times 3 digit)],
              Seq [Str ''5'', Class False [(0x31, 0x35)], Times 14 digit],
              Seq [Str ''3'', Class False [(0x34, 0x34), (0x37, 0x37)], Times 13 digit],
              Seq [Str ''6'', Alts [Str ''011'', Seq [Str ''5'', Times 2 digit]], Times 12 digit]],
        WordB],
      Seq [WordB, Times 3 (Cat (Times 4 digit) digit_sep), Times 4 digit, WordB]]"

section \<open>Redaction\<close>

definition redaction_record :: "string \<Rightarrow> string \<Rightarrow> PolicyViolation" where
  "redaction_record ruleName pseudo = \<lparr>RuleID = ruleName, Stage = ''dlp_scanner'',
     Description = ''Redacted sensitive pattern '' @ ruleName @ '' with '' @ pseudo,
     Severity = ''medium'', Shadow = False\<rparr>"

text \<open>The loop over the matches; the state is the payload so far, the context and the vault.\<close>

fun redact_loop :: "string \<Rightarrow> string \<Rightarrow> (string \<Rightarrow> bool) option \<Rightarrow> bytes list \<Rightarrow> bytes set \<Rightarrow>
    bytes \<times> PipelineContext \<times> SessionVault \<Rightarrow> bytes \<times> PipelineContext \<times> SessionVault" where
  "redact_loop key ruleName validator [] seen st = st"
| "redact_loop key ruleName validator (m # ms) seen (result, ctx, v) =
     (if m \<in> seen then redact_loop key ruleName validator ms seen (result, ctx, v)
      else if (case validator of None \<Rightarrow> False | Some f \<Rightarrow> \<not> f m)
      then redact_loop key ruleName validator ms (insert m seen) (result, ctx, v)
      else case Store key m v of (p, v') \<Rightarrow>
        redact_loop key ruleName validator ms (insert m seen)
          (replace_all m p result,
           ctx\<lparr>Violations := Violations ctx @ [redaction_record ruleName p]\<rparr>, v'))"

definition redactMatches :: "string \<Rightarrow> regex \<times> string \<times> (string \<Rightarrow> bool) option \<Rightarrow>
    PipelineContext \<times> SessionVault \<Rightarrow> PipelineContext \<times> SessionVault" where
  "redactMatches key rule st =
     (case rule of (re, ruleName, validator) \<Rightarrow> case st of (ctx, v) \<Rightarrow>
        let matches = find_all re (CleanPayload ctx) in
        if matches = [] then (ctx, v)
        else case redact_loop key ruleName validator matches {} (CleanPayload ctx, ctx, v) of
          (result, ctx', v') \<Rightarrow> (ctx'\<lparr>CleanPayload := result\<rparr>, v'))"

definition dlp_rules :: "(regex \<times> string \<times> (string \<Rightarrow> bool) option) list" where
  "dlp_rules =
     [(ReAWSAccessKey, ''AWS_ACCESS_KEY'', None),
      (ReGitHubToken, ''GITHUB_TOKEN'', None),
      (ReOpenAIKey, ''OPENAI_API_KEY'', None),
      (RePrivateKey, ''PRIVATE_KEY_HEADER'', None),
      (ReDatabaseURI, ''DATABASE_CONNECTION_URI'', None),
      (ReSSN, ''US_SSN'', Some IsValidSSN),
      (ReCreditCard, ''CREDIT_CARD_PAN'', Some VerifyLuhn)]"

definition session_key :: "PipelineContext \<Rightarrow> string" where
  "session_key ctx = (if SessionID ctx \<noteq> [] then TenantID ctx @ '':'' @ SessionID ctx else TenantID ctx)"

definition DLP_Execute :: "PipelineContext \<Rightarrow> SessionVault \<Rightarrow> PipelineContext \<times> SessionVault \<times> outcome" where
  "DLP_Execute ctx v =
     (if CleanPayload ctx = [] then (ctx, v, Returned StageContinue)
      else case fold (redactMatches (session_key ctx)) dlp_rules (ctx, v) of
        (ctx', v') \<Rightarrow> (ctx', v', Returned StageContinue))"

definition dlp_scanner_stage :: "SessionVault Stage" where
  "dlp_scanner_stage = \<lparr>Name = ''dlp_scanner'', FailClosed = True, Execute = DLP_Execute\<rparr>"

declare dlp_scanner_stage_def [stage_defs]

section \<open>The stage keeps the request\<close>

lemma redact_loop_ctx:
  "redact_loop key rn val ms seen (r, ctx, v) = (r', ctx', v') \<Longrightarrow>
     \<exists>vs. ctx' = ctx\<lparr>Violations := Violations ctx @ vs\<rparr>"
proof (induction key rn val ms seen "(r, ctx, v)" arbitrary: r ctx v rule: redact_loop.induct)
  case (1 key rn val seen)
  then show ?case by (intro exI[of _ "[]"]) simp
next
  case (2 key rn val m ms seen r ctx v)
  then show ?case by (auto split: if_splits prod.splits)
qed

lemma redactMatches_ctx:
  "redactMatches key rule (ctx, v) = (ctx', v') \<Longrightarrow>
     \<exists>p vs. ctx' = ctx\<lparr>CleanPayload := p, Violations := Violations ctx @ vs\<rparr>"
proof -
  assume a: "redactMatches key rule (ctx, v) = (ctx', v')"
  obtain re rn val where rule: "rule = (re, rn, val)" by (cases rule)
  show ?thesis
  proof (cases "find_all re (CleanPayload ctx) = []")
    case True
    with a rule show ?thesis
      by (intro exI[of _ "CleanPayload ctx"] exI[of _ "[]"]) (simp add: redactMatches_def)
  next
    case False
    obtain r1 c1 v1 where l: "redact_loop key rn val (find_all re (CleanPayload ctx)) {}
        (CleanPayload ctx, ctx, v) = (r1, c1, v1)" by (metis prod_cases3)
    from redact_loop_ctx[OF l] obtain vs where "c1 = ctx\<lparr>Violations := Violations ctx @ vs\<rparr>" ..
    with a rule False l show ?thesis
      by (intro exI[of _ r1] exI[of _ vs]) (cases ctx, auto simp: redactMatches_def)
  qed
qed

lemma passes_ctx:
  "fold (redactMatches key) rules (ctx, v) = (ctx', v') \<Longrightarrow>
     \<exists>p vs. ctx' = ctx\<lparr>CleanPayload := p, Violations := Violations ctx @ vs\<rparr>"
proof (induction rules arbitrary: ctx v)
  case Nil
  then show ?case by (intro exI[of _ "CleanPayload ctx"] exI[of _ "[]"]) simp
next
  case (Cons r rules)
  obtain ctx1 v1 where s: "redactMatches key r (ctx, v) = (ctx1, v1)" by fastforce
  from redactMatches_ctx[OF s] obtain p vs where c1: "ctx1 = ctx\<lparr>CleanPayload := p, Violations := Violations ctx @ vs\<rparr>"
    by blast
  have "fold (redactMatches key) rules (ctx1, v1) = (ctx', v')" using Cons.prems s by simp
  from Cons.IH[OF this] obtain p' vs' where
    "ctx' = ctx1\<lparr>CleanPayload := p', Violations := Violations ctx1 @ vs'\<rparr>" by blast
  with c1 show ?case by (intro exI[of _ p'] exI[of _ "vs @ vs'"]) simp
qed

interpretation dlp_scanner: inbound_stage dlp_scanner_stage
proof unfold_locales
  fix ctx w ctx' w' out
  assume e: "Execute dlp_scanner_stage ctx w = (ctx', w', out)"
  then show "out = Returned StageContinue \<or> (out = Returned StageTripwire \<and> MatchedRuleID ctx' \<noteq> [])"
    by (auto simp: stage_defs DLP_Execute_def split: if_splits prod.splits)
  from e show "same_request ctx ctx'"
    by (auto simp: stage_defs DLP_Execute_def same_request_def split: if_splits prod.splits
        dest!: passes_ctx)
qed (simp add: stage_defs)

section \<open>Matches that pseudonyms cannot rebuild\<close>

definition mid_text :: "nat \<Rightarrow> bytes" where "mid_text i = ''REDACTED_SECRET_'' @ dec_nat i"

lemma pseudonym_mid: "pseudonym i = CHR ''['' # mid_text i @ [CHR '']'']"
  by (simp add: pseudonym_def mid_text_def)

definition mid_char :: "char \<Rightarrow> bool" where
  "mid_char c \<longleftrightarrow> is_upper c \<or> is_digit c \<or> c = CHR ''_''"

lemma mid_text_chars: "c \<in> set (mid_text i) \<Longrightarrow> mid_char c"
  using dec_nat_digits[of c i] by (auto simp: mid_text_def mid_char_def is_upper_def byte_def)

lemma mid_text_split:
  assumes "CHR ''_'' \<notin> set m" and "m \<noteq> []" and "contains (mid_text i) m"
  shows "length m \<le> max 8 (length (dec_nat i))"
proof -
  have "mid_text i = ''REDACTED'' @ CHR ''_'' # (''SECRET'' @ CHR ''_'' # dec_nat i)" by (simp add: mid_text_def)
  then have "contains ''REDACTED'' m \<or> contains ''SECRET'' m \<or> contains (dec_nat i) m"
    using assms contains_split[of "CHR ''_''" m] by metis
  then show ?thesis
    using contains_length[of "''REDACTED''" m] contains_length[of "''SECRET''" m]
      contains_length[of "dec_nat i" m] by (auto simp del: contains.simps)
qed

text \<open>A string without brackets that either has a byte no pseudonym has, or is a long one without \<open>_\<close>.\<close>

definition unforgeable :: "bytes \<Rightarrow> bool" where
  "unforgeable m \<longleftrightarrow> m \<noteq> [] \<and> CHR ''['' \<notin> set m \<and> CHR '']'' \<notin> set m \<and>
     ((\<exists>c \<in> set m. \<not> mid_char c) \<or> (CHR ''_'' \<notin> set m \<and> 13 \<le> length m))"

lemma unforgeable_mid:
  assumes "unforgeable m" and "i < 10 ^ 12"
  shows "\<not> contains (mid_text i) m"
proof
  assume c: "contains (mid_text i) m"
  have "\<forall>c \<in> set m. mid_char c" using contains_set[OF c] mid_text_chars by blast
  with assms(1) have "CHR ''_'' \<notin> set m" "13 \<le> length m" "m \<noteq> []" by (auto simp: unforgeable_def)
  with mid_text_split[OF this(1,3) c] dec_nat_length[OF assms(2)] show False by simp
qed

lemma replace_unforgeable:
  assumes "unforgeable m" and "i < 10 ^ 12"
  shows "\<not> contains (replace_all m (pseudonym i) s) m"
    and "\<not> contains s m \<Longrightarrow> \<not> contains (replace_all old (pseudonym i) s) m"
proof -
  have m: "m \<noteq> []" "CHR ''['' \<notin> set m" "CHR '']'' \<notin> set m" using assms(1) by (auto simp: unforgeable_def)
  show "\<not> contains (replace_all m (pseudonym i) s) m"
    unfolding pseudonym_mid by (rule replace_all_removes[OF m unforgeable_mid[OF assms]])
  show "\<not> contains (replace_all old (pseudonym i) s) m" if "\<not> contains s m"
    unfolding pseudonym_mid using that by (rule replace_all_keeps_absent[OF m unforgeable_mid[OF assms]])
qed

text \<open>All rules but the one for database URIs match only such strings.\<close>

definition safe_byte :: "char \<Rightarrow> bool" where "safe_byte c \<longleftrightarrow> c \<noteq> CHR ''['' \<and> c \<noteq> CHR '']''"

lemma safe_Class [simp]: "rx_only safe_byte (Class False rs) \<longleftrightarrow> \<not> in_class False rs (CHR ''['') \<and> \<not> in_class False rs (CHR '']'')"
  by (auto simp: safe_byte_def)

lemma safe_classes [simp]:
  "rx_only safe_byte up_num" "rx_only safe_byte alnum" "rx_only safe_byte key_char" "rx_only safe_byte label_char"
  "rx_only safe_byte digit" "rx_only safe_byte digit_sep"
  unfolding up_num_def alnum_def key_char_def label_char_def digit_def digit_sep_def safe_Class
  by (simp_all add: in_class_def byte_def)

lemma rx_only_Times [simp]: "rx_only A r \<Longrightarrow> rx_only A (Times n r)"
  by (induction n) auto

lemma safe_rules:
  "rx_only safe_byte ReAWSAccessKey" "rx_only safe_byte ReGitHubToken" "rx_only safe_byte ReOpenAIKey"
  "rx_only safe_byte RePrivateKey" "rx_only safe_byte ReSSN" "rx_only safe_byte ReCreditCard"
  by (simp_all add: ReAWSAccessKey_def ReGitHubToken_def ReOpenAIKey_def RePrivateKey_def ReSSN_def
      ReCreditCard_def AtLeast_def Opt_def safe_byte_def in_class_def byte_def del: rx_only.simps(1))

lemma rx_min_Times [simp]: "rx_min (Times n r) = n * rx_min r"
  by (induction n) auto

lemma rx_min_classes [simp]: "rx_min (Lit c) = 1" "rx_min digit = 1" "rx_min up_num = 1"
  by (simp_all add: Lit_def digit_def up_num_def)

lemma no_underscore [simp]:
  "rx_only (\<lambda>c. c \<noteq> CHR ''_'') up_num" "rx_only (\<lambda>c. c \<noteq> CHR ''_'') digit"
  by (auto simp: up_num_def digit_def in_class_def byte_def)

lemma needs_sep [simp]: "rx_needs (\<lambda>c. \<not> mid_char c) digit_sep"
  by (auto simp: digit_sep_def in_class_def mid_char_def is_upper_def is_digit_def byte_def)

lemma matched_unforgeable:
  assumes "matched r m" and "rx_only safe_byte r"
    and "rx_needs (\<lambda>c. \<not> mid_char c) r \<or> rx_only (\<lambda>c. c \<noteq> CHR ''_'') r \<and> 13 \<le> rx_min r"
  shows "unforgeable m"
proof -
  have "m \<noteq> []" using assms(1) by (simp add: matched_def)
  moreover have "list_all safe_byte m" using matched_only[OF assms(1,2)] .
  then have "CHR ''['' \<notin> set m" "CHR '']'' \<notin> set m" unfolding list_all_iff safe_byte_def by blast+
  moreover have "(\<exists>c \<in> set m. \<not> mid_char c) \<or> (CHR ''_'' \<notin> set m \<and> 13 \<le> length m)"
    using assms(3)
  proof
    assume "rx_needs (\<lambda>c. \<not> mid_char c) r"
    from matched_needs[OF assms(1) this] show ?thesis ..
  next
    assume a: "rx_only (\<lambda>c. c \<noteq> CHR ''_'') r \<and> 13 \<le> rx_min r"
    then have "list_all (\<lambda>c. c \<noteq> CHR ''_'') m" using matched_only[OF assms(1)] by blast
    then have "CHR ''_'' \<notin> set m" unfolding list_all_iff by blast
    with a matched_min[OF assms(1)] show ?thesis by auto
  qed
  ultimately show ?thesis unfolding unforgeable_def by blast
qed

definition bracket_free_rules :: "regex list" where
  "bracket_free_rules = [ReAWSAccessKey, ReGitHubToken, ReOpenAIKey, RePrivateKey, ReSSN, ReCreditCard]"

lemma not_mid [simp]: "\<not> mid_char (CHR ''-'')" "\<not> mid_char (CHR ''h'')"
  by (simp_all add: mid_char_def is_upper_def is_digit_def byte_def)

lemma rules_unforgeable:
  assumes "r \<in> set bracket_free_rules" and "matched r m"
  shows "unforgeable m"
proof -
  have aws: "rx_only (\<lambda>c. c \<noteq> CHR ''_'') ReAWSAccessKey" "13 \<le> rx_min ReAWSAccessKey"
    by (simp_all add: ReAWSAccessKey_def)
  have needs: "rx_needs (\<lambda>c. \<not> mid_char c) ReGitHubToken" "rx_needs (\<lambda>c. \<not> mid_char c) ReOpenAIKey"
    "rx_needs (\<lambda>c. \<not> mid_char c) RePrivateKey" "rx_needs (\<lambda>c. \<not> mid_char c) ReSSN"
    by (simp_all add: ReGitHubToken_def ReOpenAIKey_def RePrivateKey_def ReSSN_def)
  obtain A B where card: "ReCreditCard = Alt A B" and A: "rx_only (\<lambda>c. c \<noteq> CHR ''_'') A" "13 \<le> rx_min A"
    and B: "rx_needs (\<lambda>c. \<not> mid_char c) B"
    by (rule that) (auto simp: ReCreditCard_def Opt_def numeral_3_eq_3 in_class_def byte_def)
  have ab: "rx_only safe_byte A" "rx_only safe_byte B" using safe_rules(6) by (simp_all add: card)
  from assms(1) consider "r = ReAWSAccessKey" | "r \<in> {ReGitHubToken, ReOpenAIKey, RePrivateKey, ReSSN}"
    | "r = ReCreditCard" by (auto simp: bracket_free_rules_def)
  then show ?thesis
  proof cases
    case 1
    then show ?thesis using assms(2) safe_rules aws matched_unforgeable by blast
  next
    case 2
    then show ?thesis using assms(2) safe_rules needs matched_unforgeable by blast
  next
    case 3
    then have "matched A m \<or> matched B m" using assms(2) matched_Alt card by metis
    then show ?thesis using ab A B matched_unforgeable by blast
  qed
qed

section \<open>What a pass removes and keeps\<close>

text \<open>From one state of the vault to a later one: nothing stored is lost.\<close>

definition vault_grows :: "string \<Rightarrow> SessionVault \<Rightarrow> SessionVault \<Rightarrow> bool" where
  "vault_grows key v v' \<longleftrightarrow> vault_ok v' \<and> secrets_held key v \<le> secrets_held key v' \<and>
     (\<forall>k q x. secret_of k q v = Some x \<longrightarrow> secret_of k q v' = Some x)"

lemma vault_grows_refl: "vault_ok v \<Longrightarrow> vault_grows key v v"
  by (simp add: vault_grows_def)

lemma vault_grows_trans: "vault_grows key v v1 \<Longrightarrow> vault_grows key v1 v2 \<Longrightarrow> vault_grows key v v2"
  unfolding vault_grows_def by auto

lemma vault_grows_Store: "vault_ok v \<Longrightarrow> Store key m v = (p, v') \<Longrightarrow> vault_grows key v v'"
  unfolding vault_grows_def using vault.store_ok vault.store_grows vault.store_keeps by blast

definition accepts :: "(string \<Rightarrow> bool) option \<Rightarrow> string \<Rightarrow> bool" where
  "accepts validator m \<longleftrightarrow> (case validator of None \<Rightarrow> True | Some f \<Rightarrow> f m)"

lemma redact_loop_skip:
  "m \<in> seen \<or> \<not> accepts val m \<Longrightarrow> redact_loop key rn val (m # ms) seen (r, ctx, v) =
     redact_loop key rn val ms (insert m seen) (r, ctx, v)"
  by (auto simp: accepts_def insert_absorb split: option.splits)

lemma redact_loop_store:
  "m \<notin> seen \<Longrightarrow> accepts val m \<Longrightarrow> Store key m v = (p, v1) \<Longrightarrow>
     redact_loop key rn val (m # ms) seen (r, ctx, v) =
     redact_loop key rn val ms (insert m seen)
       (replace_all m p r, ctx\<lparr>Violations := Violations ctx @ [redaction_record rn p]\<rparr>, v1)"
  by (auto simp: accepts_def split: option.splits)

declare redact_loop.simps(2) [simp del]

lemma redact_loop_keeps:
  "redact_loop key rn val ms seen (r, ctx, v) = (r', ctx', v') \<Longrightarrow> vault_ok v \<Longrightarrow>
     vault_grows key v v' \<and>
     (secrets_held key v' < 10 ^ 12 \<longrightarrow> unforgeable x \<longrightarrow> \<not> contains r x \<longrightarrow> \<not> contains r' x)"
proof (induction ms arbitrary: seen r ctx v)
  case Nil
  then show ?case by (simp add: vault_grows_refl)
next
  case (Cons m ms)
  show ?case
  proof (cases "m \<in> seen \<or> \<not> accepts val m")
    case True
    with Cons show ?thesis by (simp add: redact_loop_skip)
  next
    case False
    obtain p v1 where s: "Store key m v = (p, v1)" by fastforce
    have g: "vault_grows key v v1" by (rule vault_grows_Store[OF Cons.prems(2) s])
    then have ok: "vault_ok v1" by (simp add: vault_grows_def)
    obtain i where i: "p = pseudonym i" "i \<le> secrets_held key v1"
      using vault.store_names[OF Cons.prems(2) s] by blast
    have "redact_loop key rn val ms (insert m seen)
       (replace_all m p r, ctx\<lparr>Violations := Violations ctx @ [redaction_record rn p]\<rparr>, v1) = (r', ctx', v')"
      using Cons.prems(1) False s by (simp add: redact_loop_store)
    note IH = Cons.IH[OF this ok]
    show ?thesis
    proof (intro conjI impI)
      show "vault_grows key v v'" using IH g vault_grows_trans by blast
      assume a: "secrets_held key v' < 10 ^ 12" "unforgeable x" "\<not> contains r x"
      then have "i < 10 ^ 12" using i(2) IH by (auto simp: vault_grows_def)
      with a replace_unforgeable(2)[of x i r m] i(1) IH show "\<not> contains r' x" by auto
    qed
  qed
qed

lemma redact_loop_removes:
  "redact_loop key rn val ms seen (r, ctx, v) = (r', ctx', v') \<Longrightarrow> vault_ok v \<Longrightarrow>
     secrets_held key v' < 10 ^ 12 \<Longrightarrow> m \<in> set ms \<Longrightarrow> m \<notin> seen \<Longrightarrow> accepts val m \<Longrightarrow>
     (\<exists>p. secret_of key p v' = Some m) \<and> (unforgeable m \<longrightarrow> \<not> contains r' m)"
proof (induction ms arbitrary: seen r ctx v)
  case (Cons n ms)
  show ?case
  proof (cases "n \<in> seen \<or> \<not> accepts val n")
    case True
    with Cons.prems have l: "redact_loop key rn val ms (insert n seen) (r, ctx, v) = (r', ctx', v')" and "m \<noteq> n"
      by (auto simp: redact_loop_skip)
    with Cons.IH[OF l] Cons.prems show ?thesis by auto
  next
    case False
    obtain p v1 where s: "Store key n v = (p, v1)" by fastforce
    have g: "vault_grows key v v1" by (rule vault_grows_Store[OF Cons.prems(2) s])
    then have ok: "vault_ok v1" by (simp add: vault_grows_def)
    have l: "redact_loop key rn val ms (insert n seen)
       (replace_all n p r, ctx\<lparr>Violations := Violations ctx @ [redaction_record rn p]\<rparr>, v1) = (r', ctx', v')"
      using Cons.prems(1) False s by (simp add: redact_loop_store)
    show ?thesis
    proof (cases "m = n")
      case False
      with Cons.IH[OF l ok] Cons.prems show ?thesis by auto
    next
      case True
      obtain i where i: "p = pseudonym i" "i \<le> secrets_held key v1"
        using vault.store_names[OF Cons.prems(2) s] by blast
      note keep = redact_loop_keeps[OF l ok, of m]
      have "secret_of key p v' = Some m"
        using keep vault.store_lookup[OF Cons.prems(2) s] True by (auto simp: vault_grows_def)
      moreover have "\<not> contains r' m" if u: "unforgeable m"
      proof -
        have "i < 10 ^ 12" using i(2) keep Cons.prems(3) by (auto simp: vault_grows_def)
        then have "\<not> contains (replace_all n p r) m" using replace_unforgeable(1)[OF u] i(1) True by simp
        with keep u Cons.prems(3) show ?thesis by blast
      qed
      ultimately show ?thesis by blast
    qed
  qed
qed simp

lemma redactMatches_loop:
  assumes "redactMatches key (re, rn, val) (ctx, v) = (ctx', v')"
  shows "\<exists>c. redact_loop key rn val (find_all re (CleanPayload ctx)) {} (CleanPayload ctx, ctx, v) =
    (CleanPayload ctx', c, v')"
  using assms by (cases "find_all re (CleanPayload ctx) = []")
    (auto simp: redactMatches_def Let_def split: prod.splits)

lemma passes_keep:
  "fold (redactMatches key) rules (ctx, v) = (ctx', v') \<Longrightarrow> vault_ok v \<Longrightarrow>
     vault_grows key v v' \<and> (secrets_held key v' < 10 ^ 12 \<longrightarrow> unforgeable x \<longrightarrow>
       \<not> contains (CleanPayload ctx) x \<longrightarrow> \<not> contains (CleanPayload ctx') x)"
proof (induction rules arbitrary: ctx v)
  case Nil
  then show ?case by (simp add: vault_grows_refl)
next
  case (Cons rule rules)
  obtain re rn val where rule: "rule = (re, rn, val)" by (cases rule)
  obtain ctx1 v1 where s: "redactMatches key rule (ctx, v) = (ctx1, v1)" by fastforce
  from redactMatches_loop[OF s[unfolded rule]] obtain c where
    l: "redact_loop key rn val (find_all re (CleanPayload ctx)) {} (CleanPayload ctx, ctx, v) =
      (CleanPayload ctx1, c, v1)" by blast
  note k = redact_loop_keeps[OF l Cons.prems(2), of x]
  then have ok: "vault_ok v1" by (simp add: vault_grows_def)
  have "fold (redactMatches key) rules (ctx1, v1) = (ctx', v')" using Cons.prems(1) s by simp
  note IH = Cons.IH[OF this ok]
  show ?case
  proof (intro conjI impI)
    show "vault_grows key v v'" using k IH vault_grows_trans by blast
    assume a: "secrets_held key v' < 10 ^ 12" "unforgeable x" "\<not> contains (CleanPayload ctx) x"
    then have "secrets_held key v1 < 10 ^ 12" using IH by (auto simp: vault_grows_def)
    with a k IH show "\<not> contains (CleanPayload ctx') x" by blast
  qed
qed

lemma passes_remove:
  assumes run: "fold (redactMatches key) (pre @ (re, rn, val) # post) (ctx, v) = (ctx', v')" and ok: "vault_ok v"
    and small: "secrets_held key v' < 10 ^ 12"
    and m: "m \<in> set (find_all re (CleanPayload (fst (fold (redactMatches key) pre (ctx, v)))))" "accepts val m"
  shows "(\<exists>p. secret_of key p v' = Some m) \<and> (unforgeable m \<longrightarrow> \<not> contains (CleanPayload ctx') m)"
proof -
  obtain c1 v1 where 1: "fold (redactMatches key) pre (ctx, v) = (c1, v1)" by fastforce
  obtain c2 v2 where 2: "redactMatches key (re, rn, val) (c1, v1) = (c2, v2)" by fastforce
  have 3: "fold (redactMatches key) post (c2, v2) = (ctx', v')" using run 1 2 by simp
  have ok1: "vault_ok v1" using passes_keep[OF 1 ok] by (simp add: vault_grows_def)
  from redactMatches_loop[OF 2] obtain c where
    l: "redact_loop key rn val (find_all re (CleanPayload c1)) {} (CleanPayload c1, c1, v1) = (CleanPayload c2, c, v2)"
    by blast
  have ok2: "vault_ok v2" using redact_loop_keeps[OF l ok1] by (simp add: vault_grows_def)
  note k = passes_keep[OF 3 ok2, of m]
  then have "secrets_held key v2 < 10 ^ 12" using small by (auto simp: vault_grows_def)
  from redact_loop_removes[OF l ok1 this _ _ m(2)] m(1) 1
  have "(\<exists>p. secret_of key p v2 = Some m) \<and> (unforgeable m \<longrightarrow> \<not> contains (CleanPayload c2) m)" by simp
  then show ?thesis using k small unfolding vault_grows_def by blast
qed

section \<open>Properties\<close>

text \<open>
  C13: redaction is complete for every rule but that of database URIs. A string that a pass finds in the
  payload it gets and that its validator accepts does not occur in the payload after the stage, not
  even newly formed by the replacements; and it can be found in the session's vault under a pseudonym.
  (The bound on the number of secrets is that no pseudonym's number looks like a card number.)
\<close>

theorem redaction_is_complete:
  assumes "DLP_Execute ctx v = (ctx', v', out)" and "vault_ok v"
    and "secrets_held (session_key ctx) v' < 10 ^ 12"
    and "dlp_rules = pre @ (re, rn, val) # post" and "re \<in> set bracket_free_rules"
    and "m \<in> set (find_all re (CleanPayload (fst (fold (redactMatches (session_key ctx)) pre (ctx, v)))))"
    and "accepts val m" and "CleanPayload ctx \<noteq> []"
  shows "\<not> contains (CleanPayload ctx') m \<and> (\<exists>p. secret_of (session_key ctx) p v' = Some m)"
proof -
  have "fold (redactMatches (session_key ctx)) (pre @ (re, rn, val) # post) (ctx, v) = (ctx', v')"
    using assms(1,8) unfolding DLP_Execute_def assms(4)[symmetric] by (auto split: prod.splits)
  from passes_remove[OF this assms(2,3,6,7)] rules_unforgeable[OF assms(5) find_all_matched[OF assms(6)]]
  show ?thesis by blast
qed

definition aws_example :: PipelineContext where
  "aws_example = new_context\<lparr>TenantID := ''t'', CleanPayload := ''AKIA0123456789ABCDEF''\<rparr>"

theorem redaction_is_complete_witness:
  "\<not> contains (CleanPayload (fst (DLP_Execute aws_example NewSessionVault))) ''AKIA0123456789ABCDEF'' \<and>
   (\<exists>p. secret_of (session_key aws_example) p (fst (snd (DLP_Execute aws_example NewSessionVault))) =
     Some ''AKIA0123456789ABCDEF'')"
proof (rule redaction_is_complete)
  show "DLP_Execute aws_example NewSessionVault = (fst (DLP_Execute aws_example NewSessionVault),
     fst (snd (DLP_Execute aws_example NewSessionVault)), snd (snd (DLP_Execute aws_example NewSessionVault)))"
    by simp
  show "dlp_rules = [] @ (ReAWSAccessKey, ''AWS_ACCESS_KEY'', None) # tl dlp_rules" by (simp add: dlp_rules_def)
  show "''AKIA0123456789ABCDEF'' \<in> set (find_all ReAWSAccessKey (CleanPayload
      (fst (fold (redactMatches (session_key aws_example)) [] (aws_example, NewSessionVault)))))"
    by code_simp
  have "secrets_held (session_key aws_example) (fst (snd (DLP_Execute aws_example NewSessionVault))) = 1"
    by code_simp
  then show "secrets_held (session_key aws_example) (fst (snd (DLP_Execute aws_example NewSessionVault))) < 10 ^ 12"
    by simp
qed (simp_all add: vault_ok_new bracket_free_rules_def accepts_def aws_example_def)

text \<open>
  redaction is not complete for secrets of which one is a prefix of another. The shorter URI is
  replaced first, inside the longer one too, whose own replacement then finds nothing: the password of
  the longer URI stays in the payload, although the vault holds it as redacted.
\<close>

theorem prefix_secret_leaves_rest:
  "(let ctx = new_context\<lparr>TenantID := ''t'', CleanPayload := ''redis://h redis://h/pw1''\<rparr>;
        (ctx', v', out) = DLP_Execute ctx NewSessionVault
    in CleanPayload ctx' = ''[REDACTED_SECRET_1] [REDACTED_SECRET_1]/pw1'' \<and>
       secret_of ''t'' ''[REDACTED_SECRET_2]'' v' = Some ''redis://h/pw1'' \<and>
       map RuleID (Violations ctx') = [''DATABASE_CONNECTION_URI'', ''DATABASE_CONNECTION_URI''])"
  by code_simp

end
