(* ===== verification/Entropy.thy ===== *)
theory Entropy
  imports Json_Decode Pipeline Complex_Main
begin

text \<open>
  \<open>internal/inbound/entropy.go\<close>: the stage that rejects repetitive text (low Shannon entropy) and packed
  text (high entropy in what looks like base64). \<open>float64\<close> is read as a real number here, unlike in Metrics: the
  sums and the logarithm are exact, the thresholds are the decimal constants. The result of the code can differ
  only for texts whose entropy is within rounding errors of a threshold.
\<close>

section \<open>Entropy\<close>

definition DefaultHighEntropyThreshold :: real where "DefaultHighEntropyThreshold = 4.8"
definition DefaultLowEntropyThreshold :: real where "DefaultLowEntropyThreshold = 1"
definition MinLengthForLowEntropy :: nat where "MinLengthForLowEntropy = 100"
definition EntropyWindowSize :: nat where "EntropyWindowSize = 128"
definition EntropyWindowStep :: nat where "EntropyWindowStep = 32"

definition byte_counts :: "bytes \<Rightarrow> nat list" where
  "byte_counts data = map (\<lambda>b. count_list data (char_of b)) [0..<256]"

definition ShannonEntropy :: "bytes \<Rightarrow> real" where
  "ShannonEntropy data =
     (if data = [] then 0
      else let n = real (length data) in
        foldl (\<lambda>entropy cnt. if 0 < cnt then let p = real cnt / n in entropy - p * log 2 p else entropy)
          0 (byte_counts data))"

section \<open>Kinds of text\<close>

definition base64_char :: "char \<Rightarrow> bool" where
  "base64_char c \<longleftrightarrow> is_upper c \<or> is_lower c \<or> is_digit c \<or> c \<in> set ''+/=_-''"

text \<open>The ratio is compared with 0.95 as a fraction; on the empty string it is not a number.\<close>

definition isLikelyBase64OrHex :: "bytes \<Rightarrow> bool" where
  "isLikelyBase64OrHex tok \<longleftrightarrow>
     tok \<noteq> [] \<and> 19 * length tok \<le> 20 * length (filter base64_char tok)"

definition codeKeywords :: "string list" where
  "codeKeywords =
     [''def '', ''function '', ''func '', ''import '', ''class '', ''return '',
      ''var '', ''let '', ''const '', ''public '', ''private '', ''void '', ''int '',
      ''package '', ''struct '', ''echo '', ''console.log'', ''print('', ''<?php'',
      ''#include'', ''using namespace'', ''SELECT '', ''FROM '', ''WHERE '']"

definition isCodeText :: "bytes \<Rightarrow> bool" where
  "isCodeText t =
     (let keywordMatches = length (filter (contains t) codeKeywords) in
      if 2 \<le> keywordMatches then True
      else if 40 < length t then
        let punctuation = length (filter (\<lambda>c. c \<in> set ''{};()[]='') t);
            spaces = count_list t (CHR '' '') + count_list t (CHR 0x0A) + count_list t (CHR 0x09)
        in 1 \<le> keywordMatches \<and> 3 \<le> punctuation \<and> 4 \<le> spaces
      else False)"

text \<open>\<open>strings.Fields\<close>; \<open>cur\<close> is the current field in reverse.\<close>

function go_fields_from :: "bytes \<Rightarrow> bytes \<Rightarrow> bytes list" where
  "go_fields_from cur s =
     (let done = (if cur = [] then [] else [rev cur]) in
      case s of
        [] \<Rightarrow> done
      | c # cs \<Rightarrow>
          (case find (\<lambda>e. e \<noteq> [] \<and> has_prefix s e) space_encodings of
             Some e \<Rightarrow> done @ go_fields_from [] (drop (length e) s)
           | None \<Rightarrow> go_fields_from (c # cur) cs))"
  by pat_completeness auto
termination
  by (relation "measure (\<lambda>(cur, s). length s)") (auto simp: find_Some_iff)

declare go_fields_from.simps [simp del]

definition go_fields :: "bytes \<Rightarrow> bytes list" where "go_fields s = go_fields_from [] s"

function windows :: "bytes \<Rightarrow> bytes list" where
  "windows data =
     (if length data < EntropyWindowSize then []
      else take EntropyWindowSize data # windows (drop EntropyWindowStep data))"
  by pat_completeness auto
termination
  by (relation "measure length") (auto simp: EntropyWindowSize_def EntropyWindowStep_def)

declare windows.simps [simp del]

section \<open>The stage\<close>

record EntropyAnalyzer =
  highThreshold :: real
  lowThreshold :: real

definition NewEntropyAnalyzer :: EntropyAnalyzer where
  "NewEntropyAnalyzer = \<lparr>highThreshold = DefaultHighEntropyThreshold, lowThreshold = DefaultLowEntropyThreshold\<rparr>"

definition hasHighEntropyAnomaly :: "EntropyAnalyzer \<Rightarrow> bytes \<Rightarrow> bool" where
  "hasHighEntropyAnomaly e t =
     (if isCodeText t then False
      else if list_ex (\<lambda>tok. 40 \<le> length tok \<and> isLikelyBase64OrHex tok \<and> highThreshold e \<le> ShannonEntropy tok) (go_fields t)
      then True
      else list_ex (\<lambda>chunk. count_list chunk (CHR '' '') \<le> 2 \<and> isLikelyBase64OrHex chunk \<and>
             highThreshold e \<le> ShannonEntropy chunk \<and> \<not> isCodeText chunk) (windows t))"

record chatMessage =
  cm_Role :: bytes
  cm_Content :: json

record chatRequest =
  cr_Prompt :: json
  cr_Messages :: "chatMessage slice"

definition store_chat_message :: "json \<Rightarrow> chatMessage \<Rightarrow> chatMessage \<times> bool" where
  "store_chat_message = store_struct
     [(''role'', at_field cm_Role (\<lambda>y. cm_Role_update (\<lambda>_. y)) store_string),
      (''content'', at_field cm_Content (\<lambda>y. cm_Content_update (\<lambda>_. y)) store_any)]"

definition store_chat_request :: "json \<Rightarrow> chatRequest \<Rightarrow> chatRequest \<times> bool" where
  "store_chat_request = store_struct
     [(''prompt'', at_field cr_Prompt (\<lambda>y. cr_Prompt_update (\<lambda>_. y)) store_any),
      (''messages'', at_field cr_Messages (\<lambda>y. cr_Messages_update (\<lambda>_. y))
         (store_slice \<lparr>cm_Role = [], cm_Content = JNull\<rparr> store_chat_message))]"

definition string_text :: "json \<Rightarrow> bytes list" where
  "string_text v = (case v of JStr s \<Rightarrow> if s \<noteq> [] then [s] else [] | _ \<Rightarrow> [])"

definition structured_texts :: "bytes \<Rightarrow> bytes list" where
  "structured_texts payload =
     (case json_parse payload of
        None \<Rightarrow> []
      | Some v \<Rightarrow>
          (case store_chat_request v \<lparr>cr_Prompt = JNull, cr_Messages = None\<rparr> of (r, failed) \<Rightarrow>
             if failed then []
             else concat (map (\<lambda>m. string_text (cm_Content m)) (elements (cr_Messages r))) @
               string_text (cr_Prompt r)))"

definition extractInspectableTexts :: "bytes \<Rightarrow> bytes list" where
  "extractInspectableTexts payload =
     (let results = structured_texts payload in if results = [] then [payload] else results)"

fun inspect_texts :: "EntropyAnalyzer \<Rightarrow> bytes list \<Rightarrow> (string \<times> string) option" where
  "inspect_texts e [] = None"
| "inspect_texts e (t # ts) =
     (if MinLengthForLowEntropy \<le> length t \<and> ShannonEntropy t \<le> lowThreshold e
      then Some (''ENTROPY_LOW_REPETITION'', ''DOS_REPETITION: abnormally low entropy'')
      else if hasHighEntropyAnomaly e t
      then Some (''ENTROPY_HIGH_OBFUSCATION'', ''OBFUSCATION: abnormally high entropy in non-code text'')
      else inspect_texts e ts)"

definition Entropy_Execute :: "EntropyAnalyzer \<Rightarrow> PipelineContext \<Rightarrow> 'w \<Rightarrow> PipelineContext \<times> 'w \<times> outcome" where
  "Entropy_Execute e ctx w =
     (if CleanPayload ctx = [] then (ctx, w, Returned StageContinue)
      else case inspect_texts e (extractInspectableTexts (CleanPayload ctx)) of
        Some (rule, violation) \<Rightarrow>
          (ctx\<lparr>MatchedRuleID := rule, ViolationType := violation\<rparr>, w, Returned StageTripwire)
      | None \<Rightarrow> (ctx, w, Returned StageContinue))"

definition entropy_stage :: "'w Stage" where
  "entropy_stage = \<lparr>Name = ''entropy_analyzer'', FailClosed = True, Execute = Entropy_Execute NewEntropyAnalyzer\<rparr>"

declare entropy_stage_def [stage_defs]

lemma inspect_texts_rule: "inspect_texts e ts = Some (r, v) \<Longrightarrow> r \<noteq> []"
  by (induction ts) (auto split: if_splits)

interpretation entropy: inbound_stage entropy_stage
  by unfold_locales
     (auto simp: stage_defs Entropy_Execute_def same_request_def dest: inspect_texts_rule
        split: if_splits option.splits)

section \<open>Bounds on the entropy\<close>

definition freq :: "bytes \<Rightarrow> char \<Rightarrow> real" where
  "freq data c = real (count_list data c) / real (length data)"

lemma foldl_minus: "foldl (\<lambda>e x. if P x then e - g x else e) a xs = a - (\<Sum>x\<leftarrow>xs. if P x then g x else (0 :: real))"
  by (induction xs arbitrary: a) auto

lemma entropy_sum:
  assumes "data \<noteq> []"
  shows "ShannonEntropy data = (\<Sum>c \<in> set data. - freq data c * log 2 (freq data c))"
proof -
  let ?g = "\<lambda>c. if 0 < count_list data c then freq data c * log 2 (freq data c) else 0"
  let ?q = "\<lambda>n. real n / real (length data) * log 2 (real n / real (length data))"
  have "ShannonEntropy data = foldl (\<lambda>e n. if 0 < n then e - ?q n else e) 0 (byte_counts data)"
    using assms unfolding ShannonEntropy_def Let_def by simp
  also have "\<dots> = - (\<Sum>b \<leftarrow> [0..<256]. ?g (char_of b))"
    unfolding foldl_minus[of "\<lambda>n. 0 < n" ?q] byte_counts_def freq_def by (simp add: comp_def)
  also have "(\<Sum>b \<leftarrow> [0..<256]. ?g (char_of b)) = (\<Sum>b \<in> {0::nat..<256}. ?g (char_of b))"
    by (simp only: interv_sum_list_conv_sum_set_nat atLeastLessThan_upt)
  also have "\<dots> = (\<Sum>c \<in> UNIV. ?g c)"
    unfolding UNIV_char_of_nat by (rule sum.reindex[OF inj_on_char_of_nat, unfolded comp_def, symmetric])
  also have "\<dots> = (\<Sum>c \<in> set data. freq data c * log 2 (freq data c))"
    by (intro sum.mono_neutral_cong_right) (auto simp: count_list_0_iff)
  finally show ?thesis by (simp add: sum_negf)
qed

lemma freq_pos: "c \<in> set data \<Longrightarrow> 0 < freq data c"
  using count_list_0_iff[of data c] by (cases data) (auto simp: freq_def)

lemma freq_sum: "data \<noteq> [] \<Longrightarrow> (\<Sum>c \<in> set data. freq data c) = 1"
proof -
  assume "data \<noteq> []"
  moreover have "(\<Sum>c \<in> set data. real (count_list data c)) = real (length data)"
    by (simp only: of_nat_sum[symmetric] sum_count_set[of data "set data"] finite_set subset_refl)
  ultimately show ?thesis by (simp add: freq_def flip: sum_divide_distrib)
qed

lemma entropy_le_log_card:
  assumes "data \<noteq> []"
  shows "ShannonEntropy data \<le> log 2 (card (set data))"
proof -
  define k where "k = real (card (set data))"
  have k: "0 < k" using assms by (simp add: k_def card_gt_0_iff)
  have step: "- freq data c * log 2 (freq data c) - freq data c * log 2 k \<le> (1 / k - freq data c) / ln 2"
    if "c \<in> set data" for c
  proof -
    let ?p = "freq data c"
    have p: "0 < ?p" by (rule freq_pos[OF that])
    have "ln (1 / (?p * k)) = - ln ?p - ln k" using p k by (simp add: ln_div ln_mult)
    then have "- ?p * log 2 ?p - ?p * log 2 k = ?p * (ln (1 / (?p * k)) / ln 2)"
      by (simp add: log_def diff_divide_distrib right_diff_distrib)
    also have "\<dots> \<le> ?p * ((1 / (?p * k) - 1) / ln 2)"
      using p k by (intro mult_left_mono divide_right_mono ln_le_minus_one) auto
    also have "\<dots> = (1 / k - ?p) / ln 2" using p k by (simp add: field_simps)
    finally show ?thesis .
  qed
  have "ShannonEntropy data - log 2 k =
      (\<Sum>c \<in> set data. - freq data c * log 2 (freq data c) - freq data c * log 2 k)"
    using freq_sum[OF assms] by (simp add: entropy_sum[OF assms] sum_subtractf flip: sum_distrib_right)
  also have "\<dots> \<le> (\<Sum>c \<in> set data. (1 / k - freq data c) / ln 2)" by (rule sum_mono) (rule step)
  also have "\<dots> = 0"
    using freq_sum[OF assms] k by (simp add: sum_subtractf flip: sum_divide_distrib) (simp add: k_def)
  finally show ?thesis by (simp add: k_def)
qed

lemma go_fields_subset: "t \<in> set (go_fields_from cur s) \<Longrightarrow> set t \<subseteq> set cur \<union> set s"
proof (induction cur s arbitrary: t rule: go_fields_from.induct)
  case (1 cur s)
  show ?case
  proof (cases s)
    case Nil
    with "1.prems" have "t \<in> set (if cur = [] then [] else [rev cur])"
      by (subst (asm) go_fields_from.simps) (simp add: Let_def)
    then show ?thesis by (auto split: if_splits)
  next
    case (Cons c cs)
    show ?thesis
    proof (cases "find (\<lambda>e. e \<noteq> [] \<and> has_prefix s e) space_encodings")
      case None
      then have "go_fields_from cur s = go_fields_from (c # cur) cs"
        using Cons by (subst go_fields_from.simps) (simp add: Let_def)
      then show ?thesis using "1.prems" "1.IH"(1)[OF refl Cons None, of t] Cons by auto
    next
      case (Some e)
      have "t \<in> set (if cur = [] then [] else [rev cur]) \<or> t \<in> set (go_fields_from [] (drop (length e) s))"
        using "1.prems" Some Cons by (subst (asm) go_fields_from.simps) (auto simp: Let_def)
      then show ?thesis
        using "1.IH"(2)[OF refl Cons Some, of t] set_drop_subset[of "length e" s] by (auto split: if_splits)
    qed
  qed
qed

lemma windows_subset: "t \<in> set (windows s) \<Longrightarrow> set t \<subseteq> set s"
proof (induction s arbitrary: t rule: windows.induct)
  case (1 s)
  then show ?case
    by (subst (asm) windows.simps) (auto split: if_splits dest: in_set_takeD in_set_dropD)
qed

lemma log_27: "log 2 27 < (4.8 :: real)"
proof -
  have "5 * log 2 27 = log 2 (27 ^ 5)" using log_nat_power[of 27 2 5] by simp
  also have "\<dots> < log 2 (2 ^ 24)" by (intro log_less) simp_all
  also have "\<dots> = 24" using log_nat_power[of 2 2 24] by simp
  finally show ?thesis by simp
qed

lemma small_alphabet:
  assumes "set tok \<subseteq> set t" and "card (set t) < 28"
  shows "\<not> 4.8 \<le> ShannonEntropy tok"
proof (cases "tok = []")
  case True
  then show ?thesis by (simp add: ShannonEntropy_def)
next
  case False
  have "card (set tok) \<le> 27" using card_mono[OF _ assms(1)] assms(2) by simp
  moreover have "0 < card (set tok)" using False by (simp add: card_gt_0_iff)
  ultimately have "log 2 (card (set tok)) \<le> log 2 27" by simp
  then show ?thesis using entropy_le_log_card[OF False] log_27 by linarith
qed

section \<open>Properties\<close>

text \<open>
  repetition is always rejected: if one of the inspected texts, whatever the others are, has at
  least 100 bytes and at most two different byte values, the stage blocks the request.
\<close>

theorem repetition_blocked:
  assumes "CleanPayload ctx \<noteq> []" and "t \<in> set (extractInspectableTexts (CleanPayload ctx))"
    and "100 \<le> length t" and "card (set t) \<le> 2"
  shows "snd (snd (Entropy_Execute NewEntropyAnalyzer ctx w)) = Returned StageTripwire"
proof -
  have "t \<noteq> []" using assms(3) by auto
  then have "0 < card (set t)" by (simp add: card_gt_0_iff)
  then have "log 2 (card (set t)) \<le> log 2 2" using assms(4) by simp
  then have "ShannonEntropy t \<le> 1" using entropy_le_log_card[OF \<open>t \<noteq> []\<close>] by simp
  moreover have "inspect_texts e ts \<noteq> None"
    if "t \<in> set ts" "ShannonEntropy t \<le> lowThreshold e" for e ts
    using that assms(3) by (induction ts) (auto simp: MinLengthForLowEntropy_def)
  ultimately show ?thesis
    using assms(1,2) by (auto simp: Entropy_Execute_def NewEntropyAnalyzer_def DefaultLowEntropyThreshold_def
        split: option.splits)
qed

theorem repetition_blocked_witness:
  "snd (snd (Entropy_Execute NewEntropyAnalyzer (new_context\<lparr>CleanPayload := replicate 100 (CHR ''a'')\<rparr>) ())) =
     Returned StageTripwire"
proof (rule repetition_blocked)
  let ?p = "replicate 100 (CHR ''a'')"
  have "lex (CHR ''a'' # s) = None" for s
    by (simp add: lex.simps is_ws_def num_char_def is_digit_def byte_def)
  then have "json_parse ?p = None" by (simp add: json_parse_def numeral_eq_Suc)
  then show "?p \<in> set (extractInspectableTexts (CleanPayload (new_context\<lparr>CleanPayload := ?p\<rparr>)))"
    by (simp add: extractInspectableTexts_def structured_texts_def)
qed simp_all

text \<open>
  the check for packed text never fires on an alphabet of fewer than 28 symbols, of whatever length
  and content: hexadecimal text, 22 symbols in both cases, always passes it, although the check is
  meant to find hexadecimal payloads too.
\<close>

theorem small_alphabets_pass:
  "\<not> (hasHighEntropyAnomaly NewEntropyAnalyzer t \<and> card (set t) < 28)"
  using small_alphabet[of _ t] go_fields_subset[of _ "[]" t] windows_subset[of _ t]
  by (auto simp: hasHighEntropyAnomaly_def NewEntropyAnalyzer_def DefaultHighEntropyThreshold_def
      go_fields_def list_ex_iff split: if_splits)

end
