(* ===== verification/Json_Text.thy ===== *)
theory Json_Text
  imports Json_Decode
begin

text \<open>
  Text and JSON: an ASCII byte is a boundary for the decoder of UTF-8, so quoting and validating
  commute with concatenation there, and text of plain ASCII characters that is put into a string of a
  document occurs literally in the rendered document.
\<close>

section \<open>ASCII boundaries\<close>

lemma accept_second_ascii: "b1 < 0x80 \<Longrightarrow> \<not> accept_second b b1" "b1 < 0x80 \<Longrightarrow> \<not> cont b1"
  by (auto simp: accept_second_def cont_def)

lemma decode_boundary:
  assumes "is_ascii c" and "s \<noteq> []"
  shows "decode_rune (s @ c # t) = decode_rune s"
proof -
  have c: "byte c < 0x80" using assms(1) by (simp add: is_ascii_def)
  consider a where "s = [a]" | a b where "s = [a, b]" | a b d where "s = [a, b, d]"
    | a b d e u where "s = a # b # d # e # u"
    using assms(2) by (metis list.exhaust)
  then show ?thesis
    using c by cases (auto simp: decode_rune_def decode_bytes_def accept_second_ascii take_Cons'
        split: list.splits)
qed

lemma to_valid_boundary: "is_ascii c \<Longrightarrow> to_valid (s @ c # t) = to_valid s @ to_valid (c # t)"
proof (induction s rule: to_valid.induct)
  case (1 s)
  show ?case
  proof (cases "s = []")
    case False
    then have "to_valid (s @ c # t) = encode_rune (fst (decode_rune s)) @ to_valid (drop (snd (decode_rune s)) s @ c # t)"
      using decode_boundary[OF "1.prems" False, of t] decode_size[OF False] by (subst to_valid.simps) simp
    also have "\<dots> = to_valid s @ to_valid (c # t)"
      using "1.IH"[OF False "1.prems"] False by (subst (2) to_valid.simps) simp
    finally show ?thesis .
  qed simp
qed

lemma quote_body_boundary: "is_ascii c \<Longrightarrow> quote_body (s @ c # t) = quote_body s @ quote_body (c # t)"
proof (induction s rule: quote_body.induct)
  case 1
  then show ?case by (simp add: quote_body.simps(1))
next
  case (2 x xs)
  obtain r n where d: "decode_rune (x # xs) = (r, n)" by fastforce
  then have n: "n \<le> length (x # xs)" using decode_size[of "x # xs"] by simp
  show ?case
  proof (cases "is_ascii x")
    case True
    then show ?thesis using 2 by (simp add: quote_body.simps(2)[of x])
  next
    case False
    have "decode_rune (x # xs @ c # t) = (r, n)" using decode_boundary[OF "2.prems", of "x # xs" t] d by simp
    moreover have "drop n (x # xs @ c # t) = drop n (x # xs) @ c # t" "take n (x # xs @ c # t) = take n (x # xs)"
      using n by (simp_all only: append_Cons[symmetric] drop_append take_append) simp_all
    ultimately show ?thesis
      using False d 2(2)[OF False d[symmetric] refl "2.prems"]
      by (simp only: append_Cons quote_body.simps(2)[of x] Let_def prod.case if_False append_assoc)
  qed
qed

section \<open>Plain text in documents\<close>

lemma html_safe_ascii: "html_safe c \<Longrightarrow> is_ascii c"
  by (simp add: html_safe_def is_ascii_def)

lemma quote_body_safe: "list_all html_safe p \<Longrightarrow> quote_body (p @ t) = p @ quote_body t"
  by (induction p) (auto simp: quote_body.simps(2) quote_ascii_def dest: html_safe_ascii)

lemma contains_quote_body:
  assumes "list_all html_safe p" and "p \<noteq> []"
  shows "contains (quote_body (u @ p @ v)) p"
proof -
  obtain c q where p: "p = c # q" using assms(2) by (cases p) auto
  then have "quote_body (u @ p @ v) = quote_body u @ p @ quote_body v"
    using quote_body_boundary[of c u "q @ v"] quote_body_safe[OF assms(1), of v] assms(1)
    by (simp add: html_safe_ascii)
  then show ?thesis unfolding contains_iff by blast
qed

lemma contains_quote: "contains (quote_body s) p \<Longrightarrow> contains (quote s) p"
  unfolding quote_def by (metis append_Cons append_Nil contains_append_I1 contains_append_I2)

lemma contains_sep_by: "x \<in> set xs \<Longrightarrow> contains x p \<Longrightarrow> contains (sep_by d xs) p"
  by (induction d xs rule: sep_by.induct) (auto intro: contains_append_I1 contains_append_I2)

lemma contains_render_arr: "v \<in> set vs \<Longrightarrow> contains (render v) p \<Longrightarrow> contains (render (JArr vs)) p"
  using contains_sep_by[of "render v" "map render vs" p "[CHR 0x2C]"]
    contains_append_I1[of _ p "[CHR 0x5D]"] contains_append_I2[of _ p "[CHR 0x5B]"]
  by simp

lemma contains_render_obj:
  assumes "(k, v) \<in> set kvs" and "contains (render v) p"
  shows "contains (render (JObj kvs)) p"
proof -
  let ?f = "\<lambda>(k, v). quote k @ CHR 0x3A # render v"
  have "contains (?f (k, v)) p"
    using contains_append_I2[OF assms(2), of "quote k @ [CHR 0x3A]"] by simp
  then have "contains (sep_by [CHR 0x2C] (map ?f kvs)) p"
    using assms(1) by (intro contains_sep_by[of "?f (k, v)"]) (auto simp: image_iff intro!: bexI[of _ "(k, v)"])
  then show ?thesis
    using contains_append_I1[of _ p "[CHR 0x7D]"] contains_append_I2[of _ p "[CHR 0x7B]"] by simp
qed

section \<open>What the parser returns\<close>

text \<open>Strings that the scanner decodes are valid UTF-8.\<close>

lemma valid_RuneError: "valid_rune RuneError"
  by (simp add: valid_rune_def RuneError_def)

lemma to_valid_encode:
  assumes "valid_rune r"
  shows "to_valid (encode_rune r @ t) = encode_rune r @ to_valid t"
  using decode_encode[OF assms, of t] by (subst to_valid.simps) simp

lemma decode_valid: "s \<noteq> [] \<Longrightarrow> valid_rune (fst (decode_rune s))"
  using decode_rune_valid(1)[of s "fst (decode_rune s)" "snd (decode_rune s)"] valid_RuneError
  by (cases "decode_rune s = (RuneError, 1)") auto

lemma hex4_bound: "hex4 s = Some (n, t) \<Longrightarrow> n < 65536"
proof -
  have v: "hex_value c = Some a \<Longrightarrow> a < 16" for c a
    by (auto simp: hex_value_def Let_def split: if_splits)
  assume h: "hex4 s = Some (n, t)"
  then obtain a b c d where m: "map hex_value (take 4 s) = [Some a, Some b, Some c, Some d]"
    and n: "n = ((a * 16 + b) * 16 + c) * 16 + d"
    by (auto simp: hex4_def split: if_splits list.splits option.splits)
  from m have "a < 16" "b < 16" "c < 16" "d < 16" by (auto simp: map_eq_Cons_conv dest: v)
  with n show ?thesis by simp
qed

lemma utf16_pair_valid: "utf16_pair a b = Some r \<Longrightarrow> valid_rune r"
  by (auto simp: utf16_pair_def valid_rune_def split: if_splits)

lemma unicode_escape_valid:
  assumes "unicode_escape es = Some (r, t)"
  shows "valid_rune r"
proof -
  have "valid_rune rr" if "hex4 es = Some (rr, es1)" "\<not> surrogate rr" for rr es1
    using hex4_bound[OF that(1)] that(2) by (auto simp: surrogate_def valid_rune_def)
  then show ?thesis
    using assms valid_RuneError utf16_pair_valid
    by (auto simp: unicode_escape_def split: option.splits if_splits)
qed

lemma simple_escape_ascii: "simple_escape e = Some b \<Longrightarrow> is_ascii b"
  by (auto simp: simple_escape_def is_ascii_def byte_def split: if_splits)

lemma valid_ascii_text: "list_all is_ascii s \<Longrightarrow> valid_utf8 s"
  by (induction s) (auto simp: valid_utf8_def)

lemma to_valid_escape: "simple_escape e = Some b \<Longrightarrow> to_valid (b # s) = b # to_valid s"
  by (simp add: simple_escape_ascii)

lemma scan_string_valid: "scan_string s = Some (x, t) \<Longrightarrow> valid_utf8 x"
proof (induction s arbitrary: x t rule: scan_string.induct)
  case 1
  then show ?case by (simp add: scan_string.simps)
next
  case (2 c cs)
  have d: "valid_rune (fst (decode_rune (c # cs)))" by (rule decode_valid) simp
  show ?case
    using "2.prems" "2.IH" d unfolding scan_string.simps(2)
    by (auto simp: valid_utf8_def to_valid_encode to_valid_escape dest!: unicode_escape_valid
        split: if_splits list.splits option.splits)
qed

lemma takeWhile_all: "list_all P (takeWhile P xs)"
  by (auto simp: list_all_iff dest: set_takeWhileD)

fun token_ok :: "token \<Rightarrow> bool" where
  "token_ok (TStr x) \<longleftrightarrow> valid_utf8 x"
| "token_ok (TNum n) \<longleftrightarrow> numbers_ok (JNum n)"
| "token_ok _ \<longleftrightarrow> True"

lemma lex_ok: "lex s = Some ts \<Longrightarrow> list_all token_ok ts"
proof (induction s arbitrary: ts rule: length_induct)
  case (1 s)
  show ?case
  proof (cases s)
    case Nil
    then show ?thesis using "1.prems" by (simp add: lex.simps)
  next
    case (Cons c cs)
    have IH: "list_all token_ok us" if "lex u = Some us" "length u \<le> length cs" for u us
      using that "1.IH"[rule_format, of u] Cons by auto
    have str: "valid_utf8 x" "lex rest = Some us \<Longrightarrow> list_all token_ok us"
      if "scan_string cs = Some (x, rest)" for x rest us
      using scan_string_valid[OF that] scan_string_length[OF that] IH[of rest] by auto
    have num: "list_all num_char (takeWhile num_char cs)"
      "lex (dropWhile num_char cs) = Some us \<Longrightarrow> list_all token_ok us" for us
      using IH[of "dropWhile num_char cs"] length_dropWhile_le[of num_char cs] by (auto simp: takeWhile_all)
    have lit: "lex (drop n cs) = Some us \<Longrightarrow> list_all token_ok us" "lex cs = Some us \<Longrightarrow> list_all token_ok us" for n us
      using IH[of "drop n cs"] IH[of cs] by auto
    from "1.prems" show ?thesis
      unfolding Cons lex.simps(2) Let_def
      by (auto split: if_splits option.splits dest: str num(2) lit simp: num(1))
  qed
qed

text \<open>A value whose strings are valid, whose numbers are number literals, and that fits \<open>n\<close> levels
  below the nesting bound.\<close>

definition good :: "nat \<Rightarrow> json \<Rightarrow> bool" where
  "good n v \<longleftrightarrow> normal v = v \<and> numbers_ok v \<and> n + json_depth v \<le> max_depth"

lemma fold_max_le: "fold (max \<circ> f) xs a \<le> (b :: nat) \<longleftrightarrow> a \<le> b \<and> (\<forall>x \<in> set xs. f x \<le> b)"
  by (induction xs arbitrary: a) auto

lemma good_arr: "good n (JArr vs) \<longleftrightarrow> n < max_depth \<and> list_all (good (Suc n)) vs"
  using fold_max_le[of json_depth vs 0 "max_depth - Suc n"]
  by (auto simp: good_def list_all_iff map_idI Suc_le_eq le_diff_conv2 algebra_simps
      map_eq_conv[of normal vs id, simplified])

lemma good_obj: "good n (JObj kvs) \<longleftrightarrow>
    n < max_depth \<and> list_all (\<lambda>(k, v). valid_utf8 k \<and> good (Suc n) v) kvs"
proof -
  have "map (\<lambda>(k, v). (to_valid k, normal v)) kvs = kvs \<longleftrightarrow> (\<forall>(k, v) \<in> set kvs. to_valid k = k \<and> normal v = v)"
    by (induction kvs) auto
  then show ?thesis
    using fold_max_le[of "\<lambda>(k, v). json_depth v" kvs 0 "max_depth - Suc n"]
    by (fastforce simp: good_def list_all_iff Suc_le_eq le_diff_conv2 valid_utf8_def)
qed

fun frames_ok :: "frame list \<Rightarrow> bool" where
  "frames_ok [] \<longleftrightarrow> True"
| "frames_ok (ArrF vs # fs) \<longleftrightarrow> length fs < max_depth \<and> list_all (good (Suc (length fs))) vs \<and> frames_ok fs"
| "frames_ok (ObjF kvs k # fs) \<longleftrightarrow> length fs < max_depth \<and> valid_utf8 k \<and>
     list_all (\<lambda>(k, v). valid_utf8 k \<and> good (Suc (length fs)) v) kvs \<and> frames_ok fs"

fun pstate_ok :: "pstate \<Rightarrow> bool" where
  "pstate_ok (Value fs) \<longleftrightarrow> frames_ok fs"
| "pstate_ok (ArrOpen fs) \<longleftrightarrow> length fs < max_depth \<and> frames_ok fs"
| "pstate_ok (ObjOpen fs) \<longleftrightarrow> length fs < max_depth \<and> frames_ok fs"
| "pstate_ok (Key fs kvs) \<longleftrightarrow> frames_ok (ObjF kvs [] # fs)"
| "pstate_ok (Colon fs kvs k) \<longleftrightarrow> frames_ok (ObjF kvs k # fs)"
| "pstate_ok (After fs v) \<longleftrightarrow> frames_ok fs \<and> good (length fs) v"

lemma frames_ok_length: "frames_ok fs \<Longrightarrow> length fs \<le> max_depth"
  by (induction fs rule: frames_ok.induct) auto

lemma good_atom: "n \<le> max_depth \<Longrightarrow> good n JNull" "n \<le> max_depth \<Longrightarrow> good n (JBool b)"
  "n \<le> max_depth \<Longrightarrow> good n (JStr s) \<longleftrightarrow> valid_utf8 s"
  "n \<le> max_depth \<Longrightarrow> good n (JNum m) \<longleftrightarrow> numbers_ok (JNum m)"
  by (auto simp: good_def valid_utf8_def)

lemma start_value_ok:
  "start_value t fs = Some p \<Longrightarrow> token_ok t \<Longrightarrow> frames_ok fs \<Longrightarrow> pstate_ok p"
  using frames_ok_length[of fs]
  by (auto simp: start_value_def good_atom split: token.splits if_splits)

lemma parse_step_ok:
  assumes "parse_step t p = Some q" and "token_ok t" and "pstate_ok p"
  shows "pstate_ok q"
  using assms
proof (induction t p rule: parse_step.induct)
  case (2 t fs)
  then show ?case by (auto simp: good_arr split: if_splits dest: start_value_ok)
qed (auto simp: good_arr good_obj valid_utf8_def split: token.splits if_splits dest: start_value_ok)

lemma parse_run_ok:
  "parse_run ts p = Some q \<Longrightarrow> list_all token_ok ts \<Longrightarrow> pstate_ok p \<Longrightarrow> pstate_ok q"
  by (induction ts arbitrary: p) (auto split: option.splits dest: parse_step_ok)

text \<open>So printing what was parsed and parsing it again gives the same document.\<close>

lemma json_parse_good: "json_parse s = Some v \<Longrightarrow> good 0 v"
  using lex_ok[of s] parse_run_ok[of _ "Value []" "After [] v"]
  by (auto simp: json_parse_def split: option.splits pstate.splits list.splits)

lemma parse_render_good: "good 0 v \<Longrightarrow> json_parse (render v) = Some v"
  using json_parse_render[of v] by (auto simp: good_def)

section \<open>Numerals, control characters, spaces\<close>

lemma dec_nat_no_zero: "0 < n \<Longrightarrow> hd (dec_nat n) \<noteq> CHR ''0''"
proof (induction n rule: dec_nat.induct)
  case (1 n)
  show ?case
  proof (cases "n < 10")
    case True
    then have "byte (digit_char n) = 48 + n" by (simp add: digit_char_def)
    moreover have "byte (CHR ''0'') = 48" by (simp add: byte_def)
    ultimately have "digit_char n \<noteq> CHR ''0''" using "1.prems" by auto
    then show ?thesis using True by (subst dec_nat.simps) simp
  next
    case False
    then have "hd (dec_nat n) = hd (dec_nat (n div 10))" by (subst dec_nat.simps) simp
    then show ?thesis using "1.IH" False by simp
  qed
qed

lemma digits_all: "list_all is_digit (dec_nat n)"
  by (auto simp: list_all_iff dest: dec_nat_digits)

lemma digit_num_char: "is_digit c \<Longrightarrow> num_char c"
  by (simp add: num_char_def)

lemma valid_number_digits:
  assumes "list_all is_digit (d # ds)" and "d = CHR ''0'' \<longrightarrow> ds = []"
  shows "valid_number (d # ds)" and "valid_number (CHR ''-'' # d # ds)"
proof -
  have "d \<noteq> CHR ''-''" using assms(1) by (auto simp: is_digit_def byte_def)
  moreover have dw: "dropWhile is_digit ds = []" using assms(1) by (simp add: list_all_iff)
  ultimately show "valid_number (d # ds)" "valid_number (CHR ''-'' # d # ds)"
    using assms by (auto simp: valid_number_def valid_fraction_def dw)
qed

lemma dec_nat_cons: "\<exists>d ds. dec_nat n = d # ds \<and> (d = CHR ''0'' \<longrightarrow> ds = [])"
proof (cases "n = 0")
  case True
  then show ?thesis by (subst dec_nat.simps) simp
next
  case False
  then show ?thesis using dec_nat_no_zero[of n] by (cases "dec_nat n") auto
qed

lemma numbers_ok_dec_nat: "numbers_ok (JNum (dec_nat n))"
proof -
  obtain d ds where "dec_nat n = d # ds" "d = CHR ''0'' \<longrightarrow> ds = []" using dec_nat_cons by blast
  then show ?thesis
    using digits_all[of n] valid_number_digits[of d ds] by (auto simp: list_all_iff digit_num_char)
qed

lemma numbers_ok_dec_int: "numbers_ok (JNum (dec_int i))"
proof -
  obtain d ds where d: "dec_nat (nat (- i)) = d # ds" "d = CHR ''0'' \<longrightarrow> ds = []" using dec_nat_cons by blast
  have "num_char (CHR ''-'')" by (simp add: num_char_def)
  then show ?thesis
    using digits_all[of "nat (- i)"] valid_number_digits[of d ds] d numbers_ok_dec_nat[of "nat i"]
    by (auto simp: dec_int_def list_all_iff digit_num_char)
qed

text \<open>Rendered documents have no control characters.\<close>

definition printable :: "bytes \<Rightarrow> bool" where
  "printable s \<longleftrightarrow> list_all (\<lambda>c. 0x20 \<le> byte c) s"

lemma printable_simps [simp]:
  "printable []" "printable (c # s) \<longleftrightarrow> 0x20 \<le> byte c \<and> printable s"
  "printable (s @ t) \<longleftrightarrow> printable s \<and> printable t"
  by (simp_all add: printable_def)

lemma hex_digit_printable: "n < 16 \<Longrightarrow> 0x20 \<le> byte (hex_digit n)"
  by (auto simp: hex_digit_def)

lemma u_escape_printable: "n < 65536 \<Longrightarrow> printable (u_escape n)"
  by (simp add: u_escape_def hex_digit_printable div_less_iff_less_mult) (simp add: byte_def)

lemma quote_ascii_printable:
  assumes "is_ascii c"
  shows "printable (quote_ascii c)"
proof -
  have u: "printable (u_escape (byte c))" by (rule u_escape_printable) (rule less_trans[OF byte_less], simp)
  have b: "0x20 \<le> byte backslash" "0x20 \<le> byte dquote" "0x20 \<le> byte (CHR ''b'')" "0x20 \<le> byte (CHR ''f'')"
    "0x20 \<le> byte (CHR ''n'')" "0x20 \<le> byte (CHR ''r'')" "0x20 \<le> byte (CHR ''t'')"
    by (simp_all add: byte_def)
  have h: "html_safe c \<Longrightarrow> 0x20 \<le> byte c" by (simp add: html_safe_def)
  show ?thesis
    unfolding quote_ascii_def using u b h
    by (cases "c = dquote \<or> c = backslash") (auto simp del: u_escape_def)
qed

lemma encode_high: "0x80 \<le> r \<Longrightarrow> printable (encode_rune r)"
  by (auto simp: encode_rune_def encode_bytes_def valid_rune_def printable_def list_all_iff)

lemma quote_body_printable: "printable (quote_body s)"
proof (induction s rule: quote_body.induct)
  case (2 c cs)
  obtain r n where d: "decode_rune (c # cs) = (r, n)" by fastforce
  show ?case
  proof (cases "is_ascii c")
    case True
    then show ?thesis using 2 by (simp add: quote_body.simps(2) quote_ascii_printable)
  next
    case False
    have "printable (take n (c # cs))" if "(r, n) \<noteq> (RuneError, 1)"
    proof -
      have e: "encode_rune r = take n (c # cs)" "1 \<le> n" using decode_rune_valid[OF d _ that] by simp_all
      have "0x80 \<le> r"
      proof (rule ccontr)
        assume "\<not> 0x80 \<le> r"
        then have "encode_rune r = [char_of r]" by (simp add: encode_rune_def encode_bytes_def)
        then have "c = char_of r" using e by (cases n) auto
        then show False using False \<open>\<not> 0x80 \<le> r\<close> by (simp add: is_ascii_def)
      qed
      then show ?thesis using encode_high[of r] e by simp
    qed
    then show ?thesis
      using False d 2(2)[OF False d[symmetric] refl] u_escape_printable[of RuneError]
      by (auto simp: quote_body.simps(2) Let_def u_escape_printable RuneError_def)
  qed
qed (simp add: quote_body.simps)

lemma num_char_printable: "num_char c \<Longrightarrow> 0x20 \<le> byte c"
  by (auto simp: num_char_def is_digit_def byte_def)

lemma sep_by_printable: "printable d \<Longrightarrow> list_all printable xs \<Longrightarrow> printable (sep_by d xs)"
  by (induction d xs rule: sep_by.induct) auto

lemma render_printable: "numbers_ok v \<Longrightarrow> printable (render v)"
proof (induction v)
  case (JNum n)
  then show ?case by (auto simp: printable_def list_all_iff num_char_printable)
next
  case (JStr s)
  then show ?case using quote_body_printable[of s] by (simp add: quote_def) (simp add: byte_def)
next
  case (JArr vs)
  then have "printable (sep_by [CHR 0x2C] (map render vs))"
    by (intro sep_by_printable) (auto simp: list_all_iff byte_def)
  then show ?case by simp (simp add: byte_def)
next
  case (JObj kvs)
  have "printable (quote k @ CHR 0x3A # render v)" if "(k, v) \<in> set kvs" for k v
    using JObj.IH[OF that, of v] JObj.prems that quote_body_printable[of k]
    by (auto simp: list_all_iff quote_def) (auto simp: byte_def)
  then have "printable (sep_by [CHR 0x2C] (map (\<lambda>(k, v). quote k @ CHR 0x3A # render v) kvs))"
    by (intro sep_by_printable) (auto simp: list_all_iff byte_def)
  then show ?case by simp (simp add: byte_def)
qed (auto simp: byte_def)

text \<open>An object's rendering is not changed by trimming.\<close>

lemma trim_by_none: "find (\<lambda>w. w \<noteq> [] \<and> has_prefix s w) ws = None \<Longrightarrow> trim_by ws s = s"
  by (subst trim_by.simps) simp

lemma find_prefix_none:
  "list_all (\<lambda>w. w = [] \<or> byte (hd w) \<noteq> byte c) ws \<Longrightarrow> find (\<lambda>w. w \<noteq> [] \<and> has_prefix (c # t) w) ws = None"
proof -
  have "\<not> has_prefix (c # t) w" if "w \<noteq> []" "byte (hd w) \<noteq> byte c" for w
    using that by (cases w) auto
  then show "list_all (\<lambda>w. w = [] \<or> byte (hd w) \<noteq> byte c) ws \<Longrightarrow> ?thesis"
    by (auto simp: find_None_iff list_all_iff)
qed

lemma trim_object: "trim_space (CHR 0x7B # s @ [CHR 0x7D]) = CHR 0x7B # s @ [CHR 0x7D]"
proof -
  have b: "byte (CHR 0x7B) = 123" "byte (CHR 0x7D) = 125" by (simp_all add: byte_def)
  have "trim_by space_encodings (CHR 0x7B # t) = CHR 0x7B # t" for t
    by (intro trim_by_none find_prefix_none) (simp add: space_encodings_def byte_string_def b)
  moreover have "trim_by (map rev space_encodings) (CHR 0x7D # t) = CHR 0x7D # t" for t
    by (intro trim_by_none find_prefix_none) (simp add: space_encodings_def byte_string_def b)
  ultimately show ?thesis by (simp add: trim_space_def)
qed

lemma parse_int64_dec: "in_int64 i \<Longrightarrow> parse_int64 (dec_int i) = Some i"
proof -
  assume i: "in_int64 i"
  obtain d ds where d: "dec_nat (nat i) = d # ds" using dec_nat_cons by blast
  then have "d \<noteq> CHR ''-''" using digits_all[of "nat i"] by (auto simp: is_digit_def byte_def)
  then show ?thesis
    using i d digits_all[of "nat i"] digits_all[of "nat (- i)"] dec_value_dec_nat[of "nat i"]
    by (auto simp: parse_int64_def parse_int_def dec_int_def in_int64_def Let_def)
qed

text \<open>Keys of lower-case letters and underscores match a field only literally.\<close>

definition plain_key :: "bytes \<Rightarrow> bool" where
  "plain_key k \<longleftrightarrow> list_all (\<lambda>c. is_lower c \<or> c = CHR ''_'') k"

lemma fold_name_plain: "plain_key k \<Longrightarrow> fold_name k = map upper_byte k"
proof (induction k)
  case (Cons c k)
  then have "byte c < 128" by (auto simp: plain_key_def is_lower_def byte_def)
  moreover have "byte (char_of (197 :: nat)) = 197" "byte (char_of (226 :: nat)) = 226" by simp_all
  ultimately have "c \<noteq> char_of (197 :: nat)" "c \<noteq> char_of (226 :: nat)" by auto
  then show ?case using Cons by (simp add: byte_string_def plain_key_def)
qed (simp add: plain_key_def)

lemma upper_byte_inject:
  assumes "is_lower c \<or> c = CHR ''_''" and "is_lower d \<or> d = CHR ''_''" and "upper_byte c = upper_byte d"
  shows "c = d"
proof -
  have u: "byte (upper_byte x) = (if is_lower x then byte x - 32 else byte x)" for x
    using byte_less[of x] by (simp add: upper_byte_def less_imp_diff_less)
  have "byte (CHR ''_'') = 95" by (simp add: byte_def)
  then have "byte c = byte d"
    using assms(1,2) arg_cong[OF assms(3), of byte] unfolding u by (auto simp: is_lower_def split: if_splits)
  then show ?thesis by (simp add: byte_inject)
qed

lemma key_matches_plain:
  assumes "plain_key f" and "plain_key k"
  shows "key_matches f k \<longleftrightarrow> f = k"
proof -
  have "inj_on upper_byte (set k \<union> set f)"
  proof (rule inj_onI)
    fix c d assume "c \<in> set k \<union> set f" "d \<in> set k \<union> set f" "upper_byte c = upper_byte d"
    then show "c = d" using assms upper_byte_inject[of c d] by (auto simp: plain_key_def list_all_iff)
  qed
  then have "map upper_byte k = map upper_byte f \<Longrightarrow> k = f" by (rule map_inj_on[rotated])
  then show ?thesis using assms by (auto simp: key_matches_def fold_name_plain)
qed

end
