(* ===== verification/Sha256.thy ===== *)
theory Sha256
  imports Go_Strings
begin

text \<open>
  The packages \<open>crypto/sha256\<close>, \<open>crypto/hmac\<close> and \<open>encoding/hex\<close> that the canary and the audit ledger
  call: SHA-256 (FIPS 180-4) over 32-bit words, HMAC (RFC 2104) on top of it, and hexadecimal text.
\<close>

unbundle bit_operations_syntax

section \<open>Hexadecimal text\<close>

definition hex_encode :: "bytes \<Rightarrow> bytes" where
  "hex_encode s = concat (map (\<lambda>c. [hex_lower (byte c div 16), hex_lower (byte c mod 16)]) s)"

definition hex_nibble :: "char \<Rightarrow> nat option" where
  "hex_nibble c =
     (let b = byte c in
      if 48 \<le> b \<and> b \<le> 57 then Some (b - 48)
      else if 97 \<le> b \<and> b \<le> 102 then Some (b - 87)
      else if 65 \<le> b \<and> b \<le> 70 then Some (b - 55)
      else None)"

fun hex_decode :: "bytes \<Rightarrow> bytes option" where
  "hex_decode [] = Some []"
| "hex_decode [a] = None"
| "hex_decode (a # b # s) =
     (case (hex_nibble a, hex_nibble b) of
        (Some h, Some l) \<Rightarrow> map_option ((#) (char_of (16 * h + l))) (hex_decode s)
      | _ \<Rightarrow> None)"

section \<open>SHA-256\<close>

definition be_word :: "bytes \<Rightarrow> u32" where
  "be_word bs = foldl (\<lambda>w c. w * 256 + word_of_nat (byte c)) 0 bs"

fun chunks :: "nat \<Rightarrow> nat \<Rightarrow> 'a list \<Rightarrow> 'a list list" where
  "chunks 0 k xs = []"
| "chunks (Suc n) k xs = take k xs # chunks n k (drop k xs)"

text \<open>The 64 round constants, read from their hexadecimal digits.\<close>

definition sha_K :: "u32 list" where
  "sha_K =
     (case hex_decode
      (''428a2f9871374491b5c0fbcfe9b5dba53956c25b59f111f1923f82a4ab1c5ed5d807aa9812835b01243185be550c7dc3'' @
       ''72be5d7480deb1fe9bdc06a7c19bf174e49b69c1efbe47860fc19dc6240ca1cc2de92c6f4a7484aa5cb0a9dc76f988da'' @
       ''983e5152a831c66db00327c8bf597fc7c6e00bf3d5a7914706ca63511429296727b70a852e1b21384d2c6dfc53380d13'' @
       ''650a7354766a0abb81c2c92e92722c85a2bfe8a1a81a664bc24b8b70c76c51a3d192e819d6990624f40e3585106aa070'' @
       ''19a4c1161e376c082748774c34b0bcb5391c0cb34ed8aa4a5b9cca4f682e6ff3748f82ee78a5636f84c878148cc70208'' @
       ''90befffaa4506cebbef9a3f7c67178f2'') of
        Some bs \<Rightarrow> map be_word (chunks 64 4 bs)
      | None \<Rightarrow> [])"

record sha_state =
  sa :: u32  sb :: u32  sc :: u32  sd :: u32  se :: u32  sf :: u32  sg :: u32  sh :: u32

definition sha_init :: sha_state where
  "sha_init =
     (case hex_decode ''6a09e667bb67ae853c6ef372a54ff53a510e527f9b05688c1f83d9ab5be0cd19'' of
        Some bs \<Rightarrow>
          let w = (\<lambda>i. be_word (take 4 (drop (4 * i) bs))) in
          \<lparr>sa = w 0, sb = w 1, sc = w 2, sd = w 3, se = w 4, sf = w 5, sg = w 6, sh = w 7\<rparr>
      | None \<Rightarrow> \<lparr>sa = 0, sb = 0, sc = 0, sd = 0, se = 0, sf = 0, sg = 0, sh = 0\<rparr>)"

definition word_be :: "u32 \<Rightarrow> bytes" where
  "word_be w = map (\<lambda>i. char_of (unat (drop_bit i w) mod 256)) [24, 16, 8, 0]"

text \<open>The padding: a one bit, zeros, and the length in bits as 64 bits.\<close>

definition sha_pad :: "bytes \<Rightarrow> bytes" where
  "sha_pad s =
     s @ char_of (0x80 :: nat) # replicate ((119 - length s mod 64) mod 64) (char_of (0 :: nat)) @
     map (\<lambda>i. char_of (8 * length s div 256 ^ i mod 256)) [7, 6, 5, 4, 3, 2, 1, 0]"

definition sha_schedule :: "bytes \<Rightarrow> u32 list" where
  "sha_schedule block =
     fold (\<lambda>t ws.
         let w15 = ws ! (t - 15); w2 = ws ! (t - 2);
             s0 = word_rotr 7 w15 XOR word_rotr 18 w15 XOR drop_bit 3 w15;
             s1 = word_rotr 17 w2 XOR word_rotr 19 w2 XOR drop_bit 10 w2
         in ws @ [ws ! (t - 16) + s0 + ws ! (t - 7) + s1])
       [16..<64] (map be_word (chunks 16 4 block))"

definition sha_round :: "u32 \<times> u32 \<Rightarrow> sha_state \<Rightarrow> sha_state" where
  "sha_round kw s =
     (let s1 = word_rotr 6 (se s) XOR word_rotr 11 (se s) XOR word_rotr 25 (se s);
          ch = (se s AND sf s) XOR (NOT (se s) AND sg s);
          t1 = sh s + s1 + ch + fst kw + snd kw;
          s0 = word_rotr 2 (sa s) XOR word_rotr 13 (sa s) XOR word_rotr 22 (sa s);
          maj = (sa s AND sb s) XOR (sa s AND sc s) XOR (sb s AND sc s)
      in \<lparr>sa = t1 + (s0 + maj), sb = sa s, sc = sb s, sd = sc s,
          se = sd s + t1, sf = se s, sg = sf s, sh = sg s\<rparr>)"

definition sha_block :: "bytes \<Rightarrow> sha_state \<Rightarrow> sha_state" where
  "sha_block block s =
     (let r = fold sha_round (zip sha_K (sha_schedule block)) s in
      \<lparr>sa = sa s + sa r, sb = sb s + sb r, sc = sc s + sc r, sd = sd s + sd r,
       se = se s + se r, sf = sf s + sf r, sg = sg s + sg r, sh = sh s + sh r\<rparr>)"

definition sha256 :: "bytes \<Rightarrow> bytes" where
  "sha256 m =
     (let p = sha_pad m; s = fold sha_block (chunks (length p div 64) 64 p) sha_init in
      concat (map word_be [sa s, sb s, sc s, sd s, se s, sf s, sg s, sh s]))"

section \<open>HMAC\<close>

definition xor_byte :: "nat \<Rightarrow> char \<Rightarrow> char" where
  "xor_byte k c = char_of (byte c XOR k)"

definition hmac_sha256 :: "bytes \<Rightarrow> bytes \<Rightarrow> bytes" where
  "hmac_sha256 key m =
     (let k0 = (if length key > 64 then sha256 key else key);
          k = k0 @ replicate (64 - length k0) (char_of (0 :: nat))
      in sha256 (map (xor_byte 0x5c) k @ sha256 (map (xor_byte 0x36) k @ m)))"

lemma length_word_be [simp]: "length (word_be w) = 4"
  by (simp add: word_be_def)

lemma length_sha256 [simp]: "length (sha256 m) = 32"
  by (simp add: sha256_def Let_def)

lemma length_hmac [simp]: "length (hmac_sha256 key m) = 32"
  by (simp add: hmac_sha256_def Let_def)

section \<open>Hexadecimal round trip\<close>

lemma hex_nibble_lower: "n < 16 \<Longrightarrow> hex_nibble (hex_lower n) = Some n"
  by (auto simp: hex_nibble_def hex_lower_def)

lemma length_hex_encode [simp]: "length (hex_encode s) = 2 * length s"
  by (induction s) (auto simp: hex_encode_def)

lemma hex_decode_encode [simp]: "hex_decode (hex_encode s) = Some s"
proof (induction s)
  case (Cons c s)
  have "byte c div 16 < 16" using byte_less[of c] by linarith
  then show ?case using Cons by (simp add: hex_encode_def hex_nibble_lower)
qed (simp add: hex_encode_def)

lemma hex_encode_inject [simp]: "hex_encode s = hex_encode t \<longleftrightarrow> s = t"
  by (metis hex_decode_encode option.inject)

definition hex_symbol :: "char \<Rightarrow> bool" where
  "hex_symbol c \<longleftrightarrow> is_digit c \<or> (97 \<le> byte c \<and> byte c \<le> 102)"

lemma hex_lower_symbol: "n < 16 \<Longrightarrow> hex_symbol (hex_lower n)"
  by (auto simp: hex_symbol_def hex_lower_def is_digit_def)

lemma hex_encode_symbols: "list_all hex_symbol (hex_encode s)"
proof (induction s)
  case (Cons c s)
  have "byte c div 16 < 16" using byte_less[of c] by linarith
  then show ?case using Cons by (simp add: hex_encode_def hex_lower_symbol)
qed (simp add: hex_encode_def)

end
