(* ===== verification/Go_Bufio.thy ===== *)
theory Go_Bufio
  imports Go_Strings
begin

text \<open>
  \<open>bufio.Scanner\<close> with \<open>ScanLines\<close>, as the ledger and the YAML reader use it: the lines of a text without
  their line ends. A line has to fit into the scanner's buffer together with its line end; at the first
  one that does not, the scanner stops with an error that a caller may or may not look at.
\<close>

abbreviation "line_end \<equiv> CHR 0x0A"

function split_lines :: "bytes \<Rightarrow> bytes list" where
  "split_lines s =
     (if s = [] then []
      else takeWhile (\<lambda>c. c \<noteq> line_end) s # split_lines (drop 1 (dropWhile (\<lambda>c. c \<noteq> line_end) s)))"
  by pat_completeness auto
termination
proof (relation "measure length")
  fix s :: bytes
  assume "s \<noteq> []"
  moreover have "length (dropWhile (\<lambda>c. c \<noteq> line_end) s) \<le> length s" by (rule length_dropWhile_le)
  ultimately show "(drop 1 (dropWhile (\<lambda>c. c \<noteq> line_end) s), s) \<in> measure length"
    by (simp only: in_measure length_drop) (metis One_nat_def Suc_pred diff_le_self le_imp_less_Suc
        le_trans length_greater_0_conv diff_le_mono)
qed simp

declare split_lines.simps [simp del]

definition drop_cr :: "bytes \<Rightarrow> bytes" where
  "drop_cr l = (if l \<noteq> [] \<and> last l = CHR 0x0D then butlast l else l)"

text \<open>The lines that a scanner with a buffer of \<open>buf\<close> bytes delivers, and whether it stopped early.\<close>

definition scan_lines :: "nat \<Rightarrow> bytes \<Rightarrow> bytes list \<times> bool" where
  "scan_lines buf s =
     (let ls = split_lines s; fit = takeWhile (\<lambda>l. length l < buf) ls
      in (map drop_cr fit, length fit < length ls))"

definition MaxScanTokenSize :: nat where "MaxScanTokenSize = 65536"

lemma split_lines_Nil [simp]: "split_lines [] = []"
  by (simp add: split_lines.simps)

lemma span_line:
  "line_end \<notin> set l \<Longrightarrow> takeWhile (\<lambda>c. c \<noteq> line_end) (l @ line_end # t) = l"
  "line_end \<notin> set l \<Longrightarrow> dropWhile (\<lambda>c. c \<noteq> line_end) (l @ line_end # t) = line_end # t"
  by (induction l) auto

lemma split_lines_line: "line_end \<notin> set l \<Longrightarrow> split_lines (l @ line_end # t) = l # split_lines t"
  by (subst split_lines.simps) (simp add: span_line)

definition as_lines :: "bytes list \<Rightarrow> bytes" where
  "as_lines ls = concat (map (\<lambda>l. l @ [line_end]) ls)"

lemma as_lines_simps [simp]:
  "as_lines [] = []" "as_lines (l # ls) = l @ line_end # as_lines ls" "as_lines (ls @ ms) = as_lines ls @ as_lines ms"
  by (simp_all add: as_lines_def)

lemma split_as_lines_append:
  "list_all (\<lambda>l. line_end \<notin> set l) ls \<Longrightarrow> split_lines (as_lines ls @ t) = ls @ split_lines t"
  by (induction ls) (auto simp: split_lines_line)

text \<open>Lines that the scanner delivers as they were written.\<close>

definition plain_line :: "nat \<Rightarrow> bytes \<Rightarrow> bool" where
  "plain_line buf l \<longleftrightarrow> line_end \<notin> set l \<and> length l < buf \<and> drop_cr l = l"

lemma scan_as_lines:
  assumes "list_all (plain_line buf) ls"
  shows "scan_lines buf (as_lines ls) = (ls, False)"
proof -
  have "split_lines (as_lines ls) = ls"
    using split_as_lines_append[of ls "[]"] assms by (auto simp: list_all_iff plain_line_def)
  moreover have "takeWhile (\<lambda>l. length l < buf) ls = ls" "map drop_cr ls = ls"
    using assms by (auto simp: list_all_iff plain_line_def intro: map_idI)
  ultimately show ?thesis by (simp only: scan_lines_def Let_def) simp
qed

lemma takeWhile_full: "\<not> length (takeWhile P xs) < length xs \<Longrightarrow> takeWhile P xs = xs"
  by (induction xs) (auto split: if_splits)

lemma scan_lines_complete: "scan_lines buf s = (ls, False) \<Longrightarrow> ls = map drop_cr (split_lines s)"
  unfolding scan_lines_def Let_def by (metis Pair_inject takeWhile_full)

end
