(* ===== verification/Yaml.thy ===== *)
theory Yaml
  imports Go_Bufio Go_Case Json_Text
begin

text \<open>
  The YAML reader of the configuration (\<open>internal/config/yaml.go\<close>): lines without comments, block maps and
  block lists by indentation, and scalars. The code walks an array of lines with an index; here the index
  is the list of the lines that are left. Maps are association lists in the order of insertion.
  \<open>strconv.ParseFloat\<close>, the printing of a \<open>float64\<close> and the lower-case table of Unicode are parameters.
\<close>

section \<open>Trees and lines\<close>

datatype 'f yaml =
    YNull
  | YBool bool
  | YInt int
  | YFloat 'f
  | YStr bytes
  | YList "'f yaml list"
  | YMap "(bytes \<times> 'f yaml) list"

record yamlLine =
  indent :: nat
  content :: bytes
  lineNum :: nat

datatype yaml_error = UnexpectedIndent nat | NoColon nat | UnexpectedListIndent nat | MarshalFailed

fun countIndent :: "bytes \<Rightarrow> nat" where
  "countIndent [] = 0"
| "countIndent (c # cs) =
     (if c = CHR '' '' then 1 + countIndent cs else if c = CHR 0x09 then 2 + countIndent cs else 0)"

fun strip_from :: "bool \<Rightarrow> bool \<Rightarrow> bytes \<Rightarrow> bytes" where
  "strip_from inSingle inDouble [] = []"
| "strip_from inSingle inDouble (c # cs) =
     (if c = CHR 0x27 \<and> \<not> inDouble then c # strip_from (\<not> inSingle) inDouble cs
      else if c = dquote \<and> \<not> inSingle then c # strip_from inSingle (\<not> inDouble) cs
      else if c = CHR ''#'' \<and> \<not> inSingle \<and> \<not> inDouble then []
      else c # strip_from inSingle inDouble cs)"

definition stripComment :: "bytes \<Rightarrow> bytes" where
  "stripComment s = strip_from False False s"

definition unquote :: "bytes \<Rightarrow> bytes" where
  "unquote s =
     (if length s \<ge> 2 \<and> ((hd s = dquote \<and> last s = dquote) \<or> (hd s = CHR 0x27 \<and> last s = CHR 0x27))
      then butlast (tl s) else s)"

text \<open>The scanned lines that are not blank, numbered from \<open>n\<close>.\<close>

fun number_lines :: "nat \<Rightarrow> bytes list \<Rightarrow> yamlLine list" where
  "number_lines n [] = []"
| "number_lines n (raw # ls) =
     (let cleaned = stripComment raw in
      if trim_space cleaned = [] then number_lines (Suc n) ls
      else \<lparr>indent = countIndent cleaned, content = trim_space cleaned, lineNum = n\<rparr> # number_lines (Suc n) ls)"

section \<open>Scalars\<close>

text \<open>\<open>strconv.ParseInt(s, 10, 64)\<close>, which also takes a plus sign.\<close>

definition ParseInt :: "bytes \<Rightarrow> int option" where
  "ParseInt s = (if has_prefix s ''+'' then (if has_prefix (tl s) ''-'' then None else parse_int64 (tl s)) else parse_int64 s)"

definition parseScalar :: "(rune \<Rightarrow> rune) \<Rightarrow> (bytes \<Rightarrow> 'f option) \<Rightarrow> bytes \<Rightarrow> 'f yaml" where
  "parseScalar low parse_float s =
     (let val = trim_space s; lower = to_lower low val;
          sq = [CHR 0x27]; dq = [dquote] in
      if (has_prefix val dq \<and> has_suffix val dq) \<or> (has_prefix val sq \<and> has_suffix val sq) then YStr (unquote val)
      else if lower = ''true'' \<or> lower = ''yes'' \<or> lower = ''on'' then YBool True
      else if lower = ''false'' \<or> lower = ''no'' \<or> lower = ''off'' then YBool False
      else if lower = ''null'' \<or> lower = ''~'' then YNull
      else case ParseInt val of
        Some i \<Rightarrow> YInt i
      | None \<Rightarrow> (case parse_float val of Some x \<Rightarrow> YFloat x | None \<Rightarrow> YStr val))"

section \<open>Blocks\<close>

text \<open>A key and what follows the first colon.\<close>

definition key_value :: "bytes \<Rightarrow> (bytes \<times> bytes) option" where
  "key_value s = (case index_of s '':'' of
     None \<Rightarrow> None
   | Some i \<Rightarrow> Some (unquote (trim_space (take i s)), trim_space (drop (Suc i) s)))"

definition put :: "bytes \<Rightarrow> 'v \<Rightarrow> (bytes \<times> 'v) list \<Rightarrow> (bytes \<times> 'v) list" where
  "put k v kvs = filter (\<lambda>(k', _). k' \<noteq> k) kvs @ [(k, v)]"

type_synonym 'a parsed = "(yaml_error + 'a \<times> yamlLine list) option"

definition and_then :: "'a parsed \<Rightarrow> ('a \<Rightarrow> yamlLine list \<Rightarrow> 'b parsed) \<Rightarrow> 'b parsed" where
  "and_then r f = (case r of None \<Rightarrow> None | Some (Inl e) \<Rightarrow> Some (Inl e) | Some (Inr (x, ls)) \<Rightarrow> f x ls)"

text \<open>The mutually recursive functions of the reader, with the loops of \<open>parseMap\<close>, \<open>parseList\<close> and of the
  remaining keys of a list item as recursion. Each is given the others as \<open>call\<close>; \<open>run\<close> ties the knot, and
  its first number bounds the depth of calls. The block under a key is looked for only when the next line
  is indented by more than \<open>lim\<close>.\<close>

datatype 'f routine = Block | SubBlock | InMap "(bytes \<times> 'f yaml) list" | InList "'f yaml list" | InItem "(bytes \<times> 'f yaml) list"

type_synonym 'f caller = "'f routine \<Rightarrow> yamlLine list \<Rightarrow> nat \<Rightarrow> 'f yaml parsed"

definition parseBlock :: "'f caller \<Rightarrow> yamlLine list \<Rightarrow> nat \<Rightarrow> 'f yaml parsed" where
  "parseBlock call ls ind =
     (case ls of
        [] \<Rightarrow> Some (Inr (YNull, []))
      | first # _ \<Rightarrow> if has_prefix (content first) ''-'' then call (InList []) ls ind else call (InMap []) ls ind)"

definition parseSub :: "'f caller \<Rightarrow> yamlLine list \<Rightarrow> nat \<Rightarrow> 'f yaml parsed" where
  "parseSub call ls lim =
     (case ls of
        [] \<Rightarrow> Some (Inr (YNull, []))
      | next # _ \<Rightarrow> if indent next > lim then call Block ls (indent next) else Some (Inr (YNull, ls)))"

definition parseMap ::
  "(bytes \<Rightarrow> 'f yaml) \<Rightarrow> 'f caller \<Rightarrow> (bytes \<times> 'f yaml) list \<Rightarrow> yamlLine list \<Rightarrow> nat \<Rightarrow> 'f yaml parsed" where
  "parseMap sc call acc ls ind =
     (case ls of
        [] \<Rightarrow> Some (Inr (YMap acc, []))
      | line # rest \<Rightarrow>
          if indent line < ind then Some (Inr (YMap acc, ls))
          else if indent line > ind then Some (Inl (UnexpectedIndent (lineNum line)))
          else case key_value (content line) of
            None \<Rightarrow> Some (Inl (NoColon (lineNum line)))
          | Some (key, valStr) \<Rightarrow>
              if valStr \<noteq> [] then call (InMap (put key (sc valStr) acc)) rest ind
              else and_then (call SubBlock rest ind) (\<lambda>v ls'. call (InMap (put key v acc)) ls' ind))"

definition parseItem ::
  "(bytes \<Rightarrow> 'f yaml) \<Rightarrow> 'f caller \<Rightarrow> (bytes \<times> 'f yaml) list \<Rightarrow> yamlLine list \<Rightarrow> nat \<Rightarrow> 'f yaml parsed" where
  "parseItem sc call item ls ind =
     (case ls of
        [] \<Rightarrow> Some (Inr (YMap item, []))
      | nextLine # rest \<Rightarrow>
          if indent nextLine \<le> ind \<or> has_prefix (content nextLine) ''-'' then Some (Inr (YMap item, ls))
          else case key_value (content nextLine) of
            None \<Rightarrow> Some (Inr (YMap item, ls))
          | Some (k, vStr) \<Rightarrow>
              if vStr \<noteq> [] then call (InItem (put k (sc vStr) item)) rest ind
              else and_then (call SubBlock rest (indent nextLine)) (\<lambda>v ls'. call (InItem (put k v item)) ls' ind))"

definition parseList ::
  "(bytes \<Rightarrow> 'f yaml) \<Rightarrow> 'f caller \<Rightarrow> 'f yaml list \<Rightarrow> yamlLine list \<Rightarrow> nat \<Rightarrow> 'f yaml parsed" where
  "parseList sc call acc ls ind =
     (case ls of
        [] \<Rightarrow> Some (Inr (YList acc, []))
      | line # rest \<Rightarrow>
          if indent line < ind then Some (Inr (YList acc, ls))
          else if indent line > ind then Some (Inl (UnexpectedListIndent (lineNum line)))
          else if \<not> has_prefix (content line) ''-'' then Some (Inr (YList acc, ls))
          else let itemContent = trim_space (drop 1 (content line)) in
            if itemContent = [] then
              and_then (call SubBlock rest ind) (\<lambda>v ls'. call (InList (acc @ [v])) ls' ind)
            else case key_value itemContent of
              None \<Rightarrow> call (InList (acc @ [sc itemContent])) rest ind
            | Some (firstKey, firstValStr) \<Rightarrow>
                and_then (if firstValStr \<noteq> [] then Some (Inr (sc firstValStr, rest)) else call SubBlock rest (ind + 2))
                  (\<lambda>v ls'. and_then (call (InItem [(firstKey, v)]) ls' ind)
                     (\<lambda>item ls''. call (InList (acc @ [item])) ls'' ind)))"

primrec run :: "(bytes \<Rightarrow> 'f yaml) \<Rightarrow> nat \<Rightarrow> 'f caller" where
  "run sc 0 = (\<lambda>r ls ind. None)"
| "run sc (Suc n) = (\<lambda>r ls ind. case r of
     Block \<Rightarrow> parseBlock (run sc n) ls ind
   | SubBlock \<Rightarrow> parseSub (run sc n) ls ind
   | InMap acc \<Rightarrow> parseMap sc (run sc n) acc ls ind
   | InList acc \<Rightarrow> parseList sc (run sc n) acc ls ind
   | InItem item \<Rightarrow> parseItem sc (run sc n) item ls ind)"

section \<open>Documents\<close>

definition block_fuel :: "yamlLine list \<Rightarrow> nat" where
  "block_fuel ls = 4 * length ls + 2"

definition document_lines :: "bytes \<Rightarrow> yamlLine list" where
  "document_lines data = number_lines 1 (fst (scan_lines MaxScanTokenSize data))"

definition parse_lines :: "(bytes \<Rightarrow> 'f yaml) \<Rightarrow> yamlLine list \<Rightarrow> (yaml_error + 'f yaml) option" where
  "parse_lines sc ls =
     (case ls of
        [] \<Rightarrow> Some (Inr (YMap []))
      | l # _ \<Rightarrow> (case run sc (block_fuel ls) Block ls (indent l) of
          None \<Rightarrow> None
        | Some (Inl e) \<Rightarrow> Some (Inl e)
        | Some (Inr (v, _)) \<Rightarrow> Some (Inr v)))"

definition parseYAML :: "(rune \<Rightarrow> rune) \<Rightarrow> (bytes \<Rightarrow> 'f option) \<Rightarrow> bytes \<Rightarrow> (yaml_error + 'f yaml) option" where
  "parseYAML low parse_float data = parse_lines (parseScalar low parse_float) (document_lines data)"

text \<open>\<open>json.Marshal\<close> of the tree; \<open>format_float\<close> fails for the values that JSON does not have. A nil slice,
  which an empty list is, becomes \<open>null\<close>.\<close>

fun yaml_json :: "('f \<Rightarrow> bytes option) \<Rightarrow> 'f yaml \<Rightarrow> json option" where
  "yaml_json format_float YNull = Some JNull"
| "yaml_json format_float (YBool b) = Some (JBool b)"
| "yaml_json format_float (YInt i) = Some (JNum (dec_int i))"
| "yaml_json format_float (YFloat x) = map_option JNum (format_float x)"
| "yaml_json format_float (YStr s) = Some (JStr s)"
| "yaml_json format_float (YList xs) =
     (if xs = [] then Some JNull else map_option JArr (those (map (yaml_json format_float) xs)))"
| "yaml_json format_float (YMap kvs) =
     map_option (\<lambda>vs. JObj (zip (map fst kvs) vs)) (those (map (\<lambda>(k, v). yaml_json format_float v) kvs))"

definition YAMLToJSON ::
  "(rune \<Rightarrow> rune) \<Rightarrow> (bytes \<Rightarrow> 'f option) \<Rightarrow> ('f \<Rightarrow> bytes option) \<Rightarrow> bytes \<Rightarrow> (yaml_error + bytes) option" where
  "YAMLToJSON low parse_float format_float data =
     (case parseYAML low parse_float data of
        None \<Rightarrow> None
      | Some (Inl e) \<Rightarrow> Some (Inl e)
      | Some (Inr v) \<Rightarrow> (case yaml_json format_float v of
            None \<Rightarrow> Some (Inl MarshalFailed)
          | Some j \<Rightarrow> Some (Inr (marshal_map j))))"

section \<open>The reader always returns\<close>

text \<open>Enough calls for so many lines, and what is left is no longer than what was given.\<close>

definition returns :: "'a parsed \<Rightarrow> yamlLine list \<Rightarrow> bool" where
  "returns r ls \<longleftrightarrow> (case r of None \<Rightarrow> False | Some (Inl e) \<Rightarrow> True | Some (Inr (v, ls')) \<Rightarrow> length ls' \<le> length ls)"

lemma returns_simps [simp]:
  "returns (Some (Inl e)) ls" "returns (Some (Inr (v, ls'))) ls \<longleftrightarrow> length ls' \<le> length ls"
  by (simp_all add: returns_def)

lemma returns_then:
  "returns r rest \<Longrightarrow> length rest \<le> length ls \<Longrightarrow> (\<And>x ls'. length ls' \<le> length rest \<Longrightarrow> returns (f x ls') ls') \<Longrightarrow>
   returns (and_then r f) ls"
  by (fastforce simp: returns_def and_then_def split: option.splits sum.splits prod.splits)

lemma returns_mono: "returns r rest \<Longrightarrow> length rest \<le> length ls \<Longrightarrow> returns r ls"
  by (auto simp: returns_def split: option.splits sum.splits prod.splits)

lemma returns_some: "returns r ls \<Longrightarrow> r \<noteq> None"
  by (cases r) (simp_all add: returns_def)

definition needed :: "'f routine \<Rightarrow> yamlLine list \<Rightarrow> nat" where
  "needed r ls = 4 * length ls + (case r of Block \<Rightarrow> 2 | SubBlock \<Rightarrow> 3 | _ \<Rightarrow> 1)"

lemma enough_fuel: "needed r ls \<le> n \<Longrightarrow> returns (run sc n r ls ind) ls"
proof (induction n arbitrary: r ls ind)
  case 0
  then show ?case by (cases r) (simp_all add: needed_def)
next
  case (Suc n)
  show ?case
  proof (cases "ls = []")
    case True
    then show ?thesis using Suc.IH[of _ "[]"] Suc.prems
      by (cases r) (simp_all add: parseBlock_def parseSub_def parseMap_def parseList_def parseItem_def)
  next
    case False
    then obtain line rest where ls: "ls = line # rest" by (cases ls) auto
    have len: "length rest \<le> length ls" "4 * length rest + 3 \<le> n" using Suc.prems by (cases r; simp add: ls needed_def)+
    have call: "returns (run sc n r' ls' i) ls'" if "length ls' \<le> length rest" for r' ls' i
      using len(2) that by (intro Suc.IH) (cases r'; simp add: needed_def)
    note onward = returns_mono[OF call[OF order_refl] len(1)]
    note then_call = returns_then[OF call[OF order_refl] len(1) call]
    have "returns (if w \<noteq> [] then Some (Inr (sc w, rest)) else run sc n SubBlock rest i) rest" for w i
      using call[OF order_refl] by simp
    moreover have "returns (and_then (run sc n (InItem it) ls' i) (\<lambda>item ls''. run sc n (f item) ls'' i)) ls'"
      if "length ls' \<le> length rest" for it ls' i f
      using that call by (intro returns_then[OF call[OF that] order_refl]) (meson order_trans)
    ultimately have item: "returns (and_then (if w \<noteq> [] then Some (Inr (sc w, rest)) else run sc n SubBlock rest i)
        (\<lambda>v ls'. and_then (run sc n (InItem (it v)) ls' i') (\<lambda>item ls''. run sc n (f item) ls'' i'))) ls" for w i it i' f
      by (rule returns_then[OF _ len(1)])
    have "returns (run sc n r' ls i) ls" if "r = Block \<and> r' = InList [] \<or> r = Block \<and> r' = InMap [] \<or> r = SubBlock \<and> r' = Block" for r' i
      using that Suc.prems by (intro Suc.IH) (auto simp: needed_def)
    then show ?thesis
      using onward then_call item
      by (cases r) (auto simp: ls parseBlock_def parseSub_def parseMap_def parseList_def parseItem_def Let_def split: option.splits)
  qed
qed

lemma run_decides: "run sc (block_fuel ls + k) Block ls i \<noteq> None"
proof -
  have "needed Block ls \<le> block_fuel ls + k" by (simp add: needed_def block_fuel_def)
  from returns_some[OF enough_fuel[OF this]] show ?thesis .
qed

lemma parseYAML_decides: "parseYAML low parse_float data \<noteq> None"
  using run_decides[of "parseScalar low parse_float" "document_lines data" 0 "indent (hd (document_lines data))"]
  by (cases "document_lines data") (auto simp: parseYAML_def parse_lines_def split: option.splits sum.splits)

text \<open>C9: Reading any text ends: the number of calls that \<open>parseYAML\<close> allows for suffices for every
  document, and so does every larger number.\<close>

theorem yaml_reader_terminates:
  "parseYAML low parse_float data \<noteq> None \<and>
   run (parseScalar low parse_float) (block_fuel (document_lines data) + k) Block (document_lines data) ind \<noteq> None"
  using parseYAML_decides run_decides by blast

section \<open>Reading back a written configuration\<close>

text \<open>More calls do not change a result.\<close>

definition refines :: "'a option \<Rightarrow> 'a option \<Rightarrow> bool" where
  "refines r r' \<longleftrightarrow> r = None \<or> r = r'"

lemma refines_refl [simp]: "refines r r" "refines None r"
  by (simp_all add: refines_def)

lemma refines_then:
  "refines r r' \<Longrightarrow> (\<And>x ls. refines (f x ls) (g x ls)) \<Longrightarrow> refines (and_then r f) (and_then r' g)"
  by (auto simp: refines_def and_then_def split: option.splits sum.splits prod.splits)

lemma run_refines: "refines (run sc n r ls ind) (run sc (Suc n) r ls ind)"
proof (induction n arbitrary: r ls ind)
  case (Suc n)
  let ?c = "run sc n" and ?d = "run sc (Suc n)"
  have IH: "refines (?c r ls i) (?d r ls i)" for r ls i by (rule Suc)
  have t: "refines (and_then (?c r ls i) (\<lambda>v ls'. ?c (f v) ls' j)) (and_then (?d r ls i) (\<lambda>v ls'. ?d (f v) ls' j))" for r ls i f j
    by (intro refines_then IH)
  have u: "refines (and_then (if w \<noteq> [] then Some (Inr (sc w, ls)) else ?c SubBlock ls i)
        (\<lambda>v ls'. and_then (?c (f v) ls' j) (\<lambda>item ls''. ?c (g item) ls'' j)))
      (and_then (if w \<noteq> [] then Some (Inr (sc w, ls)) else ?d SubBlock ls i)
        (\<lambda>v ls'. and_then (?d (f v) ls' j) (\<lambda>item ls''. ?d (g item) ls'' j)))" for w ls i f g j
    by (intro refines_then t) (simp add: IH del: run.simps)
  have "refines (parseBlock ?c ls ind) (parseBlock ?d ls ind)" "refines (parseSub ?c ls ind) (parseSub ?d ls ind)"
    unfolding parseBlock_def parseSub_def by (auto simp: IH simp del: run.simps split: list.split)
  moreover have "refines (parseMap sc ?c acc ls ind) (parseMap sc ?d acc ls ind)"
    "refines (parseItem sc ?c acc ls ind) (parseItem sc ?d acc ls ind)" for acc
    unfolding parseMap_def parseItem_def by (auto simp: IH t simp del: run.simps split: list.split option.split)
  moreover have "refines (parseList sc ?c acc ls ind) (parseList sc ?d acc ls ind)" for acc
    unfolding parseList_def Let_def
    by (cases ls) (auto simp: IH t u[simplified] u simp del: run.simps split: option.split)
  ultimately show ?case unfolding run.simps(2)[of sc n] run.simps(2)[of sc "Suc n"] by (cases r) (simp_all del: run.simps)
qed simp

lemma run_more: "run sc n r ls ind = Some x \<Longrightarrow> n \<le> m \<Longrightarrow> run sc m r ls ind = Some x"
proof (induction m)
  case (Suc m)
  then show ?case using run_refines[of sc m r ls ind] by (cases "n = Suc m") (auto simp: refines_def simp del: run.simps)
qed simp

definition evals :: "(bytes \<Rightarrow> 'f yaml) \<Rightarrow> 'f routine \<Rightarrow> yamlLine list \<Rightarrow> nat \<Rightarrow> 'f yaml \<Rightarrow> yamlLine list \<Rightarrow> bool" where
  "evals sc r ls ind v rest \<longleftrightarrow> (\<exists>n. run sc n r ls ind = Some (Inr (v, rest)))"

lemma evals_calls:
  assumes "evals sc r ls ind v ls'" and "evals sc r' ks ind' w ks'"
  obtains n where "run sc n r ls ind = Some (Inr (v, ls'))" "run sc n r' ks ind' = Some (Inr (w, ks'))"
proof -
  obtain m n where "run sc m r ls ind = Some (Inr (v, ls'))" "run sc n r' ks ind' = Some (Inr (w, ks'))"
    using assms unfolding evals_def by blast
  from run_more[OF this(1) max.cobounded1[of m n]] run_more[OF this(2) max.cobounded2[of n m]] show ?thesis by (rule that)
qed

lemma evalsI: "run sc (Suc n) r ls ind = Some (Inr (v, rest)) \<Longrightarrow> evals sc r ls ind v rest"
  unfolding evals_def by blast

lemma evals_map_end: "rest = [] \<or> indent (hd rest) < ind \<Longrightarrow> evals sc (InMap acc) rest ind (YMap acc) rest"
  by (rule evalsI[of _ 0]) (auto simp: parseMap_def split: list.split)

lemma evals_map_scalar:
  assumes "evals sc (InMap (put k (sc w) acc)) ls ind y rest"
    and "indent l = ind" and "key_value (content l) = Some (k, w)" and "w \<noteq> []"
  shows "evals sc (InMap acc) (l # ls) ind y rest"
proof -
  obtain n where "run sc n (InMap (put k (sc w) acc)) ls ind = Some (Inr (y, rest))" using assms(1) unfolding evals_def by blast
  then show ?thesis using assms(2-4) by (intro evalsI[of _ n]) (simp add: parseMap_def)
qed

lemma evals_map_block:
  assumes "evals sc SubBlock ls ind v ls'" and "evals sc (InMap (put k v acc)) ls' ind y rest"
    and "indent l = ind" and "key_value (content l) = Some (k, [])"
  shows "evals sc (InMap acc) (l # ls) ind y rest"
  using assms(1,2)
proof (rule evals_calls)
  fix n assume "run sc n SubBlock ls ind = Some (Inr (v, ls'))" "run sc n (InMap (put k v acc)) ls' ind = Some (Inr (y, rest))"
  then show ?thesis using assms(3,4) by (intro evalsI[of _ n]) (simp add: parseMap_def and_then_def)
qed

lemma evals_sub:
  assumes "evals sc (if has_prefix (content l) ''-'' then InList [] else InMap []) (l # ls) (indent l) v rest" and "lim < indent l"
  shows "evals sc SubBlock (l # ls) lim v rest"
proof -
  obtain n where "run sc n (if has_prefix (content l) ''-'' then InList [] else InMap []) (l # ls) (indent l) = Some (Inr (v, rest))"
    using assms(1) unfolding evals_def by blast
  then have "run sc (Suc n) Block (l # ls) (indent l) = Some (Inr (v, rest))" by (simp add: parseBlock_def split: if_splits)
  then show ?thesis using assms(2) by (intro evalsI[of _ "Suc n"]) (simp add: parseSub_def del: run.simps(2) add: run.simps(2)[of sc "Suc n"])
qed

lemma evals_item_end:
  "ls = [] \<or> indent (hd ls) \<le> ind \<Longrightarrow> evals sc (InItem item) ls ind (YMap item) ls"
  by (rule evalsI[of _ 0]) (auto simp: parseItem_def split: list.split)

lemma evals_item_scalar:
  assumes "evals sc (InItem (put k (sc w) item)) ls ind y rest"
    and "ind < indent l" and "key_value (content l) = Some (k, w)" and "w \<noteq> []" and "\<not> has_prefix (content l) ''-''"
  shows "evals sc (InItem item) (l # ls) ind y rest"
proof -
  obtain n where "run sc n (InItem (put k (sc w) item)) ls ind = Some (Inr (y, rest))" using assms(1) unfolding evals_def by blast
  then show ?thesis using assms(2-5) by (intro evalsI[of _ n]) (simp add: parseItem_def)
qed

lemma evals_list_end: "rest = [] \<or> indent (hd rest) < ind \<Longrightarrow> evals sc (InList acc) rest ind (YList acc) rest"
  by (rule evalsI[of _ 0]) (auto simp: parseList_def split: list.split)

lemma evals_list_item:
  assumes "evals sc (InItem [(k, sc w)]) ls ind item ls'" and "evals sc (InList (acc @ [item])) ls' ind y rest"
    and "indent l = ind" and "has_prefix (content l) ''-''" and "key_value (trim_space (drop 1 (content l))) = Some (k, w)"
    and "w \<noteq> []" and "trim_space (drop 1 (content l)) \<noteq> []"
  shows "evals sc (InList acc) (l # ls) ind y rest"
  using assms(1,2)
proof (rule evals_calls)
  fix n assume "run sc n (InItem [(k, sc w)]) ls ind = Some (Inr (item, ls'))"
    "run sc n (InList (acc @ [item])) ls' ind = Some (Inr (y, rest))"
  then show ?thesis using assms(3-7) by (intro evalsI[of _ n]) (simp add: parseList_def and_then_def Let_def)
qed

text \<open>Configurations of nested sections, scalars and lists of flat entries, and how they are written.\<close>

datatype literal = Str bytes | Num int | Flag bool

datatype conf = Leaf literal | Group "(bytes \<times> conf) list" | Entries "(bytes \<times> literal) list list"

definition literal_text :: "literal \<Rightarrow> bytes" where
  "literal_text l = (case l of Str s \<Rightarrow> dquote # s @ [dquote] | Num i \<Rightarrow> dec_int i
     | Flag b \<Rightarrow> if b then ''true'' else ''false'')"

definition entry_text :: "bytes \<times> literal \<Rightarrow> bytes" where
  "entry_text e = fst e @ '': '' @ literal_text (snd e)"

definition entry_lines :: "nat \<Rightarrow> (bytes \<times> literal) list \<Rightarrow> (nat \<times> bytes) list" where
  "entry_lines i es = (case es of [] \<Rightarrow> [] | e # es' \<Rightarrow> (i, ''- '' @ entry_text e) # map (\<lambda>e. (i + 2, entry_text e)) es')"

fun conf_lines :: "nat \<Rightarrow> (bytes \<times> conf) list \<Rightarrow> (nat \<times> bytes) list" where
  "conf_lines i [] = []"
| "conf_lines i ((k, Leaf l) # kvs) = (i, entry_text (k, l)) # conf_lines i kvs"
| "conf_lines i ((k, Group g) # kvs) = (i, k @ '':'') # conf_lines (i + 2) g @ conf_lines i kvs"
| "conf_lines i ((k, Entries es) # kvs) = (i, k @ '':'') # concat (map (entry_lines (i + 2)) es) @ conf_lines i kvs"

definition conf_text :: "(bytes \<times> conf) list \<Rightarrow> bytes" where
  "conf_text kvs = as_lines (map (\<lambda>l. replicate (fst l) (CHR '' '') @ snd l) (conf_lines 0 kvs))"

definition literal_yaml :: "literal \<Rightarrow> 'f yaml" where
  "literal_yaml l = (case l of Str s \<Rightarrow> YStr s | Num i \<Rightarrow> YInt i | Flag b \<Rightarrow> YBool b)"

definition entry_yaml :: "(bytes \<times> literal) list \<Rightarrow> 'f yaml" where
  "entry_yaml es = YMap (map (\<lambda>(k, l). (k, literal_yaml l)) es)"

fun conf_yaml :: "(bytes \<times> conf) list \<Rightarrow> (bytes \<times> 'f yaml) list" where
  "conf_yaml [] = []"
| "conf_yaml ((k, Leaf l) # kvs) = (k, literal_yaml l) # conf_yaml kvs"
| "conf_yaml ((k, Group g) # kvs) = (k, YMap (conf_yaml g)) # conf_yaml kvs"
| "conf_yaml ((k, Entries es) # kvs) = (k, YList (map entry_yaml es)) # conf_yaml kvs"

text \<open>Keys are of letters, digits and underscores; quoted text has no double quote and no line end.\<close>

definition key_char :: "char \<Rightarrow> bool" where
  "key_char c \<longleftrightarrow> is_lower c \<or> is_upper c \<or> is_digit c \<or> c = CHR ''_''"

definition yaml_key :: "bytes \<Rightarrow> bool" where
  "yaml_key k \<longleftrightarrow> k \<noteq> [] \<and> list_all key_char k"

definition literal_ok :: "literal \<Rightarrow> bool" where
  "literal_ok l = (case l of Str s \<Rightarrow> dquote \<notin> set s \<and> line_end \<notin> set s | Num i \<Rightarrow> in_int64 i | Flag b \<Rightarrow> True)"

definition entry_ok :: "(bytes \<times> literal) list \<Rightarrow> bool" where
  "entry_ok es \<longleftrightarrow> es \<noteq> [] \<and> distinct (map fst es) \<and> list_all (\<lambda>(k, l). yaml_key k \<and> literal_ok l) es"

fun conf_ok :: "(bytes \<times> conf) list \<Rightarrow> bool" where
  "conf_ok [] \<longleftrightarrow> True"
| "conf_ok ((k, Leaf l) # kvs) \<longleftrightarrow> yaml_key k \<and> k \<notin> fst ` set kvs \<and> literal_ok l \<and> conf_ok kvs"
| "conf_ok ((k, Group g) # kvs) \<longleftrightarrow> yaml_key k \<and> k \<notin> fst ` set kvs \<and> g \<noteq> [] \<and> conf_ok g \<and> conf_ok kvs"
| "conf_ok ((k, Entries es) # kvs) \<longleftrightarrow>
     yaml_key k \<and> k \<notin> fst ` set kvs \<and> es \<noteq> [] \<and> list_all entry_ok es \<and> conf_ok kvs"

text \<open>Texts whose first and last bytes are visible ASCII characters are not trimmed.\<close>

definition edge :: "char \<Rightarrow> bool" where
  "edge c \<longleftrightarrow> 0x21 \<le> byte c \<and> byte c < 0x7F"

lemma trim_left_edge: "s = [] \<or> edge (hd s) \<Longrightarrow> trim_by space_encodings s = s"
proof (cases s)
  case (Cons c t)
  assume "s = [] \<or> edge (hd s)"
  then have "edge c" using Cons by simp
  then show ?thesis unfolding Cons
    by (intro trim_by_none find_prefix_none) (simp add: space_encodings_def byte_string_def edge_def)
qed (simp add: trim_by_none space_encodings_def byte_string_def)

lemma trim_right_edge: "edge c \<Longrightarrow> trim_by (map rev space_encodings) (c # t) = c # t"
  by (intro trim_by_none find_prefix_none) (simp add: space_encodings_def byte_string_def edge_def)

lemma trim_left_space: "trim_by space_encodings (CHR '' '' # s) = trim_by space_encodings s"
proof -
  have b: "byte (CHR '' '') = 32" by (simp add: byte_def)
  have "find (\<lambda>w. w \<noteq> [] \<and> has_prefix (CHR '' '' # s) w) space_encodings = Some [CHR '' '']"
    by (simp add: space_encodings_def byte_string_def b byte_inject[symmetric])
  then show ?thesis by (subst trim_by.simps) simp
qed

lemma trim_edges:
  assumes "s \<noteq> []" and "edge (hd s)" and "edge (last s)"
  shows "trim_space (replicate n (CHR '' '') @ s) = s"
proof -
  have "trim_by space_encodings (replicate n (CHR '' '') @ s) = s"
    using assms(2) by (induction n) (simp_all add: trim_left_space trim_left_edge)
  moreover obtain t c where "s = t @ [c]" using assms(1) by (cases s rule: rev_cases) auto
  ultimately show ?thesis using assms(3) by (simp add: trim_space_def trim_right_edge)
qed

lemma key_char_byte: "key_char c \<Longrightarrow> edge c \<and> c \<noteq> CHR '':'' \<and> c \<noteq> CHR ''-'' \<and> c \<noteq> CHR ''#'' \<and> c \<noteq> CHR 0x27 \<and> c \<noteq> dquote \<and> c \<noteq> CHR '' '' \<and> c \<noteq> CHR 0x09 \<and> c \<noteq> line_end"
  by (auto simp: key_char_def edge_def is_lower_def is_upper_def is_digit_def byte_def)

lemma yaml_key_edges:
  assumes "yaml_key k"
  shows "k \<noteq> []" "edge (hd k)" "edge (last k)" "trim_space k = k" "unquote k = k" "CHR '':'' \<notin> set k" "hd k \<noteq> CHR ''-''"
proof -
  have k: "k \<noteq> []" "\<forall>c \<in> set k. key_char c" using assms by (simp_all add: yaml_key_def list_all_iff)
  then have e: "key_char (hd k)" "key_char (last k)" by simp_all
  show "k \<noteq> []" "edge (hd k)" "edge (last k)" "CHR '':'' \<notin> set k" "hd k \<noteq> CHR ''-''"
    using k e key_char_byte by blast+
  then show "trim_space k = k" using trim_edges[of k 0] by simp
  show "unquote k = k" using key_char_byte[OF e(1)] by (simp add: unquote_def)
qed

lemma index_of_char: "c \<notin> set s \<Longrightarrow> index_of (s @ c # t) [c] = Some (length s)"
  by (induction s) auto

lemma key_value_text:
  "yaml_key k \<Longrightarrow> key_value (k @ CHR '':'' # t) = Some (k, trim_space t)"
  using yaml_key_edges[of k] by (simp add: key_value_def index_of_char)

lemma literal_edges:
  assumes "literal_ok l"
  shows "literal_text l \<noteq> []" "edge (hd (literal_text l))" "edge (last (literal_text l))"
proof -
  have dig: "is_digit c \<Longrightarrow> edge c" for c by (simp add: is_digit_def edge_def)
  have "dec_nat n \<noteq> [] \<and> edge (hd (dec_nat n)) \<and> edge (last (dec_nat n))" for n
  proof -
    have "dec_nat n \<noteq> []" using dec_nat_cons[of n] by auto
    then show ?thesis using digits_all[of n] dig by (simp add: list_all_iff)
  qed
  moreover have "edge (CHR ''-'')" "edge (CHR ''t'')" "edge (CHR ''f'')" "edge (CHR ''e'')" "edge dquote" by (simp_all add: edge_def byte_def)
  ultimately show "literal_text l \<noteq> []" "edge (hd (literal_text l))" "edge (last (literal_text l))"
    by (auto simp: literal_text_def dec_int_def split: literal.split)
qed

lemma entry_key_value:
  "yaml_key k \<Longrightarrow> literal_ok l \<Longrightarrow> key_value (entry_text (k, l)) = Some (k, literal_text l)"
  using key_value_text[of k "CHR '' '' # literal_text l"] trim_edges[of "literal_text l" 1] literal_edges[of l]
  by (simp add: entry_text_def)

lemma scalar_literal:
  assumes "literal_ok l"
  shows "parseScalar low parse_float (literal_text l) = literal_yaml l"
proof (cases l)
  case (Str s)
  have "trim_space (literal_text l) = literal_text l" using trim_edges[of "literal_text l" 0] literal_edges[OF assms] by simp
  then show ?thesis
    using Str by (simp add: parseScalar_def literal_text_def literal_yaml_def has_suffix_iff unquote_def Let_def)
next
  case (Flag b)
  have e: "edge (CHR ''t'')" "edge (CHR ''f'')" "edge (CHR ''e'')" by (simp_all add: edge_def byte_def)
  have t: "trim_space ''true'' = ''true''" "trim_space ''false'' = ''false''"
    using trim_edges[of "''true''" 0] trim_edges[of "''false''" 0] e by simp_all
  have "list_all is_ascii ''true''" "list_all is_ascii ''false''" by (simp_all add: is_ascii_def byte_def)
  moreover have "map lower_byte ''true'' = ''true''" "map lower_byte ''false'' = ''false''"
    by (simp_all add: lower_byte_def is_upper_def byte_def)
  ultimately have "to_lower low ''true'' = ''true''" "to_lower low ''false'' = ''false''" by (simp_all add: to_lower_def)
  then show ?thesis
    using Flag t by (simp add: parseScalar_def literal_text_def literal_yaml_def has_suffix_def Let_def)
next
  case (Num i)
  let ?s = "dec_int i"
  have i: "in_int64 i" using assms Num by (simp add: literal_ok_def)
  have c: "is_digit c \<or> c = CHR ''-''" if "c \<in> set ?s" for c
    using that digits_all[of "nat i"] digits_all[of "nat (- i)"] by (auto simp: dec_int_def list_all_iff split: if_splits)
  have ne: "?s \<noteq> []" using literal_edges(1)[OF assms] Num by (simp add: literal_text_def)
  then have h: "is_digit (hd ?s) \<or> hd ?s = CHR ''-''" using c by simp
  have "lower_byte c = c \<and> is_ascii c" if "is_digit c \<or> c = CHR ''-''" for c
    using that by (auto simp: lower_byte_def is_upper_def is_digit_def is_ascii_def byte_def)
  then have "map lower_byte ?s = ?s" "list_all is_ascii ?s" using c by (auto simp: list_all_iff intro!: map_idI)
  then have low: "to_lower low ?s = ?s" by (simp add: to_lower_def)
  have words: "?s \<noteq> w" if "w \<noteq> []" "\<not> is_digit (hd w)" "hd w \<noteq> CHR ''-''" for w using h that by auto
  have "byte (CHR ''t'') = 116" "byte (CHR ''y'') = 121" "byte (CHR ''o'') = 111" "byte (CHR ''f'') = 102"
    "byte (CHR ''n'') = 110" "byte (CHR ''~'') = 126" "byte dquote = 34" "byte (CHR 0x27) = 39" "byte (CHR ''+'') = 43" by (simp_all add: byte_def)
  then have nd: "\<not> is_digit (CHR ''t'')" "\<not> is_digit (CHR ''y'')" "\<not> is_digit (CHR ''o'')" "\<not> is_digit (CHR ''f'')"
    "\<not> is_digit (CHR ''n'')" "\<not> is_digit (CHR ''~'')" "\<not> is_digit dquote" "\<not> is_digit (CHR 0x27)" "\<not> is_digit (CHR ''+'')"
    by (simp_all add: is_digit_def)
  have pre: "\<not> has_prefix ?s [d]" if "\<not> is_digit d" "d \<noteq> CHR ''-''" for d
    using h ne that by (cases ?s) auto
  have "ParseInt ?s = Some i" using parse_int64_dec[OF i] pre nd by (simp add: ParseInt_def)
  moreover have "trim_space ?s = ?s"
    using trim_edges[of ?s 0] literal_edges[OF assms] Num by (simp add: literal_text_def)
  ultimately show ?thesis
    using Num low pre nd words by (simp add: parseScalar_def literal_text_def literal_yaml_def Let_def)
qed

section \<open>Evaluation of written lines\<close>

definition shape :: "yamlLine list \<Rightarrow> (nat \<times> bytes) list" where
  "shape ls = map (\<lambda>l. (indent l, content l)) ls"

lemma shape_simps [simp]: "shape [] = []" "shape (l # ls) = (indent l, content l) # shape ls"
  by (simp_all add: shape_def)

lemma shape_ConsE:
  assumes "shape ls = (i, c) # cs"
  obtains l ls' where "ls = l # ls'" "indent l = i" "content l = c" "shape ls' = cs"
  using assms by (cases ls) auto

lemma shape_appendE:
  assumes "shape ls = cs @ ds"
  obtains ks js where "ls = ks @ js" "shape ks = cs" "shape js = ds"
  using assms that unfolding shape_def by (auto simp: map_eq_append_conv)

lemma put_fresh: "k \<notin> fst ` set acc \<Longrightarrow> put k v acc = acc @ [(k, v)]"
  by (force simp: put_def filter_id_conv)

definition reads_literals :: "(bytes \<Rightarrow> 'f yaml) \<Rightarrow> bool" where
  "reads_literals sc \<longleftrightarrow> (\<forall>l. literal_ok l \<longrightarrow> sc (literal_text l) = literal_yaml l)"

lemma reads_literalsD: "reads_literals sc \<Longrightarrow> literal_ok l \<Longrightarrow> sc (literal_text l) = literal_yaml l"
  by (simp add: reads_literals_def)

lemma entry_text_no_dash: "yaml_key k \<Longrightarrow> \<not> has_prefix (entry_text (k, l)) ''-''"
  using yaml_key_edges[of k] by (cases k) (auto simp: entry_text_def)

lemma evals_fields:
  "shape ls = map (\<lambda>e. (j, entry_text e)) es \<Longrightarrow> reads_literals sc \<Longrightarrow> i < j \<Longrightarrow>
   list_all (\<lambda>(k, l). yaml_key k \<and> literal_ok l) es \<Longrightarrow> distinct (map fst acc @ map fst es) \<Longrightarrow>
   rest = [] \<or> indent (hd rest) \<le> i \<Longrightarrow>
   evals sc (InItem acc) (ls @ rest) i (YMap (acc @ map (\<lambda>(k, l). (k, literal_yaml l)) es)) rest"
proof (induction es arbitrary: ls acc)
  case Nil
  then show ?case using evals_item_end[of rest i sc acc] by (simp add: shape_def)
next
  case (Cons e es)
  obtain k l where e: "e = (k, l)" by fastforce
  obtain x xs where ls: "ls = x # xs" "indent x = j" "content x = entry_text (k, l)" "shape xs = map (\<lambda>e. (j, entry_text e)) es"
    using Cons.prems(1) e by (auto elim: shape_ConsE)
  have kl: "yaml_key k" "literal_ok l" "k \<notin> fst ` set acc" using Cons.prems(4,5) e by auto
  have "evals sc (InItem (acc @ [(k, literal_yaml l)])) (xs @ rest) i
      (YMap ((acc @ [(k, literal_yaml l)]) @ map (\<lambda>(k, l). (k, literal_yaml l)) es)) rest"
    using Cons.prems e by (intro Cons.IH[OF ls(4)]) auto
  then show ?case
    using kl literal_edges(1)[OF kl(2)] Cons.prems(3) entry_key_value[OF kl(1,2)] entry_text_no_dash[OF kl(1)]
    by (auto intro!: evals_item_scalar[of _ k "literal_text l"] simp: ls e put_fresh reads_literalsD[OF Cons.prems(2)])
qed

lemma trim_entry: "yaml_key k \<Longrightarrow> literal_ok l \<Longrightarrow> trim_space (CHR '' '' # entry_text (k, l)) = entry_text (k, l)"
  using trim_edges[of "entry_text (k, l)" 1] yaml_key_edges[of k] literal_edges[of l] by (simp add: entry_text_def)

lemma entry_text_nonempty [simp]: "entry_text e \<noteq> []"
  by (simp add: entry_text_def)

lemma evals_entries:
  "shape ls = concat (map (entry_lines i) es) \<Longrightarrow> reads_literals sc \<Longrightarrow> list_all entry_ok es \<Longrightarrow>
   rest = [] \<or> indent (hd rest) < i \<Longrightarrow>
   evals sc (InList acc) (ls @ rest) i (YList (acc @ map entry_yaml es)) rest"
proof (induction es arbitrary: ls acc)
  case Nil
  then show ?case using evals_list_end[of rest i sc acc] by (simp add: shape_def)
next
  case (Cons en es)
  obtain k l en' where en: "en = (k, l) # en'" using Cons.prems(3) by (cases en) (auto simp: entry_ok_def)
  obtain x xs ys where ls: "ls = x # xs @ ys" "indent x = i" "content x = ''- '' @ entry_text (k, l)"
      "shape xs = map (\<lambda>e. (i + 2, entry_text e)) en'" "shape ys = concat (map (entry_lines i) es)"
    using Cons.prems(1) en by (auto simp: entry_lines_def[of i "(k, l) # en'"] elim!: shape_ConsE shape_appendE)
  have kl: "yaml_key k" "literal_ok l" using Cons.prems(3) en by (auto simp: entry_ok_def)
  have tail: "ys @ rest = [] \<or> indent (hd (ys @ rest)) \<le> i"
  proof (cases "ys = []")
    case False
    then obtain en2 es2 where es: "es = en2 # es2" using ls(5) by (cases es) (auto simp: shape_def)
    then obtain e' es' where "en2 = e' # es'" using Cons.prems(3) by (cases en2) (auto simp: entry_ok_def)
    then have "indent (hd ys) = i" using ls(5) es by (auto simp: entry_lines_def elim!: shape_ConsE)
    then show ?thesis using False by simp
  qed (use Cons.prems(4) in auto)
  have "evals sc (InItem [(k, literal_yaml l)]) (xs @ ys @ rest) i
      (YMap ([(k, literal_yaml l)] @ map (\<lambda>(k, l). (k, literal_yaml l)) en')) (ys @ rest)"
    using Cons.prems(2,3) en tail by (intro evals_fields[OF ls(4)]) (auto simp: entry_ok_def)
  then have item: "evals sc (InItem [(k, literal_yaml l)]) (xs @ ys @ rest) i (entry_yaml en) (ys @ rest)"
    by (simp add: en entry_yaml_def)
  have "evals sc (InList (acc @ [entry_yaml en])) (ys @ rest) i (YList ((acc @ [entry_yaml en]) @ map entry_yaml es)) rest"
    using Cons.prems by (intro Cons.IH[OF ls(5)]) auto
  then show ?case
    using item kl entry_key_value[OF kl] trim_entry[OF kl] literal_edges(1)[OF kl(2)]
    by (auto intro!: evals_list_item[of _ k "literal_text l"] simp: ls reads_literalsD[OF Cons.prems(2)])
qed

lemma conf_lines_head:
  assumes "kvs \<noteq> []" and "conf_ok kvs"
  shows "\<exists>c cs. conf_lines i kvs = (i, c) # cs \<and> \<not> has_prefix c ''-''"
proof -
  obtain k v kvs' where "kvs = (k, v) # kvs'" using assms(1) by (cases kvs) auto
  moreover have "\<not> has_prefix (k @ s) ''-''" if "yaml_key k" for s
    using yaml_key_edges[OF that] by (cases k) auto
  ultimately show ?thesis using assms(2) by (cases v) (auto simp: entry_text_def)
qed

lemma evals_conf:
  "shape ls = conf_lines i kvs \<Longrightarrow> reads_literals sc \<Longrightarrow> conf_ok kvs \<Longrightarrow> fst ` set acc \<inter> fst ` set kvs = {} \<Longrightarrow>
   rest = [] \<or> indent (hd rest) < i \<Longrightarrow>
   evals sc (InMap acc) (ls @ rest) i (YMap (acc @ conf_yaml kvs)) rest"
proof (induction i kvs arbitrary: ls acc rest rule: conf_lines.induct)
  case (1 i)
  then show ?case using evals_map_end[of rest i sc acc] by (simp add: shape_def)
next
  case (2 i k l kvs)
  obtain x xs where ls: "ls = x # xs" "indent x = i" "content x = entry_text (k, l)" "shape xs = conf_lines i kvs"
    using 2(2) by (auto elim: shape_ConsE)
  have kl: "yaml_key k" "literal_ok l" "k \<notin> fst ` set acc" using 2(4,5) by auto
  have "evals sc (InMap (acc @ [(k, literal_yaml l)])) (xs @ rest) i (YMap ((acc @ [(k, literal_yaml l)]) @ conf_yaml kvs)) rest"
    using 2 by (intro 2(1)[OF ls(4)]) auto
  then show ?case
    using kl literal_edges(1)[OF kl(2)] entry_key_value[OF kl(1,2)]
    by (auto intro!: evals_map_scalar[of _ k "literal_text l"] simp: ls put_fresh reads_literalsD[OF 2(3)])
next
  case (3 i k g kvs)
  obtain x xs ys where ls: "ls = x # xs @ ys" "indent x = i" "content x = k @ '':''" "shape xs = conf_lines (i + 2) g"
      "shape ys = conf_lines i kvs"
    using 3(3) by (auto elim!: shape_ConsE shape_appendE)
  have k: "yaml_key k" "k \<notin> fst ` set acc" "g \<noteq> []" "conf_ok g" "conf_ok kvs" using 3(5,6) by auto
  have tail: "ys @ rest = [] \<or> indent (hd (ys @ rest)) < i + 2"
    using conf_lines_head[of kvs i] k(5) ls(5) 3(7) by (cases "kvs = []") (auto simp: shape_def)
  have "evals sc (InMap []) (xs @ ys @ rest) (i + 2) (YMap ([] @ conf_yaml g)) (ys @ rest)"
    using k 3(4) tail by (intro 3(1)[OF ls(4)]) auto
  moreover obtain y ys' where "xs = y # ys'" "indent y = i + 2" "\<not> has_prefix (content y) ''-''"
    using conf_lines_head[OF k(3,4), of "i + 2"] ls(4) by (auto elim!: shape_ConsE)
  ultimately have sub: "evals sc SubBlock (xs @ ys @ rest) i (YMap (conf_yaml g)) (ys @ rest)"
    by (auto intro: evals_sub)
  have "evals sc (InMap (acc @ [(k, YMap (conf_yaml g))])) (ys @ rest) i (YMap ((acc @ [(k, YMap (conf_yaml g))]) @ conf_yaml kvs)) rest"
    using 3 k by (intro 3(2)[OF ls(5)]) auto
  then show ?case
    using sub k key_value_text[OF k(1), of "[]"]
    by (auto intro!: evals_map_block[OF sub] simp: ls put_fresh trim_space_def trim_by_none space_encodings_def byte_string_def)
next
  case (4 i k es kvs)
  obtain x xs ys where ls: "ls = x # xs @ ys" "indent x = i" "content x = k @ '':''" "shape xs = concat (map (entry_lines (i + 2)) es)"
      "shape ys = conf_lines i kvs"
    using 4(2) by (auto elim!: shape_ConsE shape_appendE)
  have k: "yaml_key k" "k \<notin> fst ` set acc" "es \<noteq> []" "list_all entry_ok es" "conf_ok kvs" using 4(4,5) by auto
  have tail: "ys @ rest = [] \<or> indent (hd (ys @ rest)) < i + 2"
    using conf_lines_head[of kvs i] k(5) ls(5) 4(6) by (cases "kvs = []") (auto simp: shape_def)
  have "evals sc (InList []) (xs @ ys @ rest) (i + 2) (YList ([] @ map entry_yaml es)) (ys @ rest)"
    by (rule evals_entries[OF ls(4) 4(3) k(4) tail])
  moreover obtain en es' where es: "es = en # es'" "en \<noteq> []" using k(3,4) by (cases es) (auto simp: entry_ok_def)
  then obtain y ys' where "xs = y # ys'" "indent y = i + 2" "has_prefix (content y) ''-''"
    using ls(4) by (cases en) (auto simp: entry_lines_def elim!: shape_ConsE)
  ultimately have sub: "evals sc SubBlock (xs @ ys @ rest) i (YList (map entry_yaml es)) (ys @ rest)"
    by (auto intro: evals_sub)
  have "evals sc (InMap (acc @ [(k, YList (map entry_yaml es))])) (ys @ rest) i
      (YMap ((acc @ [(k, YList (map entry_yaml es))]) @ conf_yaml kvs)) rest"
    using 4 k by (intro 4(1)[OF ls(5)]) auto
  then show ?case
    using sub k key_value_text[OF k(1), of "[]"]
    by (auto intro!: evals_map_block[OF sub] simp: ls put_fresh trim_space_def trim_by_none space_encodings_def byte_string_def)
qed

section \<open>From the text to the lines\<close>

definition clean :: "bytes \<Rightarrow> bool" where
  "clean c \<longleftrightarrow> c \<noteq> [] \<and> edge (hd c) \<and> edge (last c) \<and> line_end \<notin> set c \<and> strip_from False False c = c"

definition line_text :: "nat \<times> bytes \<Rightarrow> bytes" where
  "line_text l = replicate (fst l) (CHR '' '') @ snd l"

lemma number_clean: "list_all (\<lambda>(i, c). clean c) cs \<Longrightarrow> shape (number_lines n (map line_text cs)) = cs"
proof (induction cs arbitrary: n)
  case (Cons l cs)
  obtain i c where l: "l = (i, c)" by fastforce
  then have c: "clean c" using Cons.prems by simp
  have "strip_from False False (replicate i (CHR '' '') @ c) = replicate i (CHR '' '') @ c"
    using c by (induction i) (simp_all add: clean_def)
  moreover have "trim_space (replicate i (CHR '' '') @ c) = c" using c trim_edges by (simp add: clean_def)
  moreover have "countIndent (replicate i (CHR '' '') @ c) = i"
  proof -
    have "edge (hd c)" "c \<noteq> []" using c by (simp_all add: clean_def)
    then have "countIndent c = 0" by (cases c) (auto simp: edge_def byte_def)
    then show ?thesis by (induction i) simp_all
  qed
  ultimately show ?case using Cons c by (simp add: l line_text_def stripComment_def Let_def clean_def)
qed simp

lemma strip_plain: "list_all key_char k \<Longrightarrow> strip_from False False (k @ t) = k @ strip_from False False t"
  by (induction k) (auto dest: key_char_byte)

lemma strip_quoted: "dquote \<notin> set s \<Longrightarrow> strip_from False True (s @ [dquote]) = s @ [dquote]"
  by (induction s) auto

lemma strip_literal: "literal_ok l \<Longrightarrow> strip_from False False (literal_text l) = literal_text l"
proof (cases l)
  case (Num i)
  have "list_all (\<lambda>c. key_char c \<or> c = CHR ''-'') (dec_int i)"
    using digits_all[of "nat i"] digits_all[of "nat (- i)"] by (auto simp: dec_int_def list_all_iff key_char_def)
  moreover have "strip_from False False s = s" if "list_all (\<lambda>c. key_char c \<or> c = CHR ''-'') s" for s
    using that by (induction s) (auto dest: key_char_byte)
  ultimately show ?thesis using Num by (simp add: literal_text_def)
qed (auto simp: literal_text_def literal_ok_def strip_quoted)

lemma entry_clean: "yaml_key k \<Longrightarrow> literal_ok l \<Longrightarrow> clean (entry_text (k, l))"
proof -
  assume k: "yaml_key k" and l: "literal_ok l"
  have "line_end \<notin> set k" using k key_char_byte by (auto simp: yaml_key_def list_all_iff)
  moreover have "line_end \<notin> set (literal_text l)"
  proof (cases l)
    case (Num i)
    have "\<forall>c \<in> set (dec_int i). is_digit c \<or> c = CHR ''-''"
      using digits_all[of "nat i"] digits_all[of "nat (- i)"] by (auto simp: dec_int_def list_all_iff)
    then show ?thesis using Num by (auto simp: literal_text_def is_digit_def byte_def)
  qed (use l in \<open>auto simp: literal_text_def literal_ok_def\<close>)
  ultimately show ?thesis
    using yaml_key_edges[OF k] literal_edges[OF l] strip_literal[OF l] strip_plain[of k] k
    by (simp add: clean_def entry_text_def yaml_key_def)
qed

lemma dash_clean: "clean c \<Longrightarrow> clean (''- '' @ c)"
  by (simp add: clean_def edge_def byte_def)

lemma header_clean: "yaml_key k \<Longrightarrow> clean (k @ '':'')"
  using yaml_key_edges[of k] strip_plain[of k "'':''"] key_char_byte
  by (auto simp: clean_def yaml_key_def list_all_iff edge_def byte_def)

lemma conf_lines_clean: "conf_ok kvs \<Longrightarrow> list_all (\<lambda>(i, c). clean c) (conf_lines i kvs)"
proof (induction i kvs rule: conf_lines.induct)
  case (4 i k es kvs)
  have "list_all (\<lambda>(i, c). clean c) (entry_lines (i + 2) en)" if "entry_ok en" for en
    using that entry_clean dash_clean[OF entry_clean]
    by (cases en) (auto simp: entry_ok_def entry_lines_def list_all_iff)
  moreover have "list_all entry_ok es" using 4(2) by simp
  ultimately have "list_all (\<lambda>(i, c). clean c) (concat (map (entry_lines (i + 2)) es))"
    by (induction es) (simp_all del: add_2_eq_Suc')
  then show ?case using 4 header_clean by simp
qed (auto simp: entry_clean header_clean)

lemma scan_conf:
  assumes "list_all (\<lambda>(i, c). clean c \<and> i + length c < MaxScanTokenSize) cs"
  shows "scan_lines MaxScanTokenSize (as_lines (map line_text cs)) = (map line_text cs, False)"
proof (rule scan_as_lines)
  have "plain_line MaxScanTokenSize (line_text (i, c))" if "clean c" "i + length c < MaxScanTokenSize" for i c
    using that by (auto simp: plain_line_def line_text_def clean_def drop_cr_def edge_def byte_def)
  then show "list_all (plain_line MaxScanTokenSize) (map line_text cs)" using assms by (auto simp: list_all_iff)
qed

text \<open>C25: A configuration of nested sections, scalars and lists of entries, written with two spaces of
  indentation and quoted strings, is read back exactly, whatever its depth and whatever the strings contain
  apart from double quotes and line ends, as long as no line reaches the scanner's 64 KB.\<close>

theorem yaml_roundtrip:
  assumes "conf_ok kvs" and "list_all (\<lambda>(i, c). i + length c < MaxScanTokenSize) (conf_lines 0 kvs)"
  shows "parseYAML low parse_float (conf_text kvs) = Some (Inr (YMap (conf_yaml kvs)))"
proof (cases "kvs = []")
  case True
  then show ?thesis by (simp add: conf_text_def parseYAML_def parse_lines_def document_lines_def scan_lines_def)
next
  case False
  let ?sc = "parseScalar low parse_float" and ?ls = "document_lines (conf_text kvs)"
  have doc: "conf_text kvs = as_lines (map line_text (conf_lines 0 kvs))"
    by (simp add: conf_text_def line_text_def[abs_def])
  have "list_all (\<lambda>(i, c). clean c \<and> i + length c < MaxScanTokenSize) (conf_lines 0 kvs)"
    using conf_lines_clean[OF assms(1), of 0] assms(2) by (auto simp: list_all_iff)
  then have shape: "shape ?ls = conf_lines 0 kvs"
    using conf_lines_clean[OF assms(1)] by (simp add: document_lines_def doc scan_conf number_clean)
  then obtain x xs where ls: "?ls = x # xs" "indent x = 0" "\<not> has_prefix (content x) ''-''"
    using conf_lines_head[OF False assms(1), of 0] by (auto elim!: shape_ConsE)
  have "reads_literals ?sc" by (simp add: reads_literals_def scalar_literal)
  then have "evals ?sc (InMap []) (?ls @ []) 0 (YMap ([] @ conf_yaml kvs)) []"
    by (intro evals_conf[OF shape _ assms(1)]) simp_all
  then obtain n where "run ?sc n (InMap []) ?ls 0 = Some (Inr (YMap (conf_yaml kvs), []))" by (auto simp: evals_def)
  then have "run ?sc (Suc n) Block ?ls 0 = Some (Inr (YMap (conf_yaml kvs), []))" using ls by (simp add: parseBlock_def)
  then have "run ?sc (max (Suc n) (block_fuel ?ls)) Block ?ls 0 = Some (Inr (YMap (conf_yaml kvs), []))"
    by (rule run_more) simp
  moreover obtain y where "run ?sc (block_fuel ?ls) Block ?ls 0 = Some y"
    using returns_some[OF enough_fuel[of Block ?ls "block_fuel ?ls" ?sc 0]] by (auto simp: needed_def block_fuel_def)
  then have "run ?sc (max (Suc n) (block_fuel ?ls)) Block ?ls 0 = Some y" by (rule run_more) simp
  ultimately have "run ?sc (block_fuel ?ls) Block ?ls 0 = Some (Inr (YMap (conf_yaml kvs), []))"
    using \<open>run ?sc (block_fuel ?ls) Block ?ls 0 = Some y\<close> by simp
  then show ?thesis using ls by (simp add: parseYAML_def parse_lines_def)
qed

definition example_conf :: "(bytes \<times> conf) list" where
  "example_conf = [(''port'', Leaf (Num 8443)),
     (''audit'', Group [(''hmac_key'', Leaf (Str ''a#b: c''))]),
     (''tenants'', Entries [[(''api_key'', Str ''k1''), (''enabled'', Flag True)]])]"

lemma yaml_roundtrip_witness:
  "parseYAML id (\<lambda>_. None :: unit option) (conf_text example_conf) =
     Some (Inr (YMap [(''port'', YInt 8443), (''audit'', YMap [(''hmac_key'', YStr ''a#b: c'')]),
       (''tenants'', YList [YMap [(''api_key'', YStr ''k1''), (''enabled'', YBool True)]])]))"
proof -
  have ok: "conf_ok example_conf"
    by (simp add: example_conf_def entry_ok_def literal_ok_def in_int64_def yaml_key_def key_char_def is_lower_def
        is_digit_def byte_def)
  have "list_all (\<lambda>(i, c). i + length c < MaxScanTokenSize) (conf_lines 0 example_conf)"
    by (simp add: example_conf_def entry_lines_def entry_text_def literal_text_def dec_int_def dec_nat.simps MaxScanTokenSize_def)
  from yaml_roundtrip[OF ok this] show ?thesis
    by (simp add: example_conf_def literal_yaml_def entry_yaml_def)
qed

section \<open>What the reader drops\<close>

text \<open>A line that does not fit into the scanner's 64 KB ends the document without an error: it and everything
  after it is ignored.\<close>

theorem long_line_ends_document:
  assumes "line_end \<notin> set long" and "MaxScanTokenSize \<le> length long" and "list_all (\<lambda>l. line_end \<notin> set l) ls"
  shows "parseYAML low parse_float (as_lines ls @ long @ line_end # rest) = parseYAML low parse_float (as_lines ls)"
proof -
  have "split_lines (as_lines ls @ long @ line_end # rest) = ls @ long # split_lines rest"
    using split_as_lines_append[OF assms(3), of "long @ line_end # rest"] split_lines_line[OF assms(1)] by simp
  moreover have "split_lines (as_lines ls) = ls" using split_as_lines_append[OF assms(3), of "[]"] by simp
  moreover have "takeWhile (\<lambda>l. length l < MaxScanTokenSize) (ls @ long # t) = takeWhile (\<lambda>l. length l < MaxScanTokenSize) ls" for t
    using assms(2) by (induction ls) auto
  ultimately show ?thesis by (simp add: parseYAML_def document_lines_def scan_lines_def Let_def)
qed

lemma long_line_ends_document_witness:
  "parseYAML low parse_float (as_lines [''host: a''] @ replicate 65536 (CHR ''x'') @ line_end # ''port: 1'') =
   parseYAML low parse_float (as_lines [''host: a''])"
  by (rule long_line_ends_document) (simp_all add: MaxScanTokenSize_def)

text \<open>Everything from the first line on that is indented less than the first entry is ignored without an error.\<close>

theorem dedented_rest_dropped:
  assumes "shape (document_lines data) = (i, k @ '':'' @ '' '' @ literal_text l) # (j, c) # others" and "j < i"
    and "yaml_key k" and "literal_ok l"
  shows "parseYAML low parse_float data = Some (Inr (YMap [(k, literal_yaml l)]))"
proof -
  obtain x y zs where ls: "document_lines data = x # y # zs" "indent x = i" "content x = entry_text (k, l)" "indent y = j"
    using assms(1) by (auto simp: entry_text_def elim!: shape_ConsE)
  define n where "n = 4 * length zs + 7"
  have "block_fuel (x # y # zs) = Suc (Suc (Suc n))" by (simp add: block_fuel_def n_def)
  then show ?thesis
    using ls assms entry_key_value[OF assms(3,4)] entry_text_no_dash[OF assms(3), of l] literal_edges(1)[OF assms(4)]
      scalar_literal[OF assms(4), of low parse_float]
    by (simp add: parseYAML_def parse_lines_def parseBlock_def parseMap_def put_def)
qed

lemma dedented_rest_dropped_witness:
  "parseYAML low parse_float (as_lines [''  port: 1'', ''tenants:'', ''  k: 2'']) = Some (Inr (YMap [(''port'', YInt 1)]))"
proof -
  let ?cs = "[(2, ''port: 1''), (0, ''tenants:''), (2, ''k: 2'')]"
  have c: "list_all (\<lambda>(i, c). clean c \<and> i + length c < MaxScanTokenSize) ?cs" "list_all (\<lambda>(i, c). clean c) ?cs"
    by (simp_all add: clean_def edge_def byte_def MaxScanTokenSize_def)
  have l: "map line_text ?cs = [''  port: 1'', ''tenants:'', ''  k: 2'']" by (simp add: line_text_def numeral_2_eq_2)
  have s: "shape (document_lines (as_lines [''  port: 1'', ''tenants:'', ''  k: 2''])) = ?cs"
    using scan_conf[OF c(1), unfolded l] number_clean[OF c(2), of 1, unfolded l] by (simp only: document_lines_def fst_conv)
  have d: "dec_int 1 = ''1''" by code_simp
  then have t: "''port: 1'' = ''port'' @ '':'' @ '' '' @ literal_text (Num 1)" by (simp add: literal_text_def)
  show ?thesis
    using dedented_rest_dropped[of _ 2 "''port''" "Num 1" 0, OF s[unfolded t]]
    by (simp add: yaml_key_def key_char_def is_lower_def byte_def literal_ok_def in_int64_def literal_yaml_def
        literal_text_def d)
qed

end
