(* ===== verification/Config.thy ===== *)
theory Config
  imports Yaml
begin

text \<open>
  The configuration (\<open>internal/config/config.go\<close>): its records, the decoding of JSON on top of the defaults,
  the tenant map with its own decoder, and the normalisation. A Go map is an association list without
  duplicate keys, \<open>None\<close> is the nil map. Integers are \<open>int64\<close> values, durations wrap around.
\<close>

section \<open>Records\<close>

definition DefaultHost :: string where "DefaultHost = ''0.0.0.0''"
definition DefaultPort :: int where "DefaultPort = 8080"
definition DefaultListenAddr :: string where "DefaultListenAddr = '':8080''"
definition DefaultUpstreamURL :: string where "DefaultUpstreamURL = ''http://localhost:11434''"
definition DefaultMaxPayloadBytes :: int where "DefaultMaxPayloadBytes = 4 * 1024 * 1024"
definition DefaultReadTimeoutMs :: int where "DefaultReadTimeoutMs = 10000"
definition DefaultWriteTimeoutMs :: int where "DefaultWriteTimeoutMs = 60000"
definition DefaultIdleTimeoutMs :: int where "DefaultIdleTimeoutMs = 120000"
definition DefaultUpstreamTimeout :: int where "DefaultUpstreamTimeout = 60000"

record TenantConfig =
  tc_APIKey :: string
  tc_TenantID :: string
  tc_Name :: string
  tc_Enabled :: bool
  tc_RPM :: int
  tc_TPM :: int

record TimeoutConfig =
  ReadTimeoutMs :: int
  WriteTimeoutMs :: int
  IdleTimeoutMs :: int
  UpstreamTimeoutMs :: int

type_synonym TenantMap = "(string \<times> TenantConfig) list option"

record AuditConfig =
  au_JournalPath :: string
  au_RingBufferSize :: int
  au_FlushIntervalMs :: int
  au_HMACKey :: string
  au_NodeID :: string

record CircuitBreakerConfig =
  cbc_FailureThreshold :: u32
  cbc_CooldownSeconds :: int
  cbc_HalfOpenProbes :: u32

record Config =
  cfg_Host :: string
  cfg_Port :: int
  cfg_ListenAddr :: string
  cfg_UpstreamURL :: string
  cfg_UpstreamAuthToken :: string
  cfg_MaxPayloadBytes :: int
  cfg_Timeouts :: TimeoutConfig
  cfg_Tenants :: TenantMap
  cfg_Audit :: AuditConfig
  cfg_CircuitBreaker :: CircuitBreakerConfig

definition timeout_of :: "int \<Rightarrow> int \<Rightarrow> duration" where
  "timeout_of ms dflt = (if ms \<le> 0 then wrap64 (dflt * Millisecond) else wrap64 (ms * Millisecond))"

definition ReadTimeout :: "TimeoutConfig \<Rightarrow> duration" where
  "ReadTimeout t = timeout_of (ReadTimeoutMs t) DefaultReadTimeoutMs"

definition WriteTimeout :: "TimeoutConfig \<Rightarrow> duration" where
  "WriteTimeout t = timeout_of (WriteTimeoutMs t) DefaultWriteTimeoutMs"

definition IdleTimeout :: "TimeoutConfig \<Rightarrow> duration" where
  "IdleTimeout t = timeout_of (IdleTimeoutMs t) DefaultIdleTimeoutMs"

definition UpstreamTimeout :: "TimeoutConfig \<Rightarrow> duration" where
  "UpstreamTimeout t = timeout_of (UpstreamTimeoutMs t) DefaultUpstreamTimeout"

definition NewDefaultConfig :: Config where
  "NewDefaultConfig = \<lparr>cfg_Host = DefaultHost, cfg_Port = DefaultPort, cfg_ListenAddr = DefaultListenAddr,
     cfg_UpstreamURL = DefaultUpstreamURL, cfg_UpstreamAuthToken = [], cfg_MaxPayloadBytes = DefaultMaxPayloadBytes,
     cfg_Timeouts = \<lparr>ReadTimeoutMs = DefaultReadTimeoutMs, WriteTimeoutMs = DefaultWriteTimeoutMs,
       IdleTimeoutMs = DefaultIdleTimeoutMs, UpstreamTimeoutMs = DefaultUpstreamTimeout\<rparr>,
     cfg_Tenants = Some [],
     cfg_Audit = \<lparr>au_JournalPath = ''/var/log/guardrail/audit.log'', au_RingBufferSize = 65536, au_FlushIntervalMs = 0,
       au_HMACKey = [], au_NodeID = ''guardrail-proxy-node-1''\<rparr>,
     cfg_CircuitBreaker = \<lparr>cbc_FailureThreshold = 5, cbc_CooldownSeconds = 30, cbc_HalfOpenProbes = 2\<rparr>\<rparr>"

definition GetListenAddr :: "Config \<Rightarrow> string" where
  "GetListenAddr c =
     (if cfg_ListenAddr c \<noteq> [] then cfg_ListenAddr c
      else if cfg_Port c > 0 then
        (if cfg_Host c \<noteq> [] \<and> cfg_Host c \<noteq> ''0.0.0.0'' then cfg_Host c @ '':'' @ dec_int (cfg_Port c)
         else '':'' @ dec_int (cfg_Port c))
      else DefaultListenAddr)"

definition GetUpstreamURL :: "Config \<Rightarrow> string" where
  "GetUpstreamURL c = (if cfg_UpstreamURL c \<noteq> [] then cfg_UpstreamURL c else DefaultUpstreamURL)"

definition AddTenant :: "TenantConfig \<Rightarrow> Config \<Rightarrow> Config" where
  "AddTenant t c =
     (let tenants = (case cfg_Tenants c of None \<Rightarrow> [] | Some m \<Rightarrow> m);
          key = (if tc_APIKey t = [] then tc_TenantID t else tc_APIKey t)
      in c\<lparr>cfg_Tenants := Some (put key t tenants)\<rparr>)"

section \<open>Decoding\<close>

definition store_bool :: "json \<Rightarrow> bool \<Rightarrow> bool \<times> bool" where
  "store_bool v old = (case v of JNull \<Rightarrow> (old, False) | JBool b \<Rightarrow> (b, False) | _ \<Rightarrow> (old, True))"

definition store_uint32 :: "json \<Rightarrow> u32 \<Rightarrow> u32 \<times> bool" where
  "store_uint32 v old =
     (case v of
        JNull \<Rightarrow> (old, False)
      | JNum n \<Rightarrow> (if n \<noteq> [] \<and> list_all is_digit n \<and> dec_value n < 2 ^ 32 then (of_nat (dec_value n), False) else (old, True))
      | _ \<Rightarrow> (old, True))"

definition tenant_fields :: "(bytes \<times> (json \<Rightarrow> TenantConfig \<Rightarrow> TenantConfig \<times> bool)) list" where
  "tenant_fields =
     [(''api_key'', at_field tc_APIKey (\<lambda>y. tc_APIKey_update (\<lambda>_. y)) store_string),
      (''tenant_id'', at_field tc_TenantID (\<lambda>y. tc_TenantID_update (\<lambda>_. y)) store_string),
      (''name'', at_field tc_Name (\<lambda>y. tc_Name_update (\<lambda>_. y)) store_string),
      (''enabled'', at_field tc_Enabled (\<lambda>y. tc_Enabled_update (\<lambda>_. y)) store_bool),
      (''rpm'', at_field tc_RPM (\<lambda>y. tc_RPM_update (\<lambda>_. y)) store_int),
      (''tpm'', at_field tc_TPM (\<lambda>y. tc_TPM_update (\<lambda>_. y)) store_int)]"

definition timeout_fields :: "(bytes \<times> (json \<Rightarrow> TimeoutConfig \<Rightarrow> TimeoutConfig \<times> bool)) list" where
  "timeout_fields =
     [(''read_timeout_ms'', at_field ReadTimeoutMs (\<lambda>y. ReadTimeoutMs_update (\<lambda>_. y)) store_int),
      (''write_timeout_ms'', at_field WriteTimeoutMs (\<lambda>y. WriteTimeoutMs_update (\<lambda>_. y)) store_int),
      (''idle_timeout_ms'', at_field IdleTimeoutMs (\<lambda>y. IdleTimeoutMs_update (\<lambda>_. y)) store_int),
      (''upstream_timeout_ms'', at_field UpstreamTimeoutMs (\<lambda>y. UpstreamTimeoutMs_update (\<lambda>_. y)) store_int)]"

definition audit_fields :: "(bytes \<times> (json \<Rightarrow> AuditConfig \<Rightarrow> AuditConfig \<times> bool)) list" where
  "audit_fields =
     [(''journal_path'', at_field au_JournalPath (\<lambda>y. au_JournalPath_update (\<lambda>_. y)) store_string),
      (''ring_buffer_size'', at_field au_RingBufferSize (\<lambda>y. au_RingBufferSize_update (\<lambda>_. y)) store_int),
      (''flush_interval_ms'', at_field au_FlushIntervalMs (\<lambda>y. au_FlushIntervalMs_update (\<lambda>_. y)) store_int),
      (''hmac_key'', at_field au_HMACKey (\<lambda>y. au_HMACKey_update (\<lambda>_. y)) store_string),
      (''node_id'', at_field au_NodeID (\<lambda>y. au_NodeID_update (\<lambda>_. y)) store_string)]"

definition breaker_fields :: "(bytes \<times> (json \<Rightarrow> CircuitBreakerConfig \<Rightarrow> CircuitBreakerConfig \<times> bool)) list" where
  "breaker_fields =
     [(''failure_threshold'', at_field cbc_FailureThreshold (\<lambda>y. cbc_FailureThreshold_update (\<lambda>_. y)) store_uint32),
      (''cooldown_seconds'', at_field cbc_CooldownSeconds (\<lambda>y. cbc_CooldownSeconds_update (\<lambda>_. y)) store_int),
      (''half_open_probes'', at_field cbc_HalfOpenProbes (\<lambda>y. cbc_HalfOpenProbes_update (\<lambda>_. y)) store_uint32)]"

definition zero_tenant :: TenantConfig where
  "zero_tenant = \<lparr>tc_APIKey = [], tc_TenantID = [], tc_Name = [], tc_Enabled = False, tc_RPM = 0, tc_TPM = 0\<rparr>"

text \<open>\<open>TenantMap.UnmarshalJSON\<close>: \<open>None\<close> is its error, which leaves the map as it was.\<close>

definition tenants_of_list :: "TenantConfig list \<Rightarrow> (string \<times> TenantConfig) list" where
  "tenants_of_list ts = fold (\<lambda>t m. let key = (if tc_APIKey t = [] then tc_TenantID t else tc_APIKey t)
     in if key \<noteq> [] then put key t m else m) ts []"

fun store_tenant_map :: "(bytes \<times> json) list \<Rightarrow> (string \<times> TenantConfig) list \<Rightarrow> (string \<times> TenantConfig) list \<times> bool" where
  "store_tenant_map [] m = (m, False)"
| "store_tenant_map ((k, v) # kvs) m =
     (case store_struct tenant_fields v zero_tenant of (t, e) \<Rightarrow>
        case store_tenant_map kvs (put k t m) of (m', e') \<Rightarrow> (m', e \<or> e'))"

definition fill_api_key :: "string \<times> TenantConfig \<Rightarrow> string \<times> TenantConfig" where
  "fill_api_key kt = (case kt of (k, t) \<Rightarrow> (k, if tc_APIKey t = [] then t\<lparr>tc_APIKey := k\<rparr> else t))"

definition TenantMap_UnmarshalJSON :: "json \<Rightarrow> (string \<times> TenantConfig) list option" where
  "TenantMap_UnmarshalJSON v =
     (case v of
        JNull \<Rightarrow> Some []
      | JArr vs \<Rightarrow> (case store_elements zero_tenant (store_struct tenant_fields) vs [] of
           (ts, failed) \<Rightarrow> if failed then None else Some (tenants_of_list ts))
      | JObj kvs \<Rightarrow> (case store_tenant_map kvs [] of
           (m, failed) \<Rightarrow> if failed then None else Some (map fill_api_key m))
      | _ \<Rightarrow> None)"

definition store_tenants :: "json \<Rightarrow> TenantMap \<Rightarrow> TenantMap \<times> bool" where
  "store_tenants v old = (case TenantMap_UnmarshalJSON v of None \<Rightarrow> (old, True) | Some m \<Rightarrow> (Some m, False))"

definition config_fields :: "(bytes \<times> (json \<Rightarrow> Config \<Rightarrow> Config \<times> bool)) list" where
  "config_fields =
     [(''host'', at_field cfg_Host (\<lambda>y. cfg_Host_update (\<lambda>_. y)) store_string),
      (''port'', at_field cfg_Port (\<lambda>y. cfg_Port_update (\<lambda>_. y)) store_int),
      (''listen_addr'', at_field cfg_ListenAddr (\<lambda>y. cfg_ListenAddr_update (\<lambda>_. y)) store_string),
      (''upstream_url'', at_field cfg_UpstreamURL (\<lambda>y. cfg_UpstreamURL_update (\<lambda>_. y)) store_string),
      (''upstream_auth_token'', at_field cfg_UpstreamAuthToken (\<lambda>y. cfg_UpstreamAuthToken_update (\<lambda>_. y)) store_string),
      (''max_payload_bytes'', at_field cfg_MaxPayloadBytes (\<lambda>y. cfg_MaxPayloadBytes_update (\<lambda>_. y)) store_int),
      (''timeouts'', at_field cfg_Timeouts (\<lambda>y. cfg_Timeouts_update (\<lambda>_. y)) (store_struct timeout_fields)),
      (''tenants'', at_field cfg_Tenants (\<lambda>y. cfg_Tenants_update (\<lambda>_. y)) store_tenants),
      (''audit'', at_field cfg_Audit (\<lambda>y. cfg_Audit_update (\<lambda>_. y)) (store_struct audit_fields)),
      (''circuit_breaker'', at_field cfg_CircuitBreaker (\<lambda>y. cfg_CircuitBreaker_update (\<lambda>_. y)) (store_struct breaker_fields))]"

text \<open>An error of \<open>TenantMap.UnmarshalJSON\<close> ends the decoding at once, other errors are remembered.\<close>

definition tenants_abort :: "bytes \<times> json \<Rightarrow> bool" where
  "tenants_abort kv = (case kv of (k, v) \<Rightarrow> key_matches ''tenants'' k \<and> TenantMap_UnmarshalJSON v = None)"

definition store_config :: "json \<Rightarrow> Config \<Rightarrow> Config \<times> bool" where
  "store_config v c =
     (case v of
        JObj kvs \<Rightarrow> (case store_members config_fields (takeWhile (\<lambda>kv. \<not> tenants_abort kv) kvs) c of
           (c', failed) \<Rightarrow> (c', failed \<or> list_ex tenants_abort kvs))
      | _ \<Rightarrow> store_struct config_fields v c)"

definition unmarshal_config :: "bytes \<Rightarrow> Config \<Rightarrow> Config \<times> bool" where
  "unmarshal_config data c = (case json_parse data of None \<Rightarrow> (c, True) | Some v \<Rightarrow> store_config v c)"

section \<open>Defaults and loading\<close>

definition or_positive :: "int \<Rightarrow> int \<Rightarrow> int" where "or_positive x d = (if x \<le> 0 then d else x)"
definition or_nonempty :: "string \<Rightarrow> string \<Rightarrow> string" where "or_nonempty s d = (if s = [] then d else s)"
definition or_nonzero :: "u32 \<Rightarrow> u32 \<Rightarrow> u32" where "or_nonzero w d = (if w = 0 then d else w)"

definition normalize_timeouts :: "TimeoutConfig \<Rightarrow> TimeoutConfig" where
  "normalize_timeouts t =
     \<lparr>ReadTimeoutMs = or_positive (ReadTimeoutMs t) DefaultReadTimeoutMs,
      WriteTimeoutMs = or_positive (WriteTimeoutMs t) DefaultWriteTimeoutMs,
      IdleTimeoutMs = or_positive (IdleTimeoutMs t) DefaultIdleTimeoutMs,
      UpstreamTimeoutMs = or_positive (UpstreamTimeoutMs t) DefaultUpstreamTimeout\<rparr>"

definition normalize_audit :: "AuditConfig \<Rightarrow> AuditConfig" where
  "normalize_audit a = a\<lparr>au_JournalPath := or_nonempty (au_JournalPath a) ''/var/log/guardrail/audit.log'',
     au_RingBufferSize := or_positive (au_RingBufferSize a) 65536,
     au_NodeID := or_nonempty (au_NodeID a) ''guardrail-proxy-node-1''\<rparr>"

definition normalize_breaker :: "CircuitBreakerConfig \<Rightarrow> CircuitBreakerConfig" where
  "normalize_breaker b =
     \<lparr>cbc_FailureThreshold = or_nonzero (cbc_FailureThreshold b) 5,
      cbc_CooldownSeconds = or_positive (cbc_CooldownSeconds b) 30,
      cbc_HalfOpenProbes = or_nonzero (cbc_HalfOpenProbes b) 2\<rparr>"

definition applyDefaultsAndNormalize :: "Config \<Rightarrow> Config" where
  "applyDefaultsAndNormalize c =
     (let c1 = (if cfg_Port c \<le> 0 \<and> cfg_ListenAddr c = [] then c\<lparr>cfg_Port := DefaultPort\<rparr> else c) in
      c1\<lparr>cfg_ListenAddr := or_nonempty (cfg_ListenAddr c1) (GetListenAddr c1),
         cfg_UpstreamURL := or_nonempty (cfg_UpstreamURL c) DefaultUpstreamURL,
         cfg_MaxPayloadBytes := or_positive (cfg_MaxPayloadBytes c) DefaultMaxPayloadBytes,
         cfg_Timeouts := normalize_timeouts (cfg_Timeouts c),
         cfg_Tenants := Some (case cfg_Tenants c of None \<Rightarrow> [] | Some m \<Rightarrow> m),
         cfg_Audit := normalize_audit (cfg_Audit c),
         cfg_CircuitBreaker := normalize_breaker (cfg_CircuitBreaker c)\<rparr>)"

datatype config_error = ReadFailed | YamlFailed yaml_error | UnsupportedFormat yaml_error | UnmarshalFailed

definition decode_config :: "bytes \<Rightarrow> Config \<Rightarrow> config_error + Config" where
  "decode_config jsonBytes c =
     (case unmarshal_config jsonBytes c of
        (c', failed) \<Rightarrow> if failed then Inl UnmarshalFailed else Inr (applyDefaultsAndNormalize c'))"

text \<open>\<open>None\<close> only if the YAML reader did not return, which it always does.\<close>

definition ParseConfigData ::
  "(rune \<Rightarrow> rune) \<Rightarrow> (bytes \<Rightarrow> 'f option) \<Rightarrow> ('f \<Rightarrow> bytes option) \<Rightarrow> bytes \<Rightarrow> string \<Rightarrow> (config_error + Config) option" where
  "ParseConfigData low parse_float format_float data fmt =
     (let cfg = NewDefaultConfig; f = to_lower low fmt in
      if f = ''yaml'' \<or> f = ''yml'' then
        map_option (\<lambda>r. case r of Inl e \<Rightarrow> Inl (YamlFailed e) | Inr jb \<Rightarrow> decode_config jb cfg)
          (YAMLToJSON low parse_float format_float data)
      else if f = ''json'' then Some (decode_config data cfg)
      else case unmarshal_config data cfg of (cfg1, failed) \<Rightarrow>
        if \<not> failed then Some (Inr (applyDefaultsAndNormalize cfg1))
        else map_option (\<lambda>r. case r of Inl e \<Rightarrow> Inl (UnsupportedFormat e) | Inr jb \<Rightarrow> decode_config jb cfg1)
          (YAMLToJSON low parse_float format_float data))"

definition path_ext :: "string \<Rightarrow> string" where
  "path_ext p = (let t = takeWhile (\<lambda>c. c \<noteq> CHR ''/'') (rev p); u = takeWhile (\<lambda>c. c \<noteq> CHR ''.'') t
     in if length u < length t then ''.'' @ rev u else [])"

definition LoadConfig ::
  "(rune \<Rightarrow> rune) \<Rightarrow> (bytes \<Rightarrow> 'f option) \<Rightarrow> ('f \<Rightarrow> bytes option) \<Rightarrow> bytes option \<Rightarrow> string \<Rightarrow> (config_error + Config) option" where
  "LoadConfig low parse_float format_float file_content path =
     (case file_content of
        None \<Rightarrow> Some (Inl ReadFailed)
      | Some data \<Rightarrow>
          let ext = to_lower low (path_ext path)
          in ParseConfigData low parse_float format_float data (if ext = ''.yaml'' \<or> ext = ''.yml'' then ''yaml'' else ''json''))"

text \<open>Loading ends with a configuration or an error.\<close>

lemma LoadConfig_decides: "LoadConfig low parse_float format_float file_content path \<noteq> None"
proof -
  have yaml: "YAMLToJSON low parse_float format_float data \<noteq> None" for data
    using parseYAML_decides[of low parse_float data] by (auto simp: YAMLToJSON_def split: sum.splits option.splits)
  have "ParseConfigData low parse_float format_float data fmt \<noteq> None" for data fmt
    using yaml[of data] by (auto simp: ParseConfigData_def Let_def split: prod.splits)
  then show ?thesis by (simp add: LoadConfig_def Let_def split: option.splits)
qed

section \<open>Well-formed configurations\<close>

text \<open>The numbers fit into their Go types, and nothing that has a default is empty, zero or negative.\<close>

definition tenant_typed :: "TenantConfig \<Rightarrow> bool" where
  "tenant_typed t \<longleftrightarrow> in_int64 (tc_RPM t) \<and> in_int64 (tc_TPM t)"

definition config_typed :: "Config \<Rightarrow> bool" where
  "config_typed c \<longleftrightarrow> in_int64 (cfg_Port c) \<and> in_int64 (cfg_MaxPayloadBytes c) \<and>
     in_int64 (ReadTimeoutMs (cfg_Timeouts c)) \<and> in_int64 (WriteTimeoutMs (cfg_Timeouts c)) \<and>
     in_int64 (IdleTimeoutMs (cfg_Timeouts c)) \<and> in_int64 (UpstreamTimeoutMs (cfg_Timeouts c)) \<and>
     in_int64 (au_RingBufferSize (cfg_Audit c)) \<and> in_int64 (au_FlushIntervalMs (cfg_Audit c)) \<and>
     in_int64 (cbc_CooldownSeconds (cfg_CircuitBreaker c)) \<and>
     (case cfg_Tenants c of None \<Rightarrow> True | Some m \<Rightarrow> distinct (map fst m) \<and> list_all (\<lambda>(k, t). tenant_typed t) m)"

definition config_complete :: "Config \<Rightarrow> bool" where
  "config_complete c \<longleftrightarrow> cfg_ListenAddr c \<noteq> [] \<and> cfg_UpstreamURL c \<noteq> [] \<and> 0 < cfg_MaxPayloadBytes c \<and>
     0 < ReadTimeoutMs (cfg_Timeouts c) \<and> 0 < WriteTimeoutMs (cfg_Timeouts c) \<and>
     0 < IdleTimeoutMs (cfg_Timeouts c) \<and> 0 < UpstreamTimeoutMs (cfg_Timeouts c) \<and> cfg_Tenants c \<noteq> None \<and>
     au_JournalPath (cfg_Audit c) \<noteq> [] \<and> 0 < au_RingBufferSize (cfg_Audit c) \<and> au_NodeID (cfg_Audit c) \<noteq> [] \<and>
     cbc_FailureThreshold (cfg_CircuitBreaker c) \<noteq> 0 \<and> 0 < cbc_CooldownSeconds (cfg_CircuitBreaker c) \<and>
     cbc_HalfOpenProbes (cfg_CircuitBreaker c) \<noteq> 0"

text \<open>A property of the record that every field decoder keeps is kept by the decoding of an object.\<close>

lemma store_members_keeps:
  "list_all (\<lambda>(f, st). \<forall>v x. P x \<longrightarrow> P (fst (st v x))) fs \<Longrightarrow> P x \<Longrightarrow> P (fst (store_members fs kvs x))"
proof (induction kvs arbitrary: x)
  case (Cons kv kvs)
  obtain k v where kv: "kv = (k, v)" by fastforce
  show ?case
  proof (cases "find (\<lambda>(f, _). key_matches f k) fs")
    case None
    then show ?thesis using Cons kv by simp
  next
    case (Some fst')
    obtain f st where f: "fst' = (f, st)" by fastforce
    then have "(f, st) \<in> set fs" using Some by (auto simp: find_Some_iff in_set_conv_nth)
    then have "P (fst (st v x))" using Cons.prems by (auto simp: list_all_iff)
    from Cons.IH[OF Cons.prems(1) this] show ?thesis
      by (cases "st v x"; cases "store_members fs kvs (fst (st v x))") (simp add: kv Some f)
  qed
qed simp

lemma store_struct_keeps:
  "list_all (\<lambda>(f, st). \<forall>v x. P x \<longrightarrow> P (fst (st v x))) fs \<Longrightarrow> P x \<Longrightarrow> P (fst (store_struct fs v x))"
  using store_members_keeps[of P fs x] by (simp add: store_struct_def split: json.split)

lemma store_int_range: "in_int64 x \<Longrightarrow> in_int64 (fst (store_int v x))"
proof -
  have "parse_int64 n = Some i \<Longrightarrow> in_int64 i" for n i
    by (auto simp: parse_int64_def parse_int_def in_int64_def Let_def split: if_splits prod.splits)
  then show "in_int64 x \<Longrightarrow> ?thesis" by (auto simp: store_int_def split: json.splits option.splits)
qed

lemma fst_at_field: "fst (at_field get upd st v r) = upd (fst (st v (get r))) r"
  by (simp add: at_field_def split: prod.split)

lemma tenant_typed_store: "tenant_typed t \<Longrightarrow> tenant_typed (fst (store_struct tenant_fields v t))"
  by (rule store_struct_keeps)
     (auto simp: tenant_fields_def fst_at_field tenant_typed_def store_int_range)

lemma put_keys: "fst ` set (put k v m) = insert k (fst ` set m)"
  by (force simp: put_def)

lemma put_typed:
  "distinct (map fst m) \<and> list_all (\<lambda>(k, t). tenant_typed t) m \<Longrightarrow> tenant_typed t \<Longrightarrow>
   distinct (map fst (put k t m)) \<and> list_all (\<lambda>(k, t). tenant_typed t) (put k t m)"
  by (auto simp: put_def list_all_iff distinct_map_filter)

lemma tenant_map_typed:
  "distinct (map fst m) \<and> list_all (\<lambda>(k, t). tenant_typed t) m \<Longrightarrow>
   distinct (map fst (fst (store_tenant_map kvs m))) \<and> list_all (\<lambda>(k, t). tenant_typed t) (fst (store_tenant_map kvs m))"
proof (induction kvs m rule: store_tenant_map.induct)
  case (2 k v kvs m)
  obtain t e where t: "store_struct tenant_fields v zero_tenant = (t, e)" by fastforce
  have "tenant_typed zero_tenant" by (simp add: tenant_typed_def zero_tenant_def in_int64_def)
  then have "tenant_typed t" using tenant_typed_store[of zero_tenant v] t by simp
  from 2(1)[OF t[symmetric] put_typed[OF 2(2) this]] show ?case
    by (cases "store_tenant_map kvs (put k t m)") (simp add: t)
qed simp

lemma tenant_elements_typed: "list_all tenant_typed ts \<Longrightarrow>
  list_all tenant_typed (fst (store_elements zero_tenant (store_struct tenant_fields) vs ts))"
proof (induction vs arbitrary: ts)
  case (Cons v vs)
  have "tenant_typed zero_tenant" by (simp add: tenant_typed_def zero_tenant_def in_int64_def)
  then have "tenant_typed (fst (store_struct tenant_fields v (case ts of [] \<Rightarrow> zero_tenant | x # _ \<Rightarrow> x)))"
    using Cons.prems by (intro tenant_typed_store) (auto split: list.split)
  moreover have "list_all tenant_typed (tl ts)" using Cons.prems by (cases ts) simp_all
  ultimately show ?case using Cons.IH[of "tl ts"] by (auto split: prod.split)
qed simp

lemma tenants_of_list_typed:
  assumes "list_all tenant_typed ts"
  shows "distinct (map fst (tenants_of_list ts)) \<and> list_all (\<lambda>(k, t). tenant_typed t) (tenants_of_list ts)"
proof -
  have "distinct (map fst m) \<and> list_all (\<lambda>(k, t). tenant_typed t) m \<Longrightarrow> list_all tenant_typed ts \<Longrightarrow>
      distinct (map fst (fold (\<lambda>t m. let key = (if tc_APIKey t = [] then tc_TenantID t else tc_APIKey t) in if key \<noteq> [] then put key t m else m) ts m)) \<and>
      list_all (\<lambda>(k, t). tenant_typed t) (fold (\<lambda>t m. let key = (if tc_APIKey t = [] then tc_TenantID t else tc_APIKey t) in if key \<noteq> [] then put key t m else m) ts m)" for m
    by (induction ts arbitrary: m) (simp_all add: Let_def put_typed)
  from this[of "[]"] assms show ?thesis by (simp add: tenants_of_list_def)
qed

lemma tenants_typed:
  "TenantMap_UnmarshalJSON v = Some m \<Longrightarrow> distinct (map fst m) \<and> list_all (\<lambda>(k, t). tenant_typed t) m"
proof (cases v)
  case (JArr vs)
  moreover assume "TenantMap_UnmarshalJSON v = Some m"
  ultimately obtain ts where "store_elements zero_tenant (store_struct tenant_fields) vs [] = (ts, False)" "m = tenants_of_list ts"
    by (auto simp: TenantMap_UnmarshalJSON_def split: prod.splits if_splits)
  then show ?thesis using tenant_elements_typed[of "[]" vs] tenants_of_list_typed[of ts] by simp
next
  case (JObj kvs)
  moreover assume "TenantMap_UnmarshalJSON v = Some m"
  ultimately obtain m' where "store_tenant_map kvs [] = (m', False)" "m = map fill_api_key m'"
    by (auto simp: TenantMap_UnmarshalJSON_def split: prod.splits if_splits)
  moreover have "fst \<circ> fill_api_key = fst" by (simp add: fun_eq_iff fill_api_key_def split: prod.split)
  ultimately show ?thesis
    using tenant_map_typed[of "[]" kvs]
    by (auto simp: list_all_iff fill_api_key_def tenant_typed_def split: prod.splits if_splits) 
qed (auto simp: TenantMap_UnmarshalJSON_def)

lemma store_struct_typed:
  "in_int64 (ReadTimeoutMs t) \<and> in_int64 (WriteTimeoutMs t) \<and> in_int64 (IdleTimeoutMs t) \<and> in_int64 (UpstreamTimeoutMs t) \<Longrightarrow>
   (\<lambda>t. in_int64 (ReadTimeoutMs t) \<and> in_int64 (WriteTimeoutMs t) \<and> in_int64 (IdleTimeoutMs t) \<and> in_int64 (UpstreamTimeoutMs t))
     (fst (store_struct timeout_fields v t))"
  "in_int64 (au_RingBufferSize a) \<and> in_int64 (au_FlushIntervalMs a) \<Longrightarrow>
   (\<lambda>a. in_int64 (au_RingBufferSize a) \<and> in_int64 (au_FlushIntervalMs a)) (fst (store_struct audit_fields v a))"
  "in_int64 (cbc_CooldownSeconds b) \<Longrightarrow> in_int64 (cbc_CooldownSeconds (fst (store_struct breaker_fields v b)))"
proof -
  show "in_int64 (ReadTimeoutMs t) \<and> in_int64 (WriteTimeoutMs t) \<and> in_int64 (IdleTimeoutMs t) \<and> in_int64 (UpstreamTimeoutMs t) \<Longrightarrow>
   (\<lambda>t. in_int64 (ReadTimeoutMs t) \<and> in_int64 (WriteTimeoutMs t) \<and> in_int64 (IdleTimeoutMs t) \<and> in_int64 (UpstreamTimeoutMs t))
     (fst (store_struct timeout_fields v t))"
    by (rule store_struct_keeps) (auto simp: timeout_fields_def fst_at_field store_int_range)
  show "in_int64 (au_RingBufferSize a) \<and> in_int64 (au_FlushIntervalMs a) \<Longrightarrow>
   (\<lambda>a. in_int64 (au_RingBufferSize a) \<and> in_int64 (au_FlushIntervalMs a)) (fst (store_struct audit_fields v a))"
    by (rule store_struct_keeps) (auto simp: audit_fields_def fst_at_field store_int_range)
  show "in_int64 (cbc_CooldownSeconds b) \<Longrightarrow> in_int64 (cbc_CooldownSeconds (fst (store_struct breaker_fields v b)))"
    by (rule store_struct_keeps) (auto simp: breaker_fields_def fst_at_field store_int_range)
qed

lemma config_fields_typed: "list_all (\<lambda>(f, st). \<forall>v c. config_typed c \<longrightarrow> config_typed (fst (st v c))) config_fields"
  using store_struct_typed
  by (auto simp: config_fields_def fst_at_field config_typed_def store_int_range store_tenants_def
      split: option.splits dest: tenants_typed)

lemma unmarshal_config_typed: "config_typed c \<Longrightarrow> config_typed (fst (unmarshal_config data c))"
proof -
  assume c: "config_typed c"
  have "config_typed (fst (store_config v c))" for v
    using store_members_keeps[OF config_fields_typed c] store_struct_keeps[OF config_fields_typed c]
    by (auto simp: store_config_def split: json.split prod.split) (metis fst_conv)
  then show ?thesis using c by (simp add: unmarshal_config_def split: option.split)
qed

lemma default_typed: "config_typed NewDefaultConfig"
  by (simp add: config_typed_def NewDefaultConfig_def in_int64_def DefaultPort_def DefaultMaxPayloadBytes_def
      DefaultReadTimeoutMs_def DefaultWriteTimeoutMs_def DefaultIdleTimeoutMs_def DefaultUpstreamTimeout_def)

lemma or_simps:
  "in_int64 x \<Longrightarrow> in_int64 d \<Longrightarrow> in_int64 (or_positive x d)" "0 < d \<Longrightarrow> 0 < or_positive x d"
  "t \<noteq> [] \<Longrightarrow> or_nonempty u t \<noteq> []" "e \<noteq> 0 \<Longrightarrow> or_nonzero w e \<noteq> 0"
  by (simp_all add: or_positive_def or_nonempty_def or_nonzero_def)

lemma default_numbers:
  "in_int64 DefaultPort" "in_int64 DefaultMaxPayloadBytes" "0 < DefaultMaxPayloadBytes"
  "in_int64 DefaultReadTimeoutMs" "in_int64 DefaultWriteTimeoutMs" "in_int64 DefaultIdleTimeoutMs" "in_int64 DefaultUpstreamTimeout"
  "0 < DefaultReadTimeoutMs" "0 < DefaultWriteTimeoutMs" "0 < DefaultIdleTimeoutMs" "0 < DefaultUpstreamTimeout"
  "in_int64 65536" "in_int64 30" "DefaultUpstreamURL \<noteq> []"
  by (simp_all add: in_int64_def DefaultPort_def DefaultMaxPayloadBytes_def DefaultReadTimeoutMs_def DefaultWriteTimeoutMs_def
      DefaultIdleTimeoutMs_def DefaultUpstreamTimeout_def DefaultUpstreamURL_def)

lemmas normalize_defs = applyDefaultsAndNormalize_def normalize_timeouts_def normalize_audit_def normalize_breaker_def Let_def

lemma normalized_typed: "config_typed c \<Longrightarrow> config_typed (applyDefaultsAndNormalize c)"
  by (cases "cfg_Tenants c") (simp_all add: normalize_defs config_typed_def or_simps default_numbers)

lemma GetListenAddr_nonempty: "GetListenAddr c \<noteq> []"
  by (simp add: GetListenAddr_def DefaultListenAddr_def)

lemma normalized_complete: "config_complete (applyDefaultsAndNormalize c)"
  by (simp add: normalize_defs config_complete_def or_simps default_numbers GetListenAddr_nonempty)

lemma decode_config_ok: "decode_config jb c = Inr c' \<Longrightarrow> config_typed c \<Longrightarrow> config_typed c' \<and> config_complete c'"
  using unmarshal_config_typed[of c jb] normalized_typed normalized_complete
  by (auto simp: decode_config_def split: prod.splits if_splits)

text \<open>C8: Every configuration that loads, from whatever text in whatever format, has numbers that fit into their
  types, no two tenants under one key, and no empty, zero or negative value where the proxy needs one.\<close>

theorem loaded_config_well_formed:
  assumes "ParseConfigData low parse_float format_float data fmt = Some (Inr c)"
  shows "config_typed c \<and> config_complete c"
proof -
  obtain c1 failed where u: "unmarshal_config data NewDefaultConfig = (c1, failed)" by fastforce
  then have c1: "config_typed c1" using unmarshal_config_typed[OF default_typed, of data] by simp
  have yaml: "\<exists>jb. decode_config jb c0 = Inr c"
    if "(case z of Inl e \<Rightarrow> Inl (F e) | Inr jb \<Rightarrow> decode_config jb c0) = Inr c"
    for F :: "yaml_error \<Rightarrow> config_error" and c0 and z :: "yaml_error + bytes"
    using that by (cases z) auto
  consider jb where "decode_config jb NewDefaultConfig = Inr c" | jb where "decode_config jb c1 = Inr c"
    | "c = applyDefaultsAndNormalize c1"
    using assms u unfolding ParseConfigData_def Let_def by (auto split: if_splits dest: yaml)
  then show ?thesis
    by cases (use c1 decode_config_ok default_typed normalized_typed normalized_complete in auto)
qed

lemma store_members_other:
  "list_all (\<lambda>(f, st). f = f0 \<or> (\<forall>v x. g (fst (st v x)) = g x)) fs \<Longrightarrow> list_all (\<lambda>(k, v). \<not> key_matches f0 k) kvs \<Longrightarrow>
   g (fst (store_members fs kvs x)) = g x"
proof (induction kvs arbitrary: x)
  case (Cons kv kvs)
  obtain k v where kv: "kv = (k, v)" by fastforce
  show ?case
  proof (cases "find (\<lambda>(f, _). key_matches f k) fs")
    case None
    then show ?thesis using Cons kv by simp
  next
    case (Some found)
    obtain f st where f: "found = (f, st)" by fastforce
    then have "(f, st) \<in> set fs" "key_matches f k" using Some by (auto simp: find_Some_iff in_set_conv_nth)
    then have "g (fst (st v x)) = g x" using Cons.prems kv by (auto simp: list_all_iff)
    moreover have "g (fst (store_members fs kvs (fst (st v x)))) = g (fst (st v x))" using Cons by simp
    ultimately show ?thesis
      by (cases "st v x"; cases "store_members fs kvs (fst (st v x))") (simp add: kv Some f)
  qed
qed simp

lemma to_lower_json: "to_lower low ''json'' = ''json''"
  by (simp add: to_lower_def is_ascii_def byte_def lower_byte_def is_upper_def)

text \<open>A configuration file without a listen address always listens on port 8080: the defaults fill
  in \<open>:8080\<close> before the file is read, so its \<open>port\<close> and \<open>host\<close> have no effect.\<close>

theorem port_setting_ignored:
  assumes "json_parse data = Some (JObj kvs)" and "list_all (\<lambda>(k, v). \<not> key_matches ''listen_addr'' k) kvs"
    and "ParseConfigData low parse_float format_float data ''json'' = Some (Inr c)"
  shows "GetListenAddr c = '':8080''"
proof -
  have "list_all (\<lambda>(f, st). f = ''listen_addr'' \<or> (\<forall>v c. cfg_ListenAddr (fst (st v c)) = cfg_ListenAddr c)) config_fields"
    by (simp add: config_fields_def fst_at_field)
  note other = store_members_other[OF this]
  have "list_all (\<lambda>(k, v). \<not> key_matches ''listen_addr'' k) (takeWhile (\<lambda>kv. \<not> tenants_abort kv) kvs)"
    using assms(2) by (auto simp: list_all_iff dest: set_takeWhileD)
  from other[OF this, of NewDefaultConfig] have "cfg_ListenAddr (fst (store_config (JObj kvs) NewDefaultConfig)) = '':8080''"
    by (auto simp: store_config_def NewDefaultConfig_def DefaultListenAddr_def split: prod.split)
  with to_lower_json have "cfg_ListenAddr c = '':8080''"
    using assms(1,3)
    by (auto simp: ParseConfigData_def decode_config_def unmarshal_config_def applyDefaultsAndNormalize_def or_nonempty_def Let_def
        split: prod.splits if_splits)
  then show ?thesis by (simp add: GetListenAddr_def)
qed

text \<open>A timeout of up to 9223372036854 milliseconds becomes exactly that many nanoseconds; the next larger one
  overflows and becomes negative.\<close>

theorem timeout_bound:
  "(if 0 < IdleTimeoutMs t \<and> IdleTimeoutMs t \<le> 9223372036854 then IdleTimeout t = IdleTimeoutMs t * Millisecond else True) \<and>
   IdleTimeout (t\<lparr>IdleTimeoutMs := 9223372036855\<rparr>) < 0"
  by (simp add: IdleTimeout_def timeout_of_def wrap64_def Millisecond_def)

text \<open>A file with nothing but a port.\<close>

definition port_only :: bytes where "port_only = ''{\"port\":9090}''"

lemma port_only_parse: "json_parse port_only = Some (JObj [(''port'', JNum ''9090'')])"
  unfolding port_only_def by code_simp

lemma port_9090: "parse_int64 ''9090'' = Some 9090"
  by code_simp

lemma config_plain_keys:
  "plain_key ''host''" "plain_key ''port''" "plain_key ''listen_addr''" "plain_key ''upstream_url''"
  "plain_key ''upstream_auth_token''" "plain_key ''max_payload_bytes''" "plain_key ''timeouts''" "plain_key ''tenants''"
  "plain_key ''audit''" "plain_key ''circuit_breaker''"
  by (simp_all add: plain_key_def is_lower_def byte_def)

lemma port_only_loads:
  "ParseConfigData low parse_float format_float port_only ''json'' =
     Some (Inr (applyDefaultsAndNormalize (NewDefaultConfig\<lparr>cfg_Port := 9090\<rparr>)))"
proof -
  have "store_config (JObj [(''port'', JNum ''9090'')]) NewDefaultConfig = (NewDefaultConfig\<lparr>cfg_Port := 9090\<rparr>, False)"
    by (simp add: store_config_def tenants_abort_def config_fields_def key_matches_plain config_plain_keys at_field_def
        store_int_def port_9090)
  then show ?thesis
    by (simp add: ParseConfigData_def decode_config_def unmarshal_config_def port_only_parse to_lower_json)
qed

lemma loaded_config_well_formed_witness:
  "config_complete (applyDefaultsAndNormalize (NewDefaultConfig\<lparr>cfg_Port := 9090\<rparr>))"
  using loaded_config_well_formed[OF port_only_loads] by blast

lemma port_setting_ignored_witness:
  "GetListenAddr (applyDefaultsAndNormalize (NewDefaultConfig\<lparr>cfg_Port := 9090\<rparr>)) = '':8080''"
proof (rule port_setting_ignored[OF port_only_parse _ port_only_loads])
  show "list_all (\<lambda>(k, v). \<not> key_matches ''listen_addr'' k) [(''port'', JNum ''9090'')]"
    by (simp add: key_matches_plain config_plain_keys)
qed

end
