(* ===== verification/Inbound_Pipeline.thy ===== *)
theory Inbound_Pipeline
  imports Rate_Limiter Delimiter Aho_Corasick Inbound_DLP Entropy Canary Config
begin

text \<open>
  \<open>internal/inbound/pipeline.go\<close>: the default inbound pipeline, composed of the six stages. Each stage
  object works on a state of its own; the pipeline works on all of them together, and \<open>lift_stage\<close>
  lets a stage work on its part.
\<close>

section \<open>A stage on a part of the state\<close>

definition lift_stage :: "('w \<Rightarrow> 'v) \<Rightarrow> ('v \<Rightarrow> 'w \<Rightarrow> 'w) \<Rightarrow> 'v Stage \<Rightarrow> 'w Stage" where
  "lift_stage get upd st =
     \<lparr>Name = Name st, FailClosed = FailClosed st,
      Execute = (\<lambda>ctx w. case Execute st ctx (get w) of (ctx', v, out) \<Rightarrow> (ctx', upd v w, out))\<rparr>"

lemma lift_stage_simps [simp]:
  "Name (lift_stage get upd st) = Name st" "FailClosed (lift_stage get upd st) = FailClosed st"
  "Execute (lift_stage get upd st) ctx w =
     (case Execute st ctx (get w) of (ctx', v, out) \<Rightarrow> (ctx', upd v w, out))"
  by (simp_all add: lift_stage_def)

locale part_stage = part: inbound_stage stage for stage :: "'v Stage" +
  fixes get :: "'w \<Rightarrow> 'v" and upd :: "'v \<Rightarrow> 'w \<Rightarrow> 'w"

sublocale part_stage \<subseteq> lifted: inbound_stage "lift_stage get upd stage"
  using part.closed part.answers part.keeps by unfold_locales (auto split: prod.splits)

section \<open>The stages and the runner\<close>

record InboundStages =
  is_RateLimiter :: RateLimiter
  is_InjectionMatcher :: "acNode list"
  is_Vault :: SessionVault
  is_CanarySynthesizer :: CanarySynthesizer

text \<open>The delimiter sanitizer and the entropy analyzer have no state. The tenants are visited in the
  order of the map's iteration.\<close>

definition tenant_limits :: "Config option \<Rightarrow> RateLimiter \<Rightarrow> RateLimiter" where
  "tenant_limits cfg rl =
     (case cfg of
        None \<Rightarrow> rl
      | Some c \<Rightarrow> fold (\<lambda>(k, tc) rl. if tc_RPM tc > 0 \<or> tc_TPM tc > 0
          then SetTenantLimit (tc_TenantID tc) (tc_RPM tc) (tc_TPM tc) rl else rl)
          (case cfg_Tenants c of None \<Rightarrow> [] | Some ts \<Rightarrow> ts) rl)"

definition NewDefaultInboundStages :: "(rune \<Rightarrow> rune) \<Rightarrow> bytes \<Rightarrow> Config option \<Rightarrow> InboundStages option" where
  "NewDefaultInboundStages ul rnd cfg =
     map_option (\<lambda>automaton.
       \<lparr>is_RateLimiter = tenant_limits cfg (NewRateLimiter 0 0), is_InjectionMatcher = automaton,
        is_Vault = NewSessionVault, is_CanarySynthesizer = NewCanarySynthesizer rnd DefaultCanarySeed\<rparr>)
     (NewInjectionMatcher ul [])"

text \<open>The stages of the runner, for a request whose rate limiter reads the clock as \<open>now\<close>.\<close>

definition default_stages :: "(rune \<Rightarrow> rune) \<Rightarrow> (bytes \<Rightarrow> bytes) \<Rightarrow> acNode list \<Rightarrow> time \<Rightarrow> InboundStages Stage list" where
  "default_stages ul f64 automaton now =
     [lift_stage is_RateLimiter (\<lambda>v w. w\<lparr>is_RateLimiter := v\<rparr>) (rate_limiter_stage now),
      delimiter_stage ul,
      injection_matcher_stage automaton,
      lift_stage is_Vault (\<lambda>v w. w\<lparr>is_Vault := v\<rparr>) dlp_scanner_stage,
      entropy_stage,
      lift_stage is_CanarySynthesizer (\<lambda>v w. w\<lparr>is_CanarySynthesizer := v\<rparr>) (canary_stage f64)]"

definition NewDefaultPipeline ::
  "(rune \<Rightarrow> rune) \<Rightarrow> (bytes \<Rightarrow> bytes) \<Rightarrow> InboundStages \<Rightarrow> time \<Rightarrow> InboundStages PipelineRunner" where
  "NewDefaultPipeline ul f64 st now = NewPipelineRunner (default_stages ul f64 (is_InjectionMatcher st) now)"

section \<open>Every stage keeps the contract\<close>

interpretation limiter_part: part_stage "rate_limiter_stage now" is_RateLimiter "\<lambda>v w. w\<lparr>is_RateLimiter := v\<rparr>" for now
  by unfold_locales

interpretation dlp_part: part_stage dlp_scanner_stage is_Vault "\<lambda>v w. w\<lparr>is_Vault := v\<rparr>"
  by unfold_locales

interpretation canary_part: part_stage "canary_stage f64" is_CanarySynthesizer "\<lambda>v w. w\<lparr>is_CanarySynthesizer := v\<rparr>" for f64
  by unfold_locales

lemma default_stages_contract: "s \<in> set (default_stages ul f64 automaton now) \<Longrightarrow> inbound_stage s"
  by (auto simp: default_stages_def limiter_part.lifted.inbound_stage_axioms dlp_part.lifted.inbound_stage_axioms canary_part.lifted.inbound_stage_axioms
      delimiter.inbound_stage_axioms injection_matcher.inbound_stage_axioms entropy.inbound_stage_axioms)

lemma default_stages_names: "map Name (default_stages ul f64 automaton now) =
    [''rate_limiter'', ''delimiter_sanitizer'', ''injection_matcher'', ''dlp_scanner'', ''entropy_analyzer'', ''canary_synthesizer'']"
  by (simp add: default_stages_def stage_defs)

section \<open>A run of the default pipeline\<close>

text \<open>What the runner adds to the context of a stage that returned.\<close>

definition timed :: "(nat \<Rightarrow> int) \<Rightarrow> nat \<Rightarrow> 'w Stage \<Rightarrow> PipelineContext \<Rightarrow> PipelineContext" where
  "timed elapsed i st ctx = ctx\<lparr>StageDurations := (StageDurations ctx)(Name st \<mapsto> elapsed i)\<rparr>"

lemma timed_fields [simp]:
  "CleanPayload (timed elapsed i st ctx) = CleanPayload ctx" "MatchedRuleID (timed elapsed i st ctx) = MatchedRuleID ctx"
  "ViolationType (timed elapsed i st ctx) = ViolationType ctx" "CanaryToken (timed elapsed i st ctx) = CanaryToken ctx"
  "SessionID (timed elapsed i st ctx) = SessionID ctx" "TenantID (timed elapsed i st ctx) = TenantID ctx"
  "RequestID (timed elapsed i st ctx) = RequestID ctx" "RawPayload (timed elapsed i st ctx) = RawPayload ctx"
  "same_request a (timed elapsed i st ctx) = same_request a ctx"
  by (simp_all add: timed_def same_request_def)

lemma contract_step:
  assumes "inbound_stage st" and "Execute st ctx w = (ctx1, w1, out)"
  shows "Execute_from elapsed i (st # sts) ctx w =
    (if out = Returned StageContinue then Execute_from elapsed (Suc i) sts (timed elapsed i st ctx1) w1
     else ((StageTripwire, Some (violation_error (Name st) (timed elapsed i st ctx1))), timed elapsed i st ctx1, w1))"
proof -
  have "out = Returned StageContinue \<or> out = Returned StageTripwire"
    using inbound_stage.answers[OF assms] by blast
  then show ?thesis using assms(2) by (auto simp: Execute_from.simps(2) timed_def Let_def)
qed

text \<open>What each of the six stages does to the three parts of the state when it lets a request pass.\<close>

definition untimed :: "PipelineContext \<Rightarrow> PipelineContext" where
  "untimed ctx = ctx\<lparr>StageDurations := Map.empty\<rparr>"

definition passes_to :: "(nat \<Rightarrow> int) \<Rightarrow> 'w Stage list \<Rightarrow> PipelineContext \<Rightarrow> 'w \<Rightarrow> PipelineContext \<Rightarrow> 'w \<Rightarrow> bool" where
  "passes_to elapsed sts ctx w ctx' w' \<longleftrightarrow> (\<exists>i e. Execute_from elapsed i sts ctx w = ((StageContinue, e), ctx', w'))"

lemma passes_to_Nil: "passes_to elapsed [] ctx w ctx' w' \<longleftrightarrow> ctx' = ctx \<and> w' = w"
  by (auto simp: passes_to_def)

lemma passes_to_Cons:
  assumes "inbound_stage st" and "passes_to elapsed (st # sts) ctx w ctx' w'"
  obtains ctx1 w1 ctx2 where "Execute st ctx w = (ctx1, w1, Returned StageContinue)" and "untimed ctx2 = untimed ctx1"
    and "same_request ctx ctx2" and "passes_to elapsed sts ctx2 w1 ctx' w'"
proof -
  obtain i e where run: "Execute_from elapsed i (st # sts) ctx w = ((StageContinue, e), ctx', w')"
    using assms(2) by (auto simp: passes_to_def)
  obtain ctx1 w1 out where x: "Execute st ctx w = (ctx1, w1, out)" by (cases "Execute st ctx w")
  have "out = Returned StageContinue" "passes_to elapsed sts (timed elapsed i st ctx1) w1 ctx' w'"
    using contract_step[OF assms(1) x, of elapsed i sts] run unfolding passes_to_def by (metis Pair_inject StageResult.distinct(1))+
  moreover have "untimed (timed elapsed i st ctx1) = untimed ctx1" by (simp add: untimed_def timed_def)
  moreover have "same_request ctx (timed elapsed i st ctx1)" using inbound_stage.keeps[OF assms(1) x] by simp
  ultimately show ?thesis using that x by blast
qed

lemma passes_to_part:
  assumes "inbound_stage (lift_stage get upd st)" and "passes_to elapsed (lift_stage get upd st # sts) ctx w ctx' w'"
  obtains ctx1 v ctx2 where "Execute st ctx (get w) = (ctx1, v, Returned StageContinue)" and "untimed ctx2 = untimed ctx1"
    and "same_request ctx ctx2" and "passes_to elapsed sts ctx2 (upd v w) ctx' w'"
  by (rule passes_to_Cons[OF assms]) (cases "Execute st ctx (get w)", auto intro: that)

lemma untimed_fields:
  assumes "untimed a = untimed b"
  shows "CleanPayload a = CleanPayload b" "CanaryToken a = CanaryToken b"
    "MatchedRuleID a = MatchedRuleID b" "ViolationType a = ViolationType b"
  using assms by (cases a; cases b; simp add: untimed_def)+

lemma stage_executes [simp]:
  "Execute (rate_limiter_stage now) = RateLimiter_Execute now" "Execute (delimiter_stage ul) = Delimiter_Execute ul"
  "Execute (injection_matcher_stage ns) = InjectionMatcher_Execute ns" "Execute dlp_scanner_stage = DLP_Execute"
  "Execute entropy_stage = Entropy_Execute NewEntropyAnalyzer" "Execute (canary_stage f64) = Canary_Execute f64"
  by (simp_all add: stage_defs)

lemma limiter_keeps_context: "RateLimiter_Execute now ctx rl = (ctx1, rl1, Returned StageContinue) \<Longrightarrow> ctx1 = ctx"
  by (auto simp: RateLimiter_Execute_def Let_def split: prod.splits if_splits)

lemma matcher_passes:
  assumes "NewInjectionMatcher ul [] = Some ns" and "InjectionMatcher_Execute ns ctx w = (ctx1, w1, Returned StageContinue)"
  shows "ctx1 = ctx \<and> w1 = w \<and> \<not> list_ex (\<lambda>p. occurs ul p (CleanPayload ctx)) DefaultInjectionSignatures"
proof -
  have "Search ns inp \<noteq> None \<longleftrightarrow> list_ex (\<lambda>p. occurs ul p inp) DefaultInjectionSignatures" for inp
    using matcher_decides[of ul "[]"] assms(1) by (auto simp: injection_patterns_def)
  from this[of "CleanPayload ctx"] show ?thesis
    using assms(2) by (auto simp: InjectionMatcher_Execute_def list_ex_iff split: if_splits option.splits)
qed

lemma entropy_passes:
  "Entropy_Execute a ctx w = (ctx1, w1, Returned StageContinue) \<Longrightarrow> ctx1 = ctx \<and> w1 = w \<and>
     (CleanPayload ctx = [] \<or> inspect_texts a (extractInspectableTexts (CleanPayload ctx)) = None)"
  by (auto simp: Entropy_Execute_def split: if_splits option.splits)

text \<open>The canary token of the next request of a session.\<close>

definition next_token :: "CanarySynthesizer \<Rightarrow> PipelineContext \<Rightarrow> string" where
  "next_token c ctx = snd (GenerateToken (TenantID ctx) (canary_session ctx) c)"

lemma canary_passes:
  "Canary_Execute f64 ctx c = (ctx1, c1, out) \<Longrightarrow> CanaryToken ctx1 = next_token c ctx \<and> counter c1 = counter c + 1 \<and>
     secretSeed c1 = secretSeed c \<and>
     CleanPayload ctx1 = (if CleanPayload ctx = [] then [] else injectCanary f64 (CleanPayload ctx) (CanaryToken ctx1))"
  by (auto simp: Canary_Execute_def next_token_def GenerateToken_def Let_def split: if_splits)

lemma next_token_same: "same_request ctx ctx1 \<Longrightarrow> next_token c ctx1 = next_token c ctx"
  by (simp add: next_token_def canary_session_def same_request_def)

text \<open>The contexts between the stages of a run that ends with Continue.\<close>

lemma default_run:
  assumes "passes_to elapsed (default_stages ul f64 ns now) ctx w ctx' w'"
  obtains a1 v1 b1 a2 w2 b2 a3 w3 b3 a4 v4 b4 a5 w5 b5 a6 v6 where
    "RateLimiter_Execute now ctx (is_RateLimiter w) = (a1, v1, Returned StageContinue)" "untimed b1 = untimed a1" "same_request ctx b1"
    "Delimiter_Execute ul b1 (w\<lparr>is_RateLimiter := v1\<rparr>) = (a2, w2, Returned StageContinue)" "untimed b2 = untimed a2" "same_request b1 b2"
    "InjectionMatcher_Execute ns b2 w2 = (a3, w3, Returned StageContinue)" "untimed b3 = untimed a3" "same_request b2 b3"
    "DLP_Execute b3 (is_Vault w3) = (a4, v4, Returned StageContinue)" "untimed b4 = untimed a4" "same_request b3 b4"
    "Entropy_Execute NewEntropyAnalyzer b4 (w3\<lparr>is_Vault := v4\<rparr>) = (a5, w5, Returned StageContinue)" "untimed b5 = untimed a5" "same_request b4 b5"
    "Canary_Execute f64 b5 (is_CanarySynthesizer w5) = (a6, v6, Returned StageContinue)" "untimed ctx' = untimed a6" "same_request b5 ctx'"
    "w' = w5\<lparr>is_CanarySynthesizer := v6\<rparr>"
  using assms unfolding default_stages_def
  apply (elim passes_to_part[OF limiter_part.lifted.inbound_stage_axioms])
  apply (elim passes_to_Cons[OF delimiter.inbound_stage_axioms])
  apply (elim passes_to_Cons[OF injection_matcher.inbound_stage_axioms])
  apply (elim passes_to_part[OF dlp_part.lifted.inbound_stage_axioms])
  apply (elim passes_to_Cons[OF entropy.inbound_stage_axioms])
  apply (elim passes_to_part[OF canary_part.lifted.inbound_stage_axioms])
  apply (simp add: passes_to_Nil)
  done

text \<open>A run that ends with Tripwire: the first stage trips, or it passes and a later one trips.\<close>

definition trips_to :: "(nat \<Rightarrow> int) \<Rightarrow> 'w Stage list \<Rightarrow> PipelineContext \<Rightarrow> 'w \<Rightarrow> PipelineContext \<Rightarrow> 'w \<Rightarrow> bool" where
  "trips_to elapsed sts ctx w ctx' w' \<longleftrightarrow> (\<exists>i e. Execute_from elapsed i sts ctx w = ((StageTripwire, e), ctx', w'))"

lemma trips_to_Nil [simp]: "\<not> trips_to elapsed [] ctx w ctx' w'"
  by (simp add: trips_to_def)

lemma trips_to_Cons:
  assumes "inbound_stage st" and "trips_to elapsed (st # sts) ctx w ctx' w'"
  obtains (trips) ctx1 where "Execute st ctx w = (ctx1, w', Returned StageTripwire)" and "untimed ctx' = untimed ctx1"
  | (later) ctx1 w1 ctx2 where "Execute st ctx w = (ctx1, w1, Returned StageContinue)" and "untimed ctx2 = untimed ctx1"
    and "same_request ctx ctx2" and "trips_to elapsed sts ctx2 w1 ctx' w'"
proof -
  obtain i e where run: "Execute_from elapsed i (st # sts) ctx w = ((StageTripwire, e), ctx', w')"
    using assms(2) by (auto simp: trips_to_def)
  obtain ctx1 w1 out where x: "Execute st ctx w = (ctx1, w1, out)" by (cases "Execute st ctx w")
  have u: "untimed (timed elapsed i st ctx1) = untimed ctx1" by (simp add: untimed_def timed_def)
  show ?thesis
  proof (cases "out = Returned StageContinue")
    case True
    then have "Execute_from elapsed (Suc i) sts (timed elapsed i st ctx1) w1 = ((StageTripwire, e), ctx', w')"
      using contract_step[OF assms(1) x, of elapsed i sts] run by simp
    then have "trips_to elapsed sts (timed elapsed i st ctx1) w1 ctx' w'" unfolding trips_to_def by blast
    moreover have "same_request ctx (timed elapsed i st ctx1)" using inbound_stage.keeps[OF assms(1) x] by simp
    ultimately show ?thesis using later x u True by blast
  next
    case False
    then have "out = Returned StageTripwire" "ctx' = timed elapsed i st ctx1" "w' = w1"
      using contract_step[OF assms(1) x, of elapsed i sts] run inbound_stage.answers[OF assms(1) x] by auto
    then show ?thesis using trips x u by blast
  qed
qed

text \<open>What a blocked request leaves of the state and of the context.\<close>

definition blocked_by :: "PipelineContext \<Rightarrow> InboundStages \<Rightarrow> PipelineContext \<Rightarrow> InboundStages \<Rightarrow> bool" where
  "blocked_by ctx w ctx' w' \<longleftrightarrow>
     is_CanarySynthesizer w' = is_CanarySynthesizer w \<and> CanaryToken ctx' = CanaryToken ctx \<and>
     is_InjectionMatcher w' = is_InjectionMatcher w \<and>
     (if MatchedRuleID ctx' = ''RATE_LIMIT_EXCEEDED''
      then ViolationType ctx' = ''RATE_LIMIT'' \<and> CleanPayload ctx' = CleanPayload ctx \<and> is_Vault w' = is_Vault w
      else ViolationType ctx' \<noteq> ''RATE_LIMIT'' \<and>
        (if MatchedRuleID ctx' \<in> {''DELIMITER_BREAKOUT'', ''PROMPT_INJECTION_DETECTED''}
         then CleanPayload ctx' = sanitize (CleanPayload ctx) \<and> is_Vault w' = is_Vault w
         else MatchedRuleID ctx' \<in> {''ENTROPY_LOW_REPETITION'', ''ENTROPY_HIGH_OBFUSCATION''}))"

lemma limiter_trips:
  "RateLimiter_Execute now ctx rl = (c1, rl1, Returned StageTripwire) \<Longrightarrow>
     c1 = ctx\<lparr>MatchedRuleID := ''RATE_LIMIT_EXCEEDED'', ViolationType := ''RATE_LIMIT''\<rparr>"
  by (auto simp: RateLimiter_Execute_def Let_def split: prod.splits if_splits)

lemma delimiter_trips:
  "Delimiter_Execute ul ctx w = (c1, w1, Returned StageTripwire) \<Longrightarrow> w1 = w \<and> CanaryToken c1 = CanaryToken ctx \<and>
     CleanPayload c1 = sanitize (CleanPayload ctx) \<and> MatchedRuleID c1 = ''DELIMITER_BREAKOUT'' \<and> ViolationType c1 \<noteq> ''RATE_LIMIT''"
  by (auto simp: Delimiter_Execute_def Let_def split: if_splits option.splits)

lemma delimiter_passes_any:
  "Delimiter_Execute ul ctx w = (c1, w1, Returned StageContinue) \<Longrightarrow> w1 = w \<and> CanaryToken c1 = CanaryToken ctx \<and>
     CleanPayload c1 = (if CleanPayload ctx = [] then [] else sanitize (CleanPayload ctx))"
  by (auto simp: Delimiter_Execute_def Let_def split: if_splits option.splits)

lemma matcher_outcome:
  "InjectionMatcher_Execute ns ctx w = (c1, w1, out) \<Longrightarrow> w1 = w \<and> CanaryToken c1 = CanaryToken ctx \<and>
     CleanPayload c1 = CleanPayload ctx \<and> (out = Returned StageTripwire \<longrightarrow> CleanPayload ctx \<noteq> [] \<and>
       MatchedRuleID c1 = ''PROMPT_INJECTION_DETECTED'' \<and> ViolationType c1 \<noteq> ''RATE_LIMIT'')"
  by (auto simp: InjectionMatcher_Execute_def split: if_splits option.splits)

lemma inspect_texts_cases:
  "inspect_texts a ts = Some (rule, v) \<Longrightarrow> rule \<in> {''ENTROPY_LOW_REPETITION'', ''ENTROPY_HIGH_OBFUSCATION''} \<and> v \<noteq> ''RATE_LIMIT''"
  by (induction ts) (auto split: if_splits)

lemma entropy_outcome:
  "Entropy_Execute a ctx w = (c1, w1, out) \<Longrightarrow> w1 = w \<and> CanaryToken c1 = CanaryToken ctx \<and>
     (out = Returned StageTripwire \<longrightarrow> ViolationType c1 \<noteq> ''RATE_LIMIT'' \<and>
       MatchedRuleID c1 \<in> {''ENTROPY_LOW_REPETITION'', ''ENTROPY_HIGH_OBFUSCATION''})"
  by (auto simp: Entropy_Execute_def dest: inspect_texts_cases split: if_splits option.splits)

lemma dlp_outcome: "DLP_Execute ctx v = (c1, v1, out) \<Longrightarrow> out = Returned StageContinue \<and> CanaryToken c1 = CanaryToken ctx"
  by (auto simp: DLP_Execute_def split: if_splits prod.splits dest!: passes_ctx)

lemma canary_never_trips: "Canary_Execute f64 ctx c \<noteq> (c1, v1, Returned StageTripwire)"
  by (auto simp: Canary_Execute_def Let_def split: prod.splits if_splits)

lemma trips_to_part:
  assumes "inbound_stage (lift_stage get upd st)" and "trips_to elapsed (lift_stage get upd st # sts) ctx w ctx' w'"
  obtains (trips) ctx1 v where "Execute st ctx (get w) = (ctx1, v, Returned StageTripwire)" and "untimed ctx' = untimed ctx1"
      and "w' = upd v w"
  | (later) ctx1 v ctx2 where "Execute st ctx (get w) = (ctx1, v, Returned StageContinue)" and "untimed ctx2 = untimed ctx1"
      and "same_request ctx ctx2" and "trips_to elapsed sts ctx2 (upd v w) ctx' w'"
  by (rule trips_to_Cons[OF assms]; cases "Execute st ctx (get w)", auto intro: that)

lemma default_trips:
  assumes "trips_to elapsed (default_stages ul f64 ns now) ctx w ctx' w'" and "CleanPayload ctx \<noteq> []"
  shows "blocked_by ctx w ctx' w'"
  using assms(1) unfolding default_stages_def
proof (cases rule: trips_to_part[OF limiter_part.lifted.inbound_stage_axioms, consumes 1, case_names limiter passed])
  case (limiter c1 v)
  with limiter_trips[OF limiter(1)[unfolded stage_executes]] untimed_fields[OF limiter(2)] show ?thesis by (simp add: blocked_by_def)
next
  case (passed c1 v b1)
  note p1 = limiter_keeps_context[OF passed(1)[unfolded stage_executes]] untimed_fields[OF passed(2)]
  from passed(4) show ?thesis
  proof (cases rule: trips_to_Cons[OF delimiter.inbound_stage_axioms, consumes 1, case_names delimiter passed])
    case (delimiter c2)
    with delimiter_trips[OF delimiter(1)[unfolded stage_executes]] untimed_fields[OF delimiter(2)] p1 show ?thesis by (simp add: blocked_by_def)
  next
    case (passed c2 w2 b2)
    have d: "w2 = w\<lparr>is_RateLimiter := v\<rparr>" "CanaryToken b2 = CanaryToken ctx" "CleanPayload b2 = sanitize (CleanPayload ctx)"
      using delimiter_passes_any[OF passed(1)[unfolded stage_executes]] untimed_fields[OF passed(2)] p1 assms(2) by simp_all
    from passed(4) show ?thesis
    proof (cases rule: trips_to_Cons[OF injection_matcher.inbound_stage_axioms, consumes 1, case_names matcher passed])
      case (matcher c3)
      with matcher_outcome[OF matcher(1)[unfolded stage_executes]] untimed_fields[OF matcher(2)] d show ?thesis by (simp add: blocked_by_def)
    next
      case (passed c3 w3 b3)
      have m: "w3 = w2" "CanaryToken b3 = CanaryToken ctx"
        using matcher_outcome[OF passed(1)[unfolded stage_executes]] untimed_fields[OF passed(2)] d by simp_all
      from passed(4) show ?thesis
      proof (cases rule: trips_to_part[OF dlp_part.lifted.inbound_stage_axioms, consumes 1, case_names dlp passed])
        case (dlp c4 v4)
        with dlp_outcome[OF dlp(1)[unfolded stage_executes]] show ?thesis by simp
      next
        case (passed c4 v4 b4)
        have t: "CanaryToken b4 = CanaryToken ctx"
          using dlp_outcome[OF passed(1)[unfolded stage_executes]] untimed_fields[OF passed(2)] m by simp
        from passed(4) show ?thesis
        proof (cases rule: trips_to_Cons[OF entropy.inbound_stage_axioms, consumes 1, case_names entropy passed])
          case (entropy c5)
          with entropy_outcome[OF entropy(1)[unfolded stage_executes]] untimed_fields[OF entropy(2)] t m d show ?thesis
            by (auto simp: blocked_by_def)
        next
          case (passed c5 w5 b5)
          from passed(4) show ?thesis
            by (cases rule: trips_to_part[OF canary_part.lifted.inbound_stage_axioms, consumes 1, case_names canary passed])
              (auto simp: canary_never_trips)
        qed
      qed
    qed
  qed
qed

text \<open>
  What it means that a payload was inspected. The limiter admitted the request; the sanitized payload
  holds no framing token and no signature of the default dictionary; the payload after all redaction
  rules passed both entropy bounds; and what is forwarded is that payload with the next canary token of
  the session in it, a token that is recorded in the context and counted.
\<close>

definition inspected :: "(rune \<Rightarrow> rune) \<Rightarrow> (bytes \<Rightarrow> bytes) \<Rightarrow> time \<Rightarrow> PipelineContext \<Rightarrow> InboundStages \<Rightarrow>
    PipelineContext \<Rightarrow> InboundStages \<Rightarrow> bool" where
  "inspected ul f64 now ctx w ctx' w' \<longleftrightarrow>
    RateLimiter_Execute now ctx (is_RateLimiter w) = (ctx, is_RateLimiter w', Returned StageContinue) \<and>
    (let clean = sanitize (CleanPayload ctx) in
      list_all (\<lambda>tok. \<not> contains (to_lower ul clean) tok) unauthorizedFramingTokens \<and>
      \<not> list_ex (\<lambda>p. occurs ul p clean) DefaultInjectionSignatures \<and>
      (\<exists>ctx1 ctx2. same_request ctx ctx1 \<and> CleanPayload ctx1 = clean \<and>
        DLP_Execute ctx1 (is_Vault w) = (ctx2, is_Vault w', Returned StageContinue) \<and>
        (CleanPayload ctx2 = [] \<or>
         inspect_texts NewEntropyAnalyzer (extractInspectableTexts (CleanPayload ctx2)) = None) \<and>
        CleanPayload ctx' = (if CleanPayload ctx2 = [] then []
          else injectCanary f64 (CleanPayload ctx2) (CanaryToken ctx')))) \<and>
    CanaryToken ctx' = next_token (is_CanarySynthesizer w) ctx \<and>
    counter (is_CanarySynthesizer w') = counter (is_CanarySynthesizer w) + 1"

text \<open>What the default pipeline lets pass has been inspected.\<close>

lemma default_pipeline_passes:
  assumes "NewInjectionMatcher ul [] = Some (is_InjectionMatcher st)" and "is_InjectionMatcher w = is_InjectionMatcher st"
    and "Runner_Execute elapsed (NewDefaultPipeline ul f64 st now) ctx w = ((StageContinue, e), ctx', w')"
    and "CleanPayload ctx \<noteq> []"
  shows "inspected ul f64 now ctx w ctx' w'"
proof -
  have "passes_to elapsed (default_stages ul f64 (is_InjectionMatcher st) now) ctx w ctx' w'"
    using assms(3) by (auto simp: passes_to_def Runner_Execute_def NewDefaultPipeline_def NewPipelineRunner_def)
  then show ?thesis
  proof (rule default_run, goal_cases)
    case (1 a1 v1 b1 a2 w2 b2 a3 w3 b3 a4 v4 b4 a5 w5 b5 a6 v6)
    have a1: "a1 = ctx" using 1(1) by (rule limiter_keeps_context)
    have b1: "CleanPayload b1 = CleanPayload ctx" using 1(2) a1 by (metis untimed_fields(1))
    have d: "list_all (\<lambda>tok. \<not> contains (to_lower ul (CleanPayload a2)) tok) unauthorizedFramingTokens"
      "CleanPayload a2 = sanitize (CleanPayload ctx)" "w2 = w\<lparr>is_RateLimiter := v1\<rparr>"
      using Delimiter_passes[OF 1(4)] assms(4) b1 by auto
    have b2: "CleanPayload b2 = sanitize (CleanPayload ctx)" using d(2) untimed_fields(1)[OF 1(5)] by simp
    note m = matcher_passes[OF assms(1) 1(7)]
    have b3: "CleanPayload b3 = sanitize (CleanPayload ctx)" using m b2 untimed_fields(1)[OF 1(8)] by simp
    note e = entropy_passes[OF 1(13)]
    have b4: "CleanPayload b4 = CleanPayload a4" "CleanPayload b5 = CleanPayload b4"
      using untimed_fields(1)[OF 1(11)] untimed_fields(1)[OF 1(14)] e by simp_all
    have w5: "w5 = w\<lparr>is_RateLimiter := v1, is_Vault := v4\<rparr>" using e m d(3) by simp
    note c = canary_passes[OF 1(16)]
    have same: "same_request ctx b3" "same_request ctx b5"
      using 1(3,6,9,12,15) same_request_trans by blast+
    have tok: "CanaryToken ctx' = next_token (is_CanarySynthesizer w) ctx"
      using c untimed_fields(2)[OF 1(17)] next_token_same[OF same(2)] w5 by simp
    have "CleanPayload ctx' = (if CleanPayload a4 = [] then [] else injectCanary f64 (CleanPayload a4) (CanaryToken ctx'))"
      using c untimed_fields[OF 1(17)] b4 by simp
    moreover have "\<not> list_ex (\<lambda>p. occurs ul p (sanitize (CleanPayload ctx))) DefaultInjectionSignatures"
      using m b2 by simp
    moreover have "DLP_Execute b3 (is_Vault w) = (a4, is_Vault w', Returned StageContinue)"
      using 1(10,19) m d(3) w5 by simp
    moreover have "CleanPayload a4 = [] \<or> inspect_texts NewEntropyAnalyzer (extractInspectableTexts (CleanPayload a4)) = None"
      using e b4 by simp
    ultimately show ?thesis
      using 1(1,19) a1 w5 c tok b3 same(1) d(1,2) by (auto simp: inspected_def Let_def)
  qed
qed

text \<open>No stage replaces the automaton.\<close>

lemma Execute_from_keeps:
  assumes "\<And>s c v. s \<in> set sts \<Longrightarrow> f (fst (snd (Execute s c v))) = f v"
  shows "f (snd (snd (Execute_from elapsed i sts ctx w))) = f w"
  using assms
proof (induction sts arbitrary: i ctx w)
  case (Cons st sts)
  obtain ctx1 w1 out where x: "Execute st ctx w = (ctx1, w1, out)" by (cases "Execute st ctx w")
  then have "f w1 = f w" using Cons.prems[of st ctx w] by simp
  with x Cons.IH Cons.prems show ?case
    by (simp add: Execute_from.simps(2) Let_def split: outcome.splits StageResult.splits)
qed simp

lemma default_pipeline_matcher:
  "is_InjectionMatcher (snd (snd (Runner_Execute elapsed (NewDefaultPipeline ul f64 st now) ctx w))) = is_InjectionMatcher w"
  unfolding Runner_Execute_def NewDefaultPipeline_def NewPipelineRunner_def PipelineRunner.simps
  by (rule Execute_from_keeps)
    (auto simp: default_stages_def Delimiter_Execute_def InjectionMatcher_Execute_def Entropy_Execute_def Let_def
      split: prod.splits option.splits)

section \<open>Properties\<close>

text \<open>
  a request with a payload that the default pipeline blocks is blocked with an error under one of
  five rules; no canary token is drawn for it and none is set; under the rate limit, and only there,
  the violation is of the rate-limit type, which the server answers with 429, and the payload is
  untouched; a framing token or a prompt injection is found before anything is put into the vault.
\<close>

theorem blocked_request_effects:
  assumes "Runner_Execute elapsed (NewDefaultPipeline ul f64 w now) ctx w = ((StageTripwire, e), ctx', w')"
    and "CleanPayload ctx \<noteq> []"
  shows "blocked_by ctx w ctx' w' \<and> same_request ctx ctx' \<and> e \<noteq> None"
proof -
  have run: "Execute_from elapsed 0 (default_stages ul f64 (is_InjectionMatcher w) now) ctx w = ((StageTripwire, e), ctx', w')"
    using assms(1) by (simp add: Runner_Execute_def NewDefaultPipeline_def NewPipelineRunner_def)
  then have "trips_to elapsed (default_stages ul f64 (is_InjectionMatcher w) now) ctx w ctx' w'"
    unfolding trips_to_def by blast
  from default_trips[OF this assms(2)] have "blocked_by ctx w ctx' w'" .
  moreover have "same_request ctx ctx' \<and> e \<noteq> None"
    using Execute_from_contract[OF _ run] default_stages_contract by blast
  ultimately show ?thesis by simp
qed

section \<open>Two runs\<close>

definition example_stages :: "acNode list \<Rightarrow> InboundStages" where
  "example_stages ns = \<lparr>is_RateLimiter = NewRateLimiter 0 0, is_InjectionMatcher = ns, is_Vault = NewSessionVault,
     is_CanarySynthesizer = NewCanarySynthesizer [] DefaultCanarySeed\<rparr>"

definition example_context :: "bytes \<Rightarrow> PipelineContext" where
  "example_context p = new_context\<lparr>TenantID := ''acme'', CleanPayload := p\<rparr>"

lemma unlimited_passes: "\<exists>w1. Execute (lift_stage is_RateLimiter (\<lambda>v w. w\<lparr>is_RateLimiter := v\<rparr>) (rate_limiter_stage now)) ctx (example_stages ns) =
    (ctx, example_stages ns\<lparr>is_RateLimiter := w1\<rparr>, Returned StageContinue)"
  by (auto simp: RateLimiter_Execute_def getOrCreateBucket_def NewRateLimiter_def new_bucket_def example_stages_def Let_def)

lemma no_match_no_redaction:
  "list_all (\<lambda>(re, rn, val). find_all re (CleanPayload ctx) = []) rules \<Longrightarrow> fold (redactMatches key) rules (ctx, v) = (ctx, v)"
  by (induction rules) (auto simp: redactMatches_def)

lemma hi_passes:
  assumes "CleanPayload ctx = ''hi''"
  shows "Delimiter_Execute id ctx w = (ctx, w, Returned StageContinue)"
    and "DLP_Execute ctx v = (ctx, v, Returned StageContinue)"
    and "Entropy_Execute NewEntropyAnalyzer ctx w = (ctx, w, Returned StageContinue)"
proof -
  have ascii: "list_all is_ascii ''hi''" by code_simp
  have "strip_escapes ''hi'' = ''hi''" by (simp add: strip_escapes_def dangerousJSONEscapes_def escape_def)
  then have "sanitize ''hi'' = ''hi''" using ascii by (simp add: sanitize_def strip_ascii)
  moreover have "normalize_brackets (to_lower id ''hi'') = ''hi''"
    using ascii by (simp add: to_lower_def normalize_brackets_def escape_def replace_all.simps lower_byte_def is_upper_def byte_def)
  moreover have "find (contains ''hi'') unauthorizedFramingTokens = None"
    by (simp add: unauthorizedFramingTokens_def)
  ultimately show "Delimiter_Execute id ctx w = (ctx, w, Returned StageContinue)"
    using assms by (cases ctx) (simp add: Delimiter_Execute_def Let_def del: contains.simps)
  have "list_all (\<lambda>(re, rn, val). find_all re ''hi'' = []) dlp_rules" by code_simp
  then show "DLP_Execute ctx v = (ctx, v, Returned StageContinue)"
    using assms no_match_no_redaction[of ctx dlp_rules] by (simp add: DLP_Execute_def)
  have "json_parse ''hi'' = None" by code_simp
  then have "extractInspectableTexts ''hi'' = [''hi'']" by (simp add: extractInspectableTexts_def structured_texts_def)
  moreover have "go_fields ''hi'' = [''hi'']"
    by (simp add: go_fields_def go_fields_from.simps space_encodings_def byte_string_def has_prefix_def char_of_def)
  moreover have "windows ''hi'' = []" by (simp add: windows.simps EntropyWindowSize_def)
  ultimately show "Entropy_Execute NewEntropyAnalyzer ctx w = (ctx, w, Returned StageContinue)"
    using assms by (simp add: Entropy_Execute_def MinLengthForLowEntropy_def hasHighEntropyAnomaly_def NewEntropyAnalyzer_def)
qed

lemma hi_not_matched:
  assumes "NewInjectionMatcher id [] = Some ns" and "CleanPayload ctx = ''hi''"
  shows "InjectionMatcher_Execute ns ctx w = (ctx, w, Returned StageContinue)"
proof -
  have "list_all (\<lambda>p. list_all is_ascii p \<and> p \<noteq> [] \<and> edge (hd p) \<and> edge (last p) \<and> 2 < length p) DefaultInjectionSignatures"
    by code_simp
  then have "length (clean_pattern id p) > 2" if "p \<in> set DefaultInjectionSignatures" for p
    using that trim_edges[of p 0] by (auto simp: list_all_iff clean_pattern_def to_lower_def)
  moreover have "contains (map lower_byte ''hi'') q \<Longrightarrow> length q \<le> 2" for q
    by (auto simp: has_prefix_def dest: arg_cong[of _ _ length])
  ultimately have "\<not> list_ex (\<lambda>p. occurs id p ''hi'') (injection_patterns [])"
    by (fastforce simp: list_ex_iff occurs_def injection_patterns_def)
  then have "Search ns ''hi'' = None" using matcher_decides[of id "[]"] assms(1) by auto
  then show ?thesis using assms(2) by (simp add: InjectionMatcher_Execute_def)
qed

lemma hi_run:
  assumes "NewInjectionMatcher id [] = Some ns" and "CleanPayload ctx = ''hi''"
  shows "fst (Runner_Execute elapsed (NewDefaultPipeline id id (example_stages ns) now) ctx (example_stages ns)) =
    (StageContinue, None)"
proof -
  obtain w1 where l: "Execute (lift_stage is_RateLimiter (\<lambda>v w. w\<lparr>is_RateLimiter := v\<rparr>) (rate_limiter_stage now))
      ctx (example_stages ns) = (ctx, example_stages ns\<lparr>is_RateLimiter := w1\<rparr>, Returned StageContinue)"
    using unlimited_passes by blast
  have m: "NewInjectionMatcher id [] = Some (is_InjectionMatcher (example_stages ns))"
    using assms(1) by (simp add: example_stages_def)
  show ?thesis
    unfolding Runner_Execute_def NewDefaultPipeline_def NewPipelineRunner_def default_stages_def PipelineRunner.simps
    by (subst Execute_from.simps(2), subst l)
      (simp add: assms(2) Execute_from.simps(2) hi_passes hi_not_matched[OF m] Canary_Execute_def Let_def split: prod.splits)
qed

lemma framed_run:
  "fst (fst (Runner_Execute (\<lambda>_. 0) (NewDefaultPipeline id id (example_stages []) 0) (example_context ''<s>'') (example_stages []))) =
    StageTripwire"
proof -
  obtain w1 where l: "Execute (lift_stage is_RateLimiter (\<lambda>v w. w\<lparr>is_RateLimiter := v\<rparr>) (rate_limiter_stage 0))
      (example_context ''<s>'') (example_stages []) = (example_context ''<s>'', example_stages []\<lparr>is_RateLimiter := w1\<rparr>, Returned StageContinue)"
    using unlimited_passes by blast
  have ascii: "list_all is_ascii ''<s>''" by code_simp
  have "strip_escapes ''<s>'' = ''<s>''" by (simp add: strip_escapes_def dangerousJSONEscapes_def escape_def has_prefix_def)
  then have s: "sanitize ''<s>'' = ''<s>''" using ascii by (simp add: sanitize_def strip_ascii)
  have n: "normalize_brackets (to_lower id ''<s>'') = ''<s>''"
    using ascii by (simp add: to_lower_def normalize_brackets_def escape_def replace_all.simps lower_byte_def is_upper_def byte_def has_prefix_def)
  have f: "find (contains ''<s>'') unauthorizedFramingTokens = Some ''<s>''"
    by (simp add: unauthorizedFramingTokens_def has_prefix_def)
  have d: "\<exists>c. Delimiter_Execute id ctx w = (c, w, Returned StageTripwire)" if "CleanPayload ctx = ''<s>''" for ctx and w :: InboundStages
    using that s n f by (simp add: Delimiter_Execute_def Let_def del: contains.simps)
  define c0 where "c0 = timed (\<lambda>_. 0) 0 (rate_limiter_stage 0) (example_context ''<s>'')"
  have "CleanPayload c0 = ''<s>''" by (simp add: c0_def example_context_def)
  from d[OF this] obtain c where c: "Delimiter_Execute id c0 (example_stages []\<lparr>is_RateLimiter := w1\<rparr>) =
      (c, example_stages []\<lparr>is_RateLimiter := w1\<rparr>, Returned StageTripwire)" by blast
  show ?thesis
    unfolding Runner_Execute_def NewDefaultPipeline_def NewPipelineRunner_def default_stages_def PipelineRunner.simps
    by (subst Execute_from.simps(2), subst l)
      (simp add: Execute_from.simps(2) c[unfolded c0_def timed_def] Let_def split: prod.splits)
qed

lemma blocked_request_effects_witness:
  "let w = example_stages []; ctx = example_context ''<s>'';
       r = Runner_Execute (\<lambda>_. 0) (NewDefaultPipeline id id w 0) ctx w
   in blocked_by ctx w (fst (snd r)) (snd (snd r)) \<and> same_request ctx (fst (snd r)) \<and> snd (fst r) \<noteq> None"
proof -
  define r where "r = Runner_Execute (\<lambda>_. 0) (NewDefaultPipeline id id (example_stages []) 0) (example_context ''<s>'') (example_stages [])"
  have "r = ((StageTripwire, snd (fst r)), fst (snd r), snd (snd r))" using framed_run unfolding r_def by (metis prod.collapse)
  from blocked_request_effects[OF this[unfolded r_def]] show ?thesis by (simp add: r_def example_context_def Let_def)
qed

end
