(* ===== verification/Circuit_Breaker.thy ===== *)
theory Circuit_Breaker
  imports Prelude
begin

text \<open>
  The upstream circuit breaker of \<open>internal/resilience/circuit_breaker.go\<close>: a three-state machine
  with \<open>uint32\<close> counters. Every operation takes the reading of \<open>time.Now()\<close> it makes as an argument.
  The \<open>onStateChange\<close> callback is a transformer of a caller-chosen state \<open>'w\<close> (the proxy sets a
  metrics gauge in it), so every operation also takes and returns a value of \<open>'w\<close>. The mutex makes
  each operation atomic; a concurrent execution is a sequence of operations.
\<close>

section \<open>States, configuration, breaker\<close>

datatype State = StateClosed | StateHalfOpen | StateOpen | StateOther int

fun State_String :: "State \<Rightarrow> string" where
  "State_String StateClosed = ''CLOSED''"
| "State_String StateHalfOpen = ''HALF-OPEN''"
| "State_String StateOpen = ''OPEN''"
| "State_String (StateOther _) = ''UNKNOWN''"

fun State_int :: "State \<Rightarrow> int" where
  "State_int StateClosed = 0"
| "State_int StateHalfOpen = 1"
| "State_int StateOpen = 2"
| "State_int (StateOther n) = n"

datatype cb_error = ErrCircuitOpen

record cb_config =
  FailureThreshold :: u32
  CooldownDuration :: duration
  HalfOpenProbes :: u32

definition DefaultConfig :: cb_config where
  "DefaultConfig = \<lparr>FailureThreshold = 5, CooldownDuration = 30 * Second, HalfOpenProbes = 2\<rparr>"

record 'w CircuitBreaker =
  cb_config :: cb_config
  cb_state :: State
  consecutiveFailures :: u32
  consecutiveSuccesses :: u32
  lastTripTime :: time
  probesInFlight :: u32
  onStateChange :: "(State \<Rightarrow> State \<Rightarrow> 'w \<Rightarrow> 'w) option"

section \<open>Operations\<close>

text \<open>\<open>zeroTime\<close> is the zero value of \<open>time.Time\<close> (the year 1), in nanoseconds.\<close>

definition zeroTime :: time where "zeroTime = -62135596800 * 1000000000"

text \<open>The defaults that the constructor puts in place of missing settings.\<close>

definition effective_config :: "cb_config \<Rightarrow> cb_config" where
  "effective_config cfg0 =
     (let cfg1 = (if FailureThreshold cfg0 = 0 then cfg0\<lparr>FailureThreshold := 5\<rparr> else cfg0);
          cfg2 = (if CooldownDuration cfg1 \<le> 0 then cfg1\<lparr>CooldownDuration := 30 * Second\<rparr> else cfg1)
      in if HalfOpenProbes cfg2 = 0 then cfg2\<lparr>HalfOpenProbes := 2\<rparr> else cfg2)"

definition NewCircuitBreaker :: "cb_config \<Rightarrow> 'w CircuitBreaker" where
  "NewCircuitBreaker cfg =
     \<lparr>cb_config = effective_config cfg, cb_state = StateClosed, consecutiveFailures = 0,
      consecutiveSuccesses = 0, lastTripTime = zeroTime, probesInFlight = 0, onStateChange = None\<rparr>"

definition SetOnStateChange ::
  "(State \<Rightarrow> State \<Rightarrow> 'w \<Rightarrow> 'w) option \<Rightarrow> 'w CircuitBreaker \<Rightarrow> 'w CircuitBreaker" where
  "SetOnStateChange fn cb = cb\<lparr>onStateChange := fn\<rparr>"

definition notify :: "'w CircuitBreaker \<Rightarrow> State \<Rightarrow> State \<Rightarrow> 'w \<Rightarrow> 'w" where
  "notify cb frm to w = (case onStateChange cb of None \<Rightarrow> w | Some f \<Rightarrow> f frm to w)"

definition Allow ::
  "time \<Rightarrow> 'w CircuitBreaker \<Rightarrow> 'w \<Rightarrow> cb_error option \<times> 'w CircuitBreaker \<times> 'w" where
  "Allow now cb w =
     (case cb_state cb of
        StateClosed \<Rightarrow> (None, cb, w)
      | StateOpen \<Rightarrow>
          if time_sub now (lastTripTime cb) \<ge> CooldownDuration (cb_config cb)
          then let cb' = cb\<lparr>cb_state := StateHalfOpen, consecutiveSuccesses := 0,
                            probesInFlight := 1\<rparr>
               in (None, cb', notify cb (cb_state cb) (cb_state cb') w)
          else (Some ErrCircuitOpen, cb, w)
      | StateHalfOpen \<Rightarrow>
          if probesInFlight cb \<ge> HalfOpenProbes (cb_config cb)
          then (Some ErrCircuitOpen, cb, w)
          else (None, cb\<lparr>probesInFlight := probesInFlight cb + 1\<rparr>, w)
      | StateOther _ \<Rightarrow> (None, cb, w))"

definition RecordSuccess :: "'w CircuitBreaker \<Rightarrow> 'w \<Rightarrow> 'w CircuitBreaker \<times> 'w" where
  "RecordSuccess cb w =
     (case cb_state cb of
        StateClosed \<Rightarrow> (cb\<lparr>consecutiveFailures := 0\<rparr>, w)
      | StateHalfOpen \<Rightarrow>
          let cb1 = (if probesInFlight cb > 0
                     then cb\<lparr>probesInFlight := probesInFlight cb - 1\<rparr> else cb);
              cb2 = cb1\<lparr>consecutiveSuccesses := consecutiveSuccesses cb1 + 1\<rparr>
          in if consecutiveSuccesses cb2 \<ge> HalfOpenProbes (cb_config cb2)
             then let cb3 = cb2\<lparr>cb_state := StateClosed, consecutiveFailures := 0,
                                consecutiveSuccesses := 0, probesInFlight := 0\<rparr>
                  in (cb3, notify cb (cb_state cb) (cb_state cb3) w)
             else (cb2, w)
      | StateOpen \<Rightarrow> (cb\<lparr>probesInFlight := 0\<rparr>, w)
      | StateOther _ \<Rightarrow> (cb, w))"

definition RecordFailure :: "time \<Rightarrow> 'w CircuitBreaker \<Rightarrow> 'w \<Rightarrow> 'w CircuitBreaker \<times> 'w" where
  "RecordFailure now cb w =
     (case cb_state cb of
        StateClosed \<Rightarrow>
          let cb1 = cb\<lparr>consecutiveFailures := consecutiveFailures cb + 1\<rparr>
          in if consecutiveFailures cb1 \<ge> FailureThreshold (cb_config cb1)
             then let cb2 = cb1\<lparr>cb_state := StateOpen, lastTripTime := now, probesInFlight := 0,
                                consecutiveSuccesses := 0\<rparr>
                  in (cb2, notify cb (cb_state cb) (cb_state cb2) w)
             else (cb1, w)
      | StateHalfOpen \<Rightarrow>
          let cb1 = cb\<lparr>cb_state := StateOpen, lastTripTime := now, probesInFlight := 0,
                       consecutiveSuccesses := 0,
                       consecutiveFailures := FailureThreshold (cb_config cb)\<rparr>
          in (cb1, notify cb (cb_state cb) (cb_state cb1) w)
      | StateOpen \<Rightarrow> (cb\<lparr>lastTripTime := now\<rparr>, w)
      | StateOther _ \<Rightarrow> (cb, w))"

text \<open>The accessor \<open>State()\<close>, which reports an expired cooldown without storing it.\<close>

definition State_of :: "time \<Rightarrow> 'w CircuitBreaker \<Rightarrow> State" where
  "State_of now cb =
     (if cb_state cb = StateOpen \<and> time_sub now (lastTripTime cb) \<ge> CooldownDuration (cb_config cb)
      then StateHalfOpen else cb_state cb)"

definition Trip :: "time \<Rightarrow> 'w CircuitBreaker \<Rightarrow> 'w \<Rightarrow> 'w CircuitBreaker \<times> 'w" where
  "Trip now cb w =
     (if cb_state cb \<noteq> StateOpen
      then let cb1 = cb\<lparr>cb_state := StateOpen, lastTripTime := now,
                        consecutiveFailures := FailureThreshold (cb_config cb),
                        probesInFlight := 0, consecutiveSuccesses := 0\<rparr>
           in (cb1, notify cb (cb_state cb) (cb_state cb1) w)
      else (cb, w))"

definition Reset :: "'w CircuitBreaker \<Rightarrow> 'w \<Rightarrow> 'w CircuitBreaker \<times> 'w" where
  "Reset cb w =
     (if cb_state cb \<noteq> StateClosed
      then let cb1 = cb\<lparr>cb_state := StateClosed, consecutiveFailures := 0,
                        consecutiveSuccesses := 0, probesInFlight := 0\<rparr>
           in (cb1, notify cb (cb_state cb) (cb_state cb1) w)
      else (cb, w))"

definition ConsecutiveFailures :: "'w CircuitBreaker \<Rightarrow> u32" where
  "ConsecutiveFailures cb = consecutiveFailures cb"

lemmas cb_op_defs =
  Allow_def RecordSuccess_def RecordFailure_def Trip_def Reset_def Let_def

section \<open>Runs\<close>

text \<open>A run is a sequence of operations on one breaker, each with its own clock reading.\<close>

datatype cb_op = OpAllow time | OpSuccess | OpFailure time | OpTrip time | OpReset

fun cb_step :: "cb_op \<Rightarrow> 'w CircuitBreaker \<Rightarrow> 'w \<Rightarrow> 'w CircuitBreaker \<times> 'w" where
  "cb_step (OpAllow now) cb w = snd (Allow now cb w)"
| "cb_step OpSuccess cb w = RecordSuccess cb w"
| "cb_step (OpFailure now) cb w = RecordFailure now cb w"
| "cb_step (OpTrip now) cb w = Trip now cb w"
| "cb_step OpReset cb w = Reset cb w"

definition cb_event :: "cb_op \<Rightarrow> 'w CircuitBreaker \<times> 'w \<Rightarrow> 'w CircuitBreaker \<times> 'w" where
  "cb_event x s = cb_step x (fst s) (snd s)"

definition cb_run ::
  "cb_op list \<Rightarrow> 'w CircuitBreaker \<times> 'w \<Rightarrow> 'w CircuitBreaker \<times> 'w" where
  "cb_run xs s = fold cb_event xs s"

text \<open>The answers that the calls of \<open>Allow\<close> in a run give.\<close>

fun cb_answers :: "cb_op list \<Rightarrow> 'w CircuitBreaker \<times> 'w \<Rightarrow> cb_error option list" where
  "cb_answers [] s = []"
| "cb_answers (x # xs) s =
     (case x of OpAllow now \<Rightarrow> [fst (Allow now (fst s) (snd s))] | _ \<Rightarrow> []) @
     cb_answers xs (cb_event x s)"

section \<open>Invariant\<close>

definition cb_config_ok :: "cb_config \<Rightarrow> bool" where
  "cb_config_ok c \<longleftrightarrow> FailureThreshold c \<noteq> 0 \<and> 0 < CooldownDuration c \<and> HalfOpenProbes c \<noteq> 0"

definition cb_inv :: "'w CircuitBreaker \<Rightarrow> bool" where
  "cb_inv cb \<longleftrightarrow> cb_config_ok (cb_config cb) \<and>
     (case cb_state cb of
        StateClosed \<Rightarrow> consecutiveFailures cb < FailureThreshold (cb_config cb) \<and>
          consecutiveSuccesses cb = 0 \<and> probesInFlight cb = 0
      | StateHalfOpen \<Rightarrow> probesInFlight cb \<le> HalfOpenProbes (cb_config cb) \<and>
          consecutiveSuccesses cb < HalfOpenProbes (cb_config cb)
      | StateOpen \<Rightarrow> probesInFlight cb = 0 \<and> consecutiveSuccesses cb = 0
      | StateOther _ \<Rightarrow> False)"

lemma effective_config_ok: "cb_config_ok (effective_config cfg)"
  by (auto simp: effective_config_def cb_config_ok_def Let_def Second_def)

lemma NewCircuitBreaker_inv: "cb_inv (NewCircuitBreaker cfg)"
  using effective_config_ok[of cfg]
  by (auto simp: cb_inv_def cb_config_ok_def NewCircuitBreaker_def word_gt_0)

lemma cb_step_config [simp]: "cb_config (fst (cb_step x cb w)) = cb_config cb"
  by (cases x) (auto simp: cb_op_defs split: State.splits if_splits)

lemma cb_step_callback [simp]: "onStateChange (fst (cb_step x cb w)) = onStateChange cb"
  by (cases x) (auto simp: cb_op_defs split: State.splits if_splits)

lemma cb_step_inv:
  assumes "cb_inv cb" shows "cb_inv (fst (cb_step x cb w))"
  using assms
  by (cases x)
     (auto simp: cb_op_defs cb_inv_def cb_config_ok_def not_le word_gt_0 word_Suc_le word_dec_le
        word_one_le split: State.splits if_splits)

interpretation breaker: machine cb_event "\<lambda>_. True" "\<lambda>s. cb_inv (fst s)"
  by unfold_locales (simp add: cb_event_def cb_step_inv)

section \<open>The breaker as an abstract circuit\<close>

text \<open>
  What the breaker promises, over natural numbers: a closed circuit counts failures in a row, an open
  one remembers when it opened, a half-open one counts probes in flight and successes in a row.
\<close>

datatype circuit = Closed nat | Open time | Half (flying: nat) (succeeded: nat)

fun circuit_step :: "nat \<Rightarrow> duration \<Rightarrow> nat \<Rightarrow> cb_op \<Rightarrow> circuit \<Rightarrow> circuit" where
  "circuit_step th cd pr (OpAllow now) (Open t) = (if cd \<le> time_sub now t then Half 1 0 else Open t)"
| "circuit_step th cd pr (OpAllow now) (Half p s) = (if p < pr then Half (Suc p) s else Half p s)"
| "circuit_step th cd pr (OpAllow now) (Closed f) = Closed f"
| "circuit_step th cd pr OpSuccess (Closed f) = Closed 0"
| "circuit_step th cd pr OpSuccess (Half p s) = (if pr \<le> Suc s then Closed 0 else Half (p - 1) (Suc s))"
| "circuit_step th cd pr OpSuccess (Open t) = Open t"
| "circuit_step th cd pr (OpFailure now) (Closed f) = (if th \<le> Suc f then Open now else Closed (Suc f))"
| "circuit_step th cd pr (OpFailure now) _ = Open now"
| "circuit_step th cd pr (OpTrip now) (Open t) = Open t"
| "circuit_step th cd pr (OpTrip now) _ = Open now"
| "circuit_step th cd pr OpReset c = (case c of Closed f \<Rightarrow> Closed f | _ \<Rightarrow> Closed 0)"

definition circuit_of :: "'w CircuitBreaker \<Rightarrow> circuit" where
  "circuit_of cb =
     (case cb_state cb of
        StateClosed \<Rightarrow> Closed (unat (consecutiveFailures cb))
      | StateHalfOpen \<Rightarrow> Half (unat (probesInFlight cb)) (unat (consecutiveSuccesses cb))
      | StateOpen \<Rightarrow> Open (lastTripTime cb)
      | StateOther _ \<Rightarrow> Closed 0)"

definition circuit_next :: "cb_config \<Rightarrow> cb_op \<Rightarrow> circuit \<Rightarrow> circuit" where
  "circuit_next c = circuit_step (unat (FailureThreshold c)) (CooldownDuration c) (unat (HalfOpenProbes c))"

lemma circuit_of_step:
  assumes "cb_inv cb"
  shows "circuit_of (fst (cb_step x cb w)) = circuit_next (cb_config cb) x (circuit_of cb)"
  using assms unat_Suc_less[of "consecutiveFailures cb" "FailureThreshold (cb_config cb)"]
    unat_Suc_less[of "consecutiveSuccesses cb" "HalfOpenProbes (cb_config cb)"]
    unat_Suc_less[of "probesInFlight cb" "HalfOpenProbes (cb_config cb)"]
  by (cases x)
     (auto simp: cb_op_defs cb_inv_def circuit_of_def circuit_next_def not_le unat_dec
        word_le_nat_alt word_less_nat_alt word_gt_0 split: State.splits if_splits)

lemma circuit_of_event:
  "cb_inv (fst s) \<Longrightarrow>
   circuit_of (fst (cb_event x s)) = circuit_next (cb_config (fst s)) x (circuit_of (fst s))"
  by (simp add: cb_event_def circuit_of_step)

lemma cb_event_config [simp]: "cb_config (fst (cb_event x s)) = cb_config (fst s)"
  by (simp add: cb_event_def)

lemma cb_event_inv: "cb_inv (fst s) \<Longrightarrow> cb_inv (fst (cb_event x s))"
  by (simp add: cb_event_def cb_step_inv)

lemma circuit_of_run:
  "cb_inv (fst s) \<Longrightarrow>
   circuit_of (fst (cb_run xs s)) = fold (circuit_next (cb_config (fst s))) xs (circuit_of (fst s))"
  by (induction xs arbitrary: s) (simp_all add: cb_run_def circuit_of_event cb_event_inv)

lemma cb_inv_state_of_circuit:
  assumes "cb_inv cb"
  shows "cb_state cb = StateOpen \<longleftrightarrow> (\<exists>t. circuit_of cb = Open t)"
    and "cb_state cb = StateClosed \<longleftrightarrow> (\<exists>f. circuit_of cb = Closed f)"
    and "cb_state cb = StateHalfOpen \<longleftrightarrow> (\<exists>p s. circuit_of cb = Half p s)"
  using assms by (auto simp: cb_inv_def circuit_of_def split: State.splits)

text \<open>The answer of \<open>Allow\<close>, read off the abstract circuit.\<close>

fun circuit_admits :: "duration \<Rightarrow> nat \<Rightarrow> time \<Rightarrow> circuit \<Rightarrow> bool" where
  "circuit_admits cd pr now (Closed f) = True"
| "circuit_admits cd pr now (Open t) = (cd \<le> time_sub now t)"
| "circuit_admits cd pr now (Half p s) = (p < pr)"

lemma Allow_admits:
  assumes "cb_inv cb"
  shows "fst (Allow now cb w) =
    (if circuit_admits (CooldownDuration (cb_config cb)) (unat (HalfOpenProbes (cb_config cb))) now
          (circuit_of cb) then None else Some ErrCircuitOpen)"
  using assms
  by (auto simp: Allow_def cb_inv_def circuit_of_def Let_def word_le_nat_alt split: State.splits)

section \<open>Facts about the abstract circuit\<close>

lemma circuit_failures:
  "f < th \<Longrightarrow> fold (circuit_step th cd pr) (map OpFailure ts) (Closed f) =
     (if th \<le> f + length ts then Open (ts ! (length ts - 1)) else Closed (f + length ts))"
proof (induction ts arbitrary: f)
  case Nil
  then show ?case by simp
next
  case (Cons t ts)
  have open_run: "fold (circuit_step th cd pr) (map OpFailure ts) (Open t) =
      Open ((t # ts) ! length ts)" for t
    by (induction ts arbitrary: t) auto
  show ?case
    using Cons.IH[of "Suc f"] Cons.prems open_run[of t] by (auto simp: nth_Cons')
qed

lemma circuit_probes:
  "s + n = pr \<Longrightarrow> 0 < n \<Longrightarrow>
   fold (circuit_step th cd pr) (concat (replicate n [OpAllow now, OpSuccess])) (Half 0 s) = Closed 0"
proof (induction n arbitrary: s)
  case 0
  then show ?case by simp
next
  case (Suc n)
  then show ?case
    using Suc.IH[of "Suc s"] by (cases n) auto
qed

text \<open>In HALF-OPEN, admissions without outcomes never exceed the free probe slots.\<close>

lemma half_open_admissions:
  assumes "cb_inv cb" and "circuit_of cb = Half p s"
  shows "count_list (cb_answers (map OpAllow ts) (cb, w)) None \<le> unat (HalfOpenProbes (cb_config cb)) - p"
  using assms
proof (induction ts arbitrary: cb w p)
  case Nil
  then show ?case by simp
next
  case (Cons t ts)
  let ?s = "cb_event (OpAllow t) (cb, w)" and ?pr = "unat (HalfOpenProbes (cb_config cb))"
  have inv: "cb_inv (fst ?s)" and c: "circuit_of (fst ?s) = Half (if p < ?pr then Suc p else p) s"
    using Cons.prems by (simp_all add: cb_event_inv circuit_of_event circuit_next_def)
  have "count_list (cb_answers (map OpAllow ts) ?s) None \<le> ?pr - (if p < ?pr then Suc p else p)"
    using Cons.IH[OF inv c, of "snd ?s"] by simp
  then show ?case
    using Cons.prems by (auto simp: Allow_admits)
qed

lemma circuit_recovers:
  assumes "0 < pr" and "cd \<le> time_sub now t"
  shows "fold (circuit_step th cd pr) (concat (replicate pr [OpAllow now, OpSuccess])) (Open t) = Closed 0"
proof -
  obtain k where pr: "pr = Suc k" using assms(1) by (cases pr) auto
  have "circuit_step th cd pr (OpAllow now) (Open t) = circuit_step th cd pr (OpAllow now) (Half 0 0)"
    using assms by simp
  then have "fold (circuit_step th cd pr) (concat (replicate (Suc k) [OpAllow now, OpSuccess])) (Open t) =
      fold (circuit_step th cd pr) (concat (replicate (Suc k) [OpAllow now, OpSuccess])) (Half 0 0)"
    unfolding replicate_Suc concat.simps fold_append comp_def fold_simps(2) by (rule arg_cong)
  then show ?thesis
    using circuit_probes[of 0 pr pr] assms(1) by (simp only: pr add_0)
qed

text \<open>Operations that an open circuit meets while it cools down: calls within the cooldown, and a clock
  that does not run backwards where it is stored.\<close>

fun cooling :: "time \<Rightarrow> duration \<Rightarrow> cb_op \<Rightarrow> bool" where
  "cooling t cd (OpAllow now) \<longleftrightarrow> now - t < cd"
| "cooling t cd (OpFailure now) \<longleftrightarrow> t \<le> now"
| "cooling t cd OpReset \<longleftrightarrow> False"
| "cooling t cd _ \<longleftrightarrow> True"

definition open_since :: "time \<Rightarrow> cb_config \<Rightarrow> 'w CircuitBreaker \<times> 'w \<Rightarrow> bool" where
  "open_since t c s \<longleftrightarrow> cb_state (fst s) = StateOpen \<and> t \<le> lastTripTime (fst s) \<and>
     cb_config (fst s) = c \<and> 0 < CooldownDuration c"

lemma cooling_refuses:
  "open_since t c s \<Longrightarrow> now - t < CooldownDuration c \<Longrightarrow>
   Allow now (fst s) (snd s) = (Some ErrCircuitOpen, s)"
  using time_sub_less[of now "lastTripTime (fst s)" "CooldownDuration c"]
  by (auto simp: open_since_def Allow_def)

interpretation cooling: machine cb_event "cooling t (CooldownDuration c)" "open_since t c" for t c
proof
  fix s :: "'a CircuitBreaker \<times> 'a" and e
  assume s: "open_since t c s" and e: "cooling t (CooldownDuration c) e"
  show "open_since t c (cb_event e s)"
  proof (cases e)
    case (OpAllow now)
    with s e show ?thesis by (simp add: cb_event_def cooling_refuses)
  qed (use s e in \<open>auto simp: open_since_def cb_event_def cb_op_defs\<close>)
qed

lemma cooling_answers:
  "open_since t c s \<Longrightarrow> list_all (cooling t (CooldownDuration c)) xs \<Longrightarrow>
   set (cb_answers xs s) \<subseteq> {Some ErrCircuitOpen}"
proof (induction xs arbitrary: s)
  case Nil
  then show ?case by simp
next
  case (Cons x xs)
  have "open_since t c (cb_event x s)"
    using Cons.prems by (intro cooling.step_inv) auto
  then have "set (cb_answers xs (cb_event x s)) \<subseteq> {Some ErrCircuitOpen}"
    using Cons.prems by (intro Cons.IH) auto
  then show ?case
    using Cons.prems by (cases x) (simp_all add: cooling_refuses)
qed

definition gauge_shows_state :: "int CircuitBreaker \<times> int \<Rightarrow> bool" where
  "gauge_shows_state s \<longleftrightarrow> onStateChange (fst s) = Some (\<lambda>frm to w. State_int to) \<and>
     snd s = State_int (cb_state (fst s))"

lemma notify_cases:
  "cb_step e cb w = (cb', w') \<Longrightarrow>
     w' = (if cb_state cb' = cb_state cb then w else notify cb (cb_state cb) (cb_state cb') w)"
  by (cases e; cases "cb_state cb") (auto simp: cb_op_defs split: if_splits)

lemma gauge_step:
  assumes "onStateChange cb = Some (\<lambda>frm to w. State_int to)" and "w = State_int (cb_state cb)"
  shows "snd (cb_step e cb w) = State_int (cb_state (fst (cb_step e cb w)))"
proof -
  obtain cb' w' where s: "cb_step e cb w = (cb', w')" by (cases "cb_step e cb w")
  show ?thesis using notify_cases[OF s] assms s by (simp add: notify_def split: if_splits)
qed

interpretation gauge: machine cb_event "\<lambda>_. True" gauge_shows_state
proof
  fix s :: "int CircuitBreaker \<times> int" and e
  assume "gauge_shows_state s"
  then show "gauge_shows_state (cb_event e s)"
    using gauge_step[of "fst s" "snd s" e] by (simp add: gauge_shows_state_def cb_event_def)
qed

lemma fresh_inv: "cb_inv (SetOnStateChange fn (NewCircuitBreaker cfg))"
  using NewCircuitBreaker_inv[of cfg]
  by (simp add: cb_inv_def SetOnStateChange_def cong: State.case_cong)

lemma fresh_circuit: "circuit_of (SetOnStateChange fn (NewCircuitBreaker cfg)) = Closed 0"
  by (simp add: circuit_of_def SetOnStateChange_def NewCircuitBreaker_def)

lemma fresh_config: "cb_config (SetOnStateChange fn (NewCircuitBreaker cfg)) = effective_config cfg"
  by (simp add: SetOnStateChange_def NewCircuitBreaker_def)

lemma fresh_run:
  "circuit_of (fst (cb_run xs (SetOnStateChange fn (NewCircuitBreaker cfg), w))) =
   fold (circuit_next (effective_config cfg)) xs (Closed 0)"
  using circuit_of_run[of "(SetOnStateChange fn (NewCircuitBreaker cfg), w)" xs]
  by (simp add: fresh_inv fresh_circuit fresh_config)

lemma fresh_run_inv: "cb_inv (fst (cb_run xs (SetOnStateChange fn (NewCircuitBreaker cfg), w)))"
  unfolding cb_run_def
  by (rule breaker.run_inv) (simp_all add: fresh_inv list_all_iff)

section \<open>Properties\<close>

text \<open>Concrete breakers for the witnesses: OPEN since time 100, and HALF-OPEN with both probes out.\<close>

definition open_example :: "unit CircuitBreaker" where
  "open_example = (NewCircuitBreaker DefaultConfig)\<lparr>cb_state := StateOpen, lastTripTime := 100\<rparr>"

definition half_example :: "unit CircuitBreaker" where
  "half_example = (NewCircuitBreaker DefaultConfig)\<lparr>cb_state := StateHalfOpen, probesInFlight := 2\<rparr>"

lemmas example_defs = open_example_def half_example_def NewCircuitBreaker_def effective_config_def
  DefaultConfig_def cb_inv_def cb_config_ok_def Second_def Let_def

text \<open>C24: whatever the configuration, every run of a fresh breaker keeps its invariant: the state is
  one of the three, a closed breaker has fewer failures than the threshold (so \<open>uint32\<close> never
  wraps), an open one has no probe in flight, a half-open one never more than \<open>HalfOpenProbes\<close>.\<close>

theorem breaker_invariant:
  "cb_inv (fst (cb_run xs (SetOnStateChange fn (NewCircuitBreaker cfg), w)))"
  by (rule fresh_run_inv)

text \<open>C7: the word-level breaker refines the abstract circuit: after any run from a fresh breaker its
  abstraction is the state that the abstract machine over natural numbers reaches on the same run.\<close>

theorem breaker_refines_circuit:
  "circuit_of (fst (cb_run xs (SetOnStateChange fn (NewCircuitBreaker cfg), w))) =
   fold (circuit_next (effective_config cfg)) xs (Closed 0)"
  by (rule fresh_run)

text \<open>a fresh breaker that sees only failures is OPEN exactly when their number has reached the
  effective failure threshold.\<close>

theorem failures_trip_breaker:
  "cb_state (fst (cb_run (map OpFailure ts) (SetOnStateChange fn (NewCircuitBreaker cfg), w))) = StateOpen
   \<longleftrightarrow> unat (FailureThreshold (effective_config cfg)) \<le> length ts"
proof -
  let ?th = "unat (FailureThreshold (effective_config cfg))"
  have "0 < ?th"
    using effective_config_ok[of cfg] by (simp add: cb_config_ok_def word_gt_0 unat_gt_0)
  then have "circuit_of (fst (cb_run (map OpFailure ts) (SetOnStateChange fn (NewCircuitBreaker cfg), w))) =
      (if ?th \<le> length ts then Open (ts ! (length ts - 1)) else Closed (length ts))"
    using circuit_failures[of 0 ?th] by (simp add: fresh_run circuit_next_def)
  then show ?thesis
    by (subst cb_inv_state_of_circuit(1)[OF fresh_run_inv]) auto
qed

text \<open>an OPEN breaker fails fast: until the cooldown since its trip has passed, no sequence of
  calls, outcomes and trips (short of \<open>Reset\<close>) makes \<open>Allow\<close> admit a request or leaves OPEN.\<close>

theorem open_breaker_fails_fast:
  assumes "cb_inv cb" and "cb_state cb = StateOpen"
    and "list_all (cooling (lastTripTime cb) (CooldownDuration (cb_config cb))) xs"
  shows "set (cb_answers xs (cb, w)) \<subseteq> {Some ErrCircuitOpen} \<and>
         cb_state (fst (cb_run xs (cb, w))) = StateOpen"
proof -
  have s: "open_since (lastTripTime cb) (cb_config cb) (cb, w)"
    using assms(1,2) by (simp add: open_since_def cb_inv_def cb_config_ok_def)
  show ?thesis
    using cooling_answers[OF s assms(3)] cooling.run_inv[OF s assms(3)]
    by (simp add: cb_run_def open_since_def)
qed

theorem open_breaker_fails_fast_witness:
  "set (cb_answers [OpAllow 101, OpFailure 200, OpAllow 300] (open_example, ())) \<subseteq> {Some ErrCircuitOpen} \<and>
   cb_state (fst (cb_run [OpAllow 101, OpFailure 200, OpAllow 300] (open_example, ()))) = StateOpen"
  by (rule open_breaker_fails_fast) (simp_all add: example_defs)

text \<open>once the cooldown of an OPEN breaker has passed, at most \<open>HalfOpenProbes\<close> requests are
  admitted before an outcome is recorded, however often \<open>Allow\<close> is called.\<close>

theorem half_open_probe_bound:
  assumes "cb_inv cb" and "cb_state cb = StateOpen"
  shows "count_list (cb_answers (map OpAllow ts) (cb, w)) None \<le> unat (HalfOpenProbes (cb_config cb))"
  using assms
proof (induction ts arbitrary: cb w)
  case Nil
  then show ?case by simp
next
  case (Cons t ts)
  let ?s = "cb_event (OpAllow t) (cb, w)" and ?pr = "unat (HalfOpenProbes (cb_config cb))"
  obtain u where u: "circuit_of cb = Open u"
    using Cons.prems cb_inv_state_of_circuit(1) by blast
  show ?case
  proof (cases "CooldownDuration (cb_config cb) \<le> time_sub t u")
    case True
    then have c: "circuit_of (fst ?s) = Half 1 0" and inv: "cb_inv (fst ?s)"
      using Cons.prems u by (simp_all add: circuit_of_event circuit_next_def cb_event_inv)
    have "0 < ?pr"
      using Cons.prems(1) by (simp add: cb_inv_def cb_config_ok_def unat_gt_0)
    then show ?thesis
      using half_open_admissions[OF inv c, of ts "snd ?s"] Cons.prems(1) u True
      by (simp add: Allow_admits Suc_le_eq)
  next
    case False
    then have "cb_state (fst ?s) = StateOpen" and inv: "cb_inv (fst ?s)"
      using Cons.prems u
      by (simp_all add: cb_inv_state_of_circuit(1) circuit_of_event circuit_next_def cb_event_inv)
    then show ?thesis
      using Cons.IH[of "fst ?s" "snd ?s"] False Cons.prems(1) u by (simp add: Allow_admits)
  qed
qed

theorem half_open_probe_bound_witness:
  "count_list (cb_answers (map OpAllow [100, 30000000100, 30000000101, 30000000102, 30000000103])
     (open_example, ())) None \<le> unat (HalfOpenProbes (cb_config open_example))"
  by (rule half_open_probe_bound) (simp_all add: example_defs)

text \<open>C26: recovery: an OPEN breaker whose cooldown has passed is CLOSED again, with no failure
  counted, after \<open>HalfOpenProbes\<close> admitted requests in a row that succeed.\<close>

theorem breaker_recovers:
  assumes "cb_inv cb" and "cb_state cb = StateOpen"
    and "CooldownDuration (cb_config cb) \<le> time_sub now (lastTripTime cb)"
  shows "circuit_of (fst (cb_run
           (concat (replicate (unat (HalfOpenProbes (cb_config cb))) [OpAllow now, OpSuccess])) (cb, w)))
         = Closed 0"
proof -
  have "circuit_of cb = Open (lastTripTime cb)" and "0 < unat (HalfOpenProbes (cb_config cb))"
    using assms(1,2) by (simp_all add: circuit_of_def cb_inv_def cb_config_ok_def unat_gt_0)
  then show ?thesis
    using assms(1,3) by (simp add: circuit_of_run circuit_next_def circuit_recovers)
qed

theorem breaker_recovers_witness:
  "circuit_of (fst (cb_run (concat (replicate (unat (HalfOpenProbes (cb_config open_example)))
     [OpAllow 30000000100, OpSuccess])) (open_example, ()))) = Closed 0"
  by (rule breaker_recovers) (simp_all add: example_defs time_sub_def)

text \<open>probes whose outcome is never recorded are never given back: a HALF-OPEN breaker with all
  its probes in flight refuses every later call, whatever the clock says.\<close>

theorem lost_probes_block_forever:
  assumes "cb_inv cb" and "cb_state cb = StateHalfOpen"
    and "probesInFlight cb = HalfOpenProbes (cb_config cb)"
  shows "set (cb_answers (map OpAllow ts) (cb, w)) \<subseteq> {Some ErrCircuitOpen}"
proof -
  have "circuit_of cb = Half (unat (HalfOpenProbes (cb_config cb))) (unat (consecutiveSuccesses cb))"
    using assms by (simp add: circuit_of_def)
  from half_open_admissions[OF assms(1) this, of ts w]
  have "None \<notin> set (cb_answers (map OpAllow ts) (cb, w))"
    by (simp add: count_list_0_iff)
  then show ?thesis
    by (metis (full_types) cb_error.exhaust insertI1 not_None_eq subsetI)
qed

theorem lost_probes_block_forever_witness:
  "set (cb_answers (map OpAllow [0, 10 ^ 18]) (half_example, ())) \<subseteq> {Some ErrCircuitOpen}"
  by (rule lost_probes_block_forever) (simp_all add: example_defs)

text \<open>the callback fires exactly on state changes: with the dispatcher's callback, which stores
  the new state in a gauge, the gauge always shows the breaker's state.\<close>

theorem gauge_follows_state:
  "snd (cb_run xs (SetOnStateChange (Some (\<lambda>frm to w. State_int to)) (NewCircuitBreaker cfg), 0)) =
   State_int (cb_state (fst (cb_run xs
     (SetOnStateChange (Some (\<lambda>frm to w. State_int to)) (NewCircuitBreaker cfg), 0))))"
proof -
  have "gauge_shows_state (SetOnStateChange (Some (\<lambda>frm to w. State_int to)) (NewCircuitBreaker cfg), 0)"
    by (simp add: gauge_shows_state_def SetOnStateChange_def NewCircuitBreaker_def)
  from gauge.run_inv[OF this, of xs] show ?thesis
    by (simp add: gauge_shows_state_def cb_run_def list_all_iff)
qed

end
