(* ===== verification/Lookahead.thy ===== *)
theory Lookahead
  imports Pipeline
begin

text \<open>
  \<open>internal/outbound/lookahead.go\<close>: the sliding-window transformer of the streaming path. The upstream
  body is the list of what successive \<open>Read\<close> calls return; where the list ends the call is still
  blocked in \<open>Read\<close>. What the transformer does to the outside (bytes that the downstream writer took,
  flushes, the cancelled upstream, the closed socket) is the list of its effects, in order.
\<close>

section \<open>Data\<close>

definition LookaheadWindowSize :: nat where "LookaheadWindowSize = 128"
definition OverlapMarginSize :: nat where "OverlapMarginSize = 64"

datatype stream_error =
  ErrTripwireViolation | ContextDone string | WriteFailed string | ReadFailed string

record InspectionViolation =
  v_RuleID :: string
  v_Message :: string

definition FormatSSEErrorFrame :: "string \<Rightarrow> string \<Rightarrow> bytes" where
  "FormatSSEErrorFrame ruleID message =
     ''event: error'' @ [CHR 0x0A] @ ''data: {'' @ go_q ''error'' @ '':{'' @ go_q ''code'' @ '':'' @
     go_q ''TRIPWIRE_VIOLATION'' @ '','' @ go_q ''rule_id'' @ '':'' @ go_q ruleID @ '','' @
     go_q ''message'' @ '':'' @ go_q message @ ''}}'' @ [CHR 0x0A, CHR 0x0A] @
     ''data: [DONE]'' @ [CHR 0x0A, CHR 0x0A]"

record SlidingWindowTransformer =
  windowSize :: nat
  overlapSize :: nat
  inspector :: "(bytes \<Rightarrow> InspectionViolation option) option"

definition NewSlidingWindowTransformerWithConfig ::
  "int \<Rightarrow> int \<Rightarrow> (bytes \<Rightarrow> InspectionViolation option) option \<Rightarrow> SlidingWindowTransformer" where
  "NewSlidingWindowTransformerWithConfig w l insp =
     \<lparr>windowSize = (if w \<le> 0 then LookaheadWindowSize else nat w),
      overlapSize = (if l \<le> 0 then OverlapMarginSize else nat l), inspector = insp\<rparr>"

definition NewSlidingWindowTransformer ::
  "(bytes \<Rightarrow> InspectionViolation option) option \<Rightarrow> SlidingWindowTransformer" where
  "NewSlidingWindowTransformer insp =
     NewSlidingWindowTransformerWithConfig (int LookaheadWindowSize) (int OverlapMarginSize) insp"

text \<open>One turn of the read loop: the error of \<open>ctx\<close> if it is done by then, the bytes that \<open>Read\<close> gave
  and the error it gave with them.\<close>

datatype read_error = ReadEOF | ReadErr string

record read_event =
  ctx_err :: "string option"
  chunk :: bytes
  read_err :: "read_error option"

datatype effect = Wrote bytes | Flushed | CancelledUpstream | ClosedConn

text \<open>The arguments of a call: which of the optional handles are there (the flusher may also be the
  writer itself), and how the \<open>n\<close>-th write fails: after how many bytes, with which error.\<close>

record stream_env =
  hasFlusher :: bool
  hasConn :: bool
  hijackable :: bool
  hasCancel :: bool
  write_fails :: "nat \<Rightarrow> (nat \<times> string) option"

record stream_io =
  effects :: "effect list"
  stream_pc :: "PipelineContext option"

section \<open>The transformer\<close>

definition is_write :: "effect \<Rightarrow> bool" where
  "is_write e = (case e of Wrote _ \<Rightarrow> True | _ \<Rightarrow> False)"

definition perform :: "bool \<Rightarrow> effect \<Rightarrow> stream_io \<Rightarrow> stream_io" where
  "perform possible e io = (if possible then io\<lparr>effects := effects io @ [e]\<rparr> else io)"

definition Write :: "stream_env \<Rightarrow> bytes \<Rightarrow> stream_io \<Rightarrow> stream_io \<times> string option" where
  "Write env b io =
     (case write_fails env (length (filter is_write (effects io))) of
        None \<Rightarrow> (perform True (Wrote b) io, None)
      | Some (n, e) \<Rightarrow> (perform True (Wrote (take n b)) io, Some e))"

text \<open>Step 2 of the abort: the violation is recorded on the context.\<close>

definition record_violation :: "InspectionViolation \<Rightarrow> stream_io \<Rightarrow> stream_io" where
  "record_violation v io = io\<lparr>stream_pc := map_option (\<lambda>pc. pc\<lparr>MatchedRuleID := v_RuleID v,
     ViolationType := ''TRIPWIRE_VIOLATION'',
     Violations := Violations pc @ [\<lparr>RuleID = v_RuleID v,
       Stage = ''outbound_stream_transformer'', Description = v_Message v,
       Severity = ''CRITICAL'', Shadow = False\<rparr>]\<rparr>) (stream_pc io)\<rparr>"

definition executeTripwireAbort :: "stream_env \<Rightarrow> InspectionViolation \<Rightarrow> stream_io \<Rightarrow> stream_io" where
  "executeTripwireAbort env v io =
     (let io1 = perform (hasCancel env) CancelledUpstream io;
          io2 = record_violation v io1;
          io3 = fst (Write env (FormatSSEErrorFrame (v_RuleID v) (v_Message v)) io2);
          io4 = perform (hasFlusher env) Flushed io3
      in perform (hasConn env \<or> hijackable env) ClosedConn io4)"

definition inspect_with :: "SlidingWindowTransformer \<Rightarrow> bytes \<Rightarrow> InspectionViolation option" where
  "inspect_with t buf = (case inspector t of None \<Rightarrow> None | Some f \<Rightarrow> f buf)"

text \<open>The inner loop over a full window: the error with which the call returns, the rest of the buffer.\<close>

function drain :: "SlidingWindowTransformer \<Rightarrow> stream_env \<Rightarrow> bytes \<Rightarrow> stream_io \<Rightarrow>
    stream_error option \<times> bytes \<times> stream_io" where
  "drain t env buf io =
     (if length buf < windowSize t then (None, buf, io)
      else case inspect_with t buf of
        Some v \<Rightarrow> (Some ErrTripwireViolation, buf, executeTripwireAbort env v io)
      | None \<Rightarrow>
          let flushable = length buf - overlapSize t in
          if flushable > 0
          then (case Write env (take flushable buf) io of
                  (io1, Some e) \<Rightarrow> (Some (WriteFailed e), buf, io1)
                | (io1, None) \<Rightarrow> drain t env (drop flushable buf) (perform (hasFlusher env) Flushed io1))
          else (None, buf, io))"
  by pat_completeness auto
termination by (relation "measure (\<lambda>(t, env, buf, io). length buf)") auto

declare drain.simps [simp del]

text \<open>The end of the stream: the rest of the buffer is inspected and released.\<close>

definition finish :: "SlidingWindowTransformer \<Rightarrow> stream_env \<Rightarrow> bytes \<Rightarrow> stream_io \<Rightarrow>
    stream_error option \<times> stream_io" where
  "finish t env buf io =
     (if buf = [] then (None, io)
      else case inspect_with t buf of
        Some v \<Rightarrow> (Some ErrTripwireViolation, executeTripwireAbort env v io)
      | None \<Rightarrow> (case Write env buf io of
            (io1, Some e) \<Rightarrow> (Some (WriteFailed e), io1)
          | (io1, None) \<Rightarrow> (None, perform (hasFlusher env) Flushed io1)))"

text \<open>The read loop: \<open>None\<close> while the call has not returned, else its error or \<open>nil\<close>.\<close>

fun transform_loop :: "SlidingWindowTransformer \<Rightarrow> stream_env \<Rightarrow> read_event list \<Rightarrow> bytes \<Rightarrow> stream_io \<Rightarrow>
    stream_error option option \<times> stream_io" where
  "transform_loop t env [] buf io = (None, io)"
| "transform_loop t env (e # es) buf io =
     (case ctx_err e of
        Some m \<Rightarrow> (Some (Some (ContextDone m)), io)
      | None \<Rightarrow>
          (case (if chunk e \<noteq> [] then drain t env (buf @ chunk e) io else (None, buf, io)) of
             (Some err, buf1, io1) \<Rightarrow> (Some (Some err), io1)
           | (None, buf1, io1) \<Rightarrow>
               (case read_err e of
                  None \<Rightarrow> transform_loop t env es buf1 io1
                | Some ReadEOF \<Rightarrow> (case finish t env buf1 io1 of (r, io2) \<Rightarrow> (Some r, io2))
                | Some (ReadErr m) \<Rightarrow> (Some (Some (ReadFailed m)), io1))))"

definition TransformStream :: "SlidingWindowTransformer \<Rightarrow> stream_env \<Rightarrow> read_event list \<Rightarrow>
    PipelineContext option \<Rightarrow> stream_error option option \<times> stream_io" where
  "TransformStream t env es pc =
     (case transform_loop t env es [] \<lparr>effects = [], stream_pc = pc\<rparr> of
        (None, io) \<Rightarrow> (None, io)
      | (Some r, io) \<Rightarrow> (Some r, perform (hasCancel env) CancelledUpstream io))"

section \<open>What goes in and what comes out\<close>

text \<open>The bytes that the upstream delivered to the call, and those that the client got of it.\<close>

fun received :: "read_event list \<Rightarrow> bytes" where
  "received [] = []"
| "received (e # es) =
     (if ctx_err e \<noteq> None then [] else chunk e @ (if read_err e = None then received es else []))"

fun wrote :: "effect \<Rightarrow> bytes" where
  "wrote (Wrote b) = b"
| "wrote _ = []"

definition written :: "stream_io \<Rightarrow> bytes" where
  "written io = concat (map wrote (effects io))"

lemma written_perform [simp]:
  "written (perform p (Wrote b) io) = (if p then written io @ b else written io)"
  "written (perform p Flushed io) = written io"
  "written (perform p CancelledUpstream io) = written io"
  "written (perform p ClosedConn io) = written io"
  by (simp_all add: written_def perform_def)

lemma written_record [simp]: "written (record_violation v io) = written io"
  by (simp add: written_def record_violation_def)

lemma written_Write: "\<exists>n. written (fst (Write env b io)) = written io @ take n b"
  unfolding Write_def by (cases "write_fails env (length (filter is_write (effects io)))") (auto intro: exI[of _ "length b"])

lemma written_Write_ok: "Write env b io = (io1, None) \<Longrightarrow> written io1 = written io @ b"
  by (auto simp: Write_def split: option.splits)

lemma written_Write_fail: "Write env b io = (io1, Some e) \<Longrightarrow> \<exists>n. written io1 = written io @ take n b"
  using written_Write[of env b io] by simp

definition frame_of :: "InspectionViolation \<Rightarrow> bytes" where
  "frame_of v = FormatSSEErrorFrame (v_RuleID v) (v_Message v)"

lemma written_abort: "\<exists>n. written (executeTripwireAbort env v io) = written io @ take n (frame_of v)"
  using written_Write[of env "FormatSSEErrorFrame (v_RuleID v) (v_Message v)"
      "record_violation v (perform (hasCancel env) CancelledUpstream io)"]
  by (simp add: executeTripwireAbort_def Let_def frame_of_def)

section \<open>No byte of a secret is released\<close>

text \<open>An inspector that sees a class of secrets wherever they occur in its window.\<close>

locale stream_inspector =
  fixes inspect :: "bytes \<Rightarrow> InspectionViolation option"
    and secret :: "bytes \<Rightarrow> bool"
  assumes catches: "secret p \<Longrightarrow> contains w p \<Longrightarrow> inspect w \<noteq> None"

text \<open>Releasing \<open>head\<close> of the stream is safe if no secret of at most \<open>n\<close> bytes begins in it.\<close>

definition safe_head :: "(bytes \<Rightarrow> bool) \<Rightarrow> nat \<Rightarrow> bytes \<Rightarrow> bytes \<Rightarrow> bool" where
  "safe_head secret n head stream \<longleftrightarrow>
     (\<forall>p u v. secret p \<longrightarrow> length p \<le> n \<longrightarrow> stream = u @ p @ v \<longrightarrow> length head \<le> length u)"

lemma safe_head_Nil [simp]: "safe_head secret n [] s"
  by (simp add: safe_head_def)

lemma safe_head_shorter: "safe_head secret n head s \<Longrightarrow> length head' \<le> length head \<Longrightarrow> safe_head secret n head' s"
  unfolding safe_head_def using le_trans by blast

lemma safe_head_append:
  assumes "safe_head secret n h1 (h1 @ s)" and "safe_head secret n h2 s"
  shows "safe_head secret n (h1 @ h2) (h1 @ s)"
  unfolding safe_head_def
proof (intro allI impI)
  fix p u v
  assume p: "secret p" "length p \<le> n" and occ: "h1 @ s = u @ p @ v"
  then have "length h1 \<le> length u" using assms(1) unfolding safe_head_def by blast
  with occ obtain u' where "u = h1 @ u'"
    by (metis append_eq_append_conv_if append_take_drop_id)
  with occ have "s = u' @ p @ v" by simp
  with assms(2) p have "length h2 \<le> length u'" unfolding safe_head_def by blast
  with \<open>u = h1 @ u'\<close> show "length (h1 @ h2) \<le> length u" by simp
qed

context stream_inspector
begin

lemma inspected_head_safe:
  assumes "inspect buf = None"
  shows "safe_head secret (Suc l) (take (length buf - l) buf) (buf @ rest)"
  unfolding safe_head_def
proof (intro allI impI, rule ccontr)
  fix p u v
  assume p: "secret p" "length p \<le> Suc l" and occ: "buf @ rest = u @ p @ v"
    and "\<not> length (take (length buf - l) buf) \<le> length u"
  then have "length (u @ p) \<le> length buf" by simp
  moreover have "buf @ rest = (u @ p) @ v" using occ by simp
  ultimately obtain y where "buf = (u @ p) @ y"
    by (metis append_eq_append_conv_if append_take_drop_id)
  then have "contains buf p" unfolding contains_iff by auto
  with catches[OF p(1)] assms show False by blast
qed

lemma inspected_rest_safe:
  assumes "inspect buf = None"
  shows "safe_head secret n buf buf"
  using catches assms unfolding safe_head_def contains_iff by blast

text \<open>What a part of the run releases: a safe head of its buffer, after it at most (a part of) the frame.\<close>

definition releases :: "nat \<Rightarrow> stream_io \<Rightarrow> stream_io \<Rightarrow> bytes \<Rightarrow> bytes \<Rightarrow> bool \<Rightarrow> bool" where
  "releases n io io' head s tripped \<longleftrightarrow>
     prefix head s \<and> safe_head secret n head s \<and>
     (\<exists>tail. written io' = written io @ head @ tail \<and>
        (if tripped then \<exists>w v k. inspect w = Some v \<and> tail = take k (frame_of v) else tail = []))"

lemma releases_Nil: "written io' = written io \<Longrightarrow> releases n io io' [] buf False"
  by (simp add: releases_def)

lemma releases_append:
  assumes "releases n io io1 h1 (h1 @ b) False" and "releases n io1 io2 h2 b tr"
  shows "releases n io io2 (h1 @ h2) (h1 @ b) tr"
  using assms safe_head_append[of secret n h1 b h2] unfolding releases_def by auto

lemma releases_abort: "inspect w = Some v \<Longrightarrow> releases n io (executeTripwireAbort env v io) [] buf True"
  using written_abort[of env v io] unfolding releases_def by auto

lemma releases_write:
  assumes "safe_head secret n head s" and "prefix head s" and "written io' = written io @ take k head"
  shows "releases n io io' (take k head) s False"
proof -
  have "prefix (take k head) s" using assms(2) take_is_prefix[of k head] prefix_order.trans by blast
  with assms safe_head_shorter[of secret n head s "take k head"] show ?thesis by (simp add: releases_def)
qed

lemma releases_step:
  "releases n io io1 h1 s False \<Longrightarrow> s = h1 @ s' \<Longrightarrow> releases n io1 io2 h2 s' tr \<Longrightarrow>
     releases n io io2 (h1 @ h2) s tr"
  using releases_append by blast

lemma drain_releases:
  assumes "inspector t = Some inspect" and "n = Suc (overlapSize t)"
  shows "drain t env buf io = (err, buf', io') \<Longrightarrow>
    \<exists>head. (\<forall>rest. releases n io io' head (buf @ rest) (err = Some ErrTripwireViolation)) \<and>
      (err = None \<longrightarrow> buf = head @ buf')"
  using assms
proof (induction t env buf io rule: drain.induct)
  case (1 t env buf io)
  note d = drain.simps[of t env buf io]
  let ?k = "length buf - overlapSize t"
  consider (short) "length buf < windowSize t"
    | (trip) v where "\<not> length buf < windowSize t" "inspect buf = Some v"
    | (keep) "\<not> length buf < windowSize t" "inspect buf = None" "\<not> ?k > 0"
    | (flush) "\<not> length buf < windowSize t" "inspect buf = None" "?k > 0"
    by (cases "inspect buf") blast+
  then show ?case
  proof cases
    case short
    with d "1.prems" show ?thesis by (intro exI[of _ "[]"]) (auto intro: releases_Nil)
  next
    case trip
    with d "1.prems" releases_abort[OF trip(2)] show ?thesis
      by (intro exI[of _ "[]"]) (auto simp: inspect_with_def)
  next
    case keep
    with d "1.prems" show ?thesis by (intro exI[of _ "[]"]) (auto simp: inspect_with_def intro: releases_Nil)
  next
    case flush
    obtain io1 e where w: "Write env (take ?k buf) io = (io1, e)" by fastforce
    have pre: "prefix (take ?k buf) (buf @ rest)" for rest
      using take_is_prefix[of ?k buf] by (simp add: prefix_def) (metis append.assoc)
    note rel = releases_write[OF inspected_head_safe[OF flush(2), of "overlapSize t"] pre]
    obtain k where k: "written io1 = written io @ take k (take ?k buf)"
      using written_Write[of env "take ?k buf" io] w by auto
    show ?thesis
    proof (cases e)
      case None
      let ?io1 = "perform (hasFlusher env) Flushed io1"
      have r1: "releases n io ?io1 (take ?k buf) (buf @ rest) False" for rest
        using rel[of "perform (hasFlusher env) Flushed io1" io ?k] written_Write_ok[of env "take ?k buf" io io1]
          w None "1.prems"(3) by simp
      have dr: "drain t env (drop ?k buf) ?io1 = (err, buf', io')"
        using d flush w None "1.prems" by (simp add: inspect_with_def Let_def)
      then obtain h where h: "\<forall>rest. releases n ?io1 io' h (drop ?k buf @ rest) (err = Some ErrTripwireViolation)"
        "err = None \<longrightarrow> drop ?k buf = h @ buf'"
        using "1.IH"[OF flush(1) _ refl flush(3) w[symmetric] None dr] "1.prems" flush(2)
        by (auto simp: inspect_with_def)
      have "buf @ rest = take ?k buf @ (drop ?k buf @ rest)" for rest by simp
      with releases_step[OF r1] h(1)
      have "releases n io io' (take ?k buf @ h) (buf @ rest) (err = Some ErrTripwireViolation)" for rest by blast
      moreover have "err = None \<longrightarrow> buf = (take ?k buf @ h) @ buf'"
        using h(2) append_take_drop_id[of ?k buf] by (metis append.assoc)
      ultimately show ?thesis by blast
    next
      case (Some m)
      with d flush w "1.prems" have e: "err = Some (WriteFailed m)" "io' = io1"
        by (simp_all add: inspect_with_def Let_def)
      with rel[OF k] "1.prems"(3) show ?thesis by auto
    qed
  qed
qed

lemma finish_releases:
  assumes "inspector t = Some inspect" and "finish t env buf io = (err, io')"
  shows "\<exists>head. releases n io io' head buf (err = Some ErrTripwireViolation)"
proof -
  consider (empty) "buf = []" | (trip) v where "buf \<noteq> []" "inspect buf = Some v"
    | (flush) "buf \<noteq> []" "inspect buf = None"
    by (cases "inspect buf") blast+
  then show ?thesis
  proof cases
    case empty
    with assms show ?thesis by (intro exI[of _ "[]"]) (auto simp: finish_def intro: releases_Nil)
  next
    case trip
    with assms releases_abort[OF trip(2)] show ?thesis
      by (intro exI[of _ "[]"]) (auto simp: finish_def inspect_with_def)
  next
    case flush
    obtain io1 e where w: "Write env buf io = (io1, e)" by fastforce
    obtain k where k: "written io1 = written io @ take k buf"
      using written_Write[of env buf io] w by auto
    show ?thesis
    proof (cases e)
      case None
      then have "written io' = written io @ buf" "err = None"
        using assms flush w written_Write_ok[of env buf io io1] by (auto simp: finish_def inspect_with_def)
      then show ?thesis
        using releases_write[OF inspected_rest_safe[OF flush(2)], where k = "length buf" and io' = io'] by auto
    next
      case (Some m)
      with assms flush w have "err = Some (WriteFailed m)" "io' = io1"
        by (simp_all add: finish_def inspect_with_def)
      with releases_write[OF inspected_rest_safe[OF flush(2)] _ k] show ?thesis by auto
    qed
  qed
qed

lemma loop_releases:
  assumes "inspector t = Some inspect" and "n = Suc (overlapSize t)"
  shows "transform_loop t env es buf io = (res, io') \<Longrightarrow>
    \<exists>head. releases n io io' head (buf @ received es) (res = Some (Some ErrTripwireViolation))"
proof (induction es arbitrary: buf io)
  case Nil
  then show ?case by (intro exI[of _ "[]"]) (auto intro: releases_Nil)
next
  case (Cons e es)
  show ?case
  proof (cases "ctx_err e")
    case (Some m)
    with Cons.prems show ?thesis by (intro exI[of _ "[]"]) (auto intro: releases_Nil)
  next
    case None
    obtain err buf1 io1 where step: "(if chunk e \<noteq> [] then drain t env (buf @ chunk e) io
        else (None, buf, io)) = (err, buf1, io1)"
      by (metis prod_cases3)
    let ?rest = "if read_err e = None then received es else []"
    have rec: "buf @ received (e # es) = (buf @ chunk e) @ ?rest" using None by simp
    have "\<exists>h. (\<forall>rest. releases n io io1 h ((buf @ chunk e) @ rest) (err = Some ErrTripwireViolation)) \<and>
      (err = None \<longrightarrow> buf @ chunk e = h @ buf1)"
    proof (cases "chunk e = []")
      case True
      with step show ?thesis by (intro exI[of _ "[]"]) (auto intro: releases_Nil)
    next
      case False
      then have "drain t env (buf @ chunk e) io = (err, buf1, io1)" using step by simp
      from drain_releases[OF assms this] show ?thesis .
    qed
    then obtain h where h: "\<And>rest. releases n io io1 h ((buf @ chunk e) @ rest) (err = Some ErrTripwireViolation)"
      "err = None \<longrightarrow> buf @ chunk e = h @ buf1" by blast
    show ?thesis
    proof (cases err)
      case (Some x)
      with Cons.prems None step have "res = Some (Some x)" "io' = io1" by auto
      with h(1)[of ?rest] Some rec show ?thesis by auto
    next
      case err: None
      have st: "buf @ received (e # es) = h @ (buf1 @ ?rest)" using rec h(2) err by simp
      have r1: "releases n io io1 h (buf @ received (e # es)) False" using h(1)[of ?rest] err rec by simp
      have "\<exists>h2. releases n io1 io' h2 (buf1 @ ?rest) (res = Some (Some ErrTripwireViolation))"
      proof (cases "read_err e")
        case None
        with Cons.prems \<open>ctx_err e = None\<close> step err Cons.IH[of buf1 io1] show ?thesis by auto
      next
        case (Some x)
        show ?thesis
        proof (cases x)
          case ReadEOF
          with Cons.prems \<open>ctx_err e = None\<close> step err Some obtain r where
            "finish t env buf1 io1 = (r, io')" "res = Some r" by (auto split: prod.splits)
          with finish_releases[OF assms(1), of env buf1 io1 r io' n] Some show ?thesis by simp
        next
          case (ReadErr m)
          with Cons.prems \<open>ctx_err e = None\<close> step err Some show ?thesis
            by (intro exI[of _ "[]"]) (auto intro: releases_Nil)
        qed
      qed
      with releases_step[OF r1 st] show ?thesis by blast
    qed
  qed
qed

lemma stream_releases:
  assumes "inspector t = Some inspect" and "TransformStream t env es pc = (res, io)"
  shows "\<exists>head tail. written io = head @ tail \<and> prefix head (received es) \<and>
    safe_head secret (Suc (overlapSize t)) head (received es) \<and>
    (if res = Some (Some ErrTripwireViolation)
     then \<exists>w v k. inspect w = Some v \<and> tail = take k (frame_of v) else tail = [])"
proof -
  obtain r io1 where l: "transform_loop t env es [] \<lparr>effects = [], stream_pc = pc\<rparr> = (r, io1)" by fastforce
  with assms(2) have "res = r" "written io = written io1"
    by (auto simp: TransformStream_def split: option.splits)
  moreover have "written \<lparr>effects = [], stream_pc = pc\<rparr> = []" by (simp add: written_def)
  moreover obtain head where "releases (Suc (overlapSize t)) \<lparr>effects = [], stream_pc = pc\<rparr> io1 head
      (received es) (r = Some (Some ErrTripwireViolation))"
    using loop_releases[OF assms(1) refl l] by auto
  ultimately obtain tail where "written io = head @ tail" "prefix head (received es)"
    "safe_head secret (Suc (overlapSize t)) head (received es)"
    "if res = Some (Some ErrTripwireViolation)
     then \<exists>w v k. inspect w = Some v \<and> tail = take k (frame_of v) else tail = []"
    unfolding releases_def by auto
  then show ?thesis by (intro exI[of _ head] exI[of _ tail] conjI)
qed

end

section \<open>Clean streams and severed streams\<close>

text \<open>The upstream body comes to its end, and the request is not cancelled before.\<close>

fun complete :: "read_event list \<Rightarrow> bool" where
  "complete [] \<longleftrightarrow> False"
| "complete (e # es) \<longleftrightarrow> ctx_err e = None \<and>
     (case read_err e of None \<Rightarrow> complete es | Some ReadEOF \<Rightarrow> True | Some (ReadErr _) \<Rightarrow> False)"

definition clean :: "SlidingWindowTransformer \<Rightarrow> bytes \<Rightarrow> bool" where
  "clean t s \<longleftrightarrow> (\<forall>w. contains s w \<longrightarrow> inspect_with t w = None)"

lemma clean_inspect: "clean t s \<Longrightarrow> inspect_with t s = None"
  unfolding clean_def by (simp add: contains_sublist)

lemma clean_append: "clean t (a @ b) \<Longrightarrow> clean t a" "clean t (a @ b) \<Longrightarrow> clean t b"
  unfolding clean_def using contains_append_I1 contains_append_I2 by blast+

definition passes :: "stream_io \<Rightarrow> stream_io \<Rightarrow> bytes \<Rightarrow> bool" where
  "passes io io' h \<longleftrightarrow> written io' = written io @ h \<and> stream_pc io' = stream_pc io"

lemma passes_trans: "passes io io1 h1 \<Longrightarrow> passes io1 io2 h2 \<Longrightarrow> passes io io2 (h1 @ h2)"
  by (simp add: passes_def)

lemma passes_write:
  "write_fails env = (\<lambda>_. None) \<Longrightarrow>
     \<exists>io1. Write env b io = (io1, None) \<and> passes io (perform f Flushed io1) b"
  by (simp add: Write_def passes_def) (simp add: perform_def)

lemma drain_clean:
  "clean t buf \<Longrightarrow> write_fails env = (\<lambda>_. None) \<Longrightarrow>
     \<exists>h buf' io'. drain t env buf io = (None, buf', io') \<and> buf = h @ buf' \<and> passes io io' h"
proof (induction t env buf io rule: drain.induct)
  case (1 t env buf io)
  note d = drain.simps[of t env buf io] and i = clean_inspect[OF "1.prems"(1)]
  let ?k = "length buf - overlapSize t"
  show ?case
  proof (cases "\<not> length buf < windowSize t \<and> ?k > 0")
    case False
    with d i show ?thesis
      by (intro exI[of _ "[]"] exI[of _ buf] exI[of _ io]) (auto simp: passes_def Let_def)
  next
    case True
    obtain io1 where w: "Write env (take ?k buf) io = (io1, None)"
      and p: "passes io (perform (hasFlusher env) Flushed io1) (take ?k buf)"
      using passes_write[OF "1.prems"(2), of "take ?k buf" io "hasFlusher env"] by blast
    have "clean t (drop ?k buf)" using "1.prems"(1) clean_append(2)[of t "take ?k buf" "drop ?k buf"] by simp
    then obtain h buf' io' where r: "drain t env (drop ?k buf) (perform (hasFlusher env) Flushed io1) = (None, buf', io')"
      "drop ?k buf = h @ buf'" "passes (perform (hasFlusher env) Flushed io1) io' h"
      using "1.IH"[OF _ i refl _ w[symmetric] refl _ "1.prems"(2)] True by (elim exE conjE impE) auto
    have "drain t env buf io = (None, buf', io')" using d i True w r(1) by (simp add: Let_def)
    moreover have "buf = (take ?k buf @ h) @ buf'" using r(2) append_take_drop_id[of ?k buf] by simp
    ultimately show ?thesis using passes_trans[OF p r(3)] by blast
  qed
qed

lemma loop_clean:
  "clean t (buf @ received es) \<Longrightarrow> write_fails env = (\<lambda>_. None) \<Longrightarrow> complete es \<Longrightarrow>
     \<exists>io'. transform_loop t env es buf io = (Some None, io') \<and> passes io io' (buf @ received es)"
proof (induction es arbitrary: buf io)
  case Nil
  then show ?case by simp
next
  case (Cons e es)
  let ?rest = "if read_err e = None then received es else []"
  have rec: "buf @ received (e # es) = (buf @ chunk e) @ ?rest" using Cons.prems(3) by simp
  have "clean t (buf @ chunk e)" using Cons.prems(1) clean_append(1) unfolding rec by blast
  then have "\<exists>h buf' io'. drain t env (buf @ chunk e) io = (None, buf', io') \<and> buf @ chunk e = h @ buf' \<and> passes io io' h"
    using Cons.prems(2) by (rule drain_clean)
  moreover have "passes io io []" by (simp add: passes_def)
  ultimately obtain h buf1 io1 where step: "(if chunk e \<noteq> [] then drain t env (buf @ chunk e) io
      else (None, buf, io)) = (None, buf1, io1)" "buf @ chunk e = h @ buf1" "passes io io1 h"
    by (cases "chunk e = []") auto
  have cl: "clean t (buf1 @ ?rest)" using Cons.prems(1) clean_append(2)[of t h] unfolding rec step(2) by simp
  show ?case
  proof (cases "read_err e")
    case None
    then obtain io' where "transform_loop t env es buf1 io1 = (Some None, io')"
      "passes io1 io' (buf1 @ received es)"
      using Cons.IH[of buf1 io1] cl Cons.prems(2,3) by auto
    with None step Cons.prems(3) passes_trans[OF step(3)] show ?thesis unfolding rec by auto
  next
    case (Some x)
    with Cons.prems(3) have x: "x = ReadEOF" by (cases x) auto
    have "\<exists>io'. finish t env buf1 io1 = (None, io') \<and> passes io1 io' buf1"
    proof (cases "buf1 = []")
      case True
      then show ?thesis by (simp add: finish_def passes_def)
    next
      case False
      then show ?thesis
        using passes_write[OF Cons.prems(2), of buf1 io1 "hasFlusher env"] clean_inspect[of t buf1] cl Some
        by (auto simp: finish_def)
    qed
    with Some x step Cons.prems(3) passes_trans[OF step(3)] show ?thesis unfolding rec by auto
  qed
qed

text \<open>A run that ends in a tripwire ends with the abort.\<close>

lemma drain_trips:
  "drain t env buf io = (Some ErrTripwireViolation, buf', io') \<Longrightarrow>
     \<exists>w v io0. inspect_with t w = Some v \<and> io' = executeTripwireAbort env v io0 \<and> stream_pc io0 = stream_pc io"
proof (induction t env buf io rule: drain.induct)
  case (1 t env buf io)
  note d = drain.simps[of t env buf io]
  let ?k = "length buf - overlapSize t"
  show ?case
  proof (cases "inspect_with t buf")
    case (Some v)
    with d "1.prems" show ?thesis by (auto split: if_splits)
  next
    case None
    with d "1.prems" obtain io1 where c: "\<not> length buf < windowSize t" "?k > 0"
      "Write env (take ?k buf) io = (io1, None)"
      "drain t env (drop ?k buf) (perform (hasFlusher env) Flushed io1) = (Some ErrTripwireViolation, buf', io')"
      by (auto simp: Let_def split: if_splits prod.splits option.splits)
    have "stream_pc (perform (hasFlusher env) Flushed io1) = stream_pc io"
      using c(3) by (auto simp: Write_def perform_def split: option.splits)
    with "1.IH"[OF c(1) None refl c(2) c(3)[symmetric] refl c(4)] show ?thesis by simp
  qed
qed

lemma drain_pc: "drain t env buf io = (None, buf', io') \<Longrightarrow> stream_pc io' = stream_pc io"
proof (induction t env buf io rule: drain.induct)
  case (1 t env buf io)
  then show ?case
    by (subst (asm) (2) drain.simps)
       (auto simp: Let_def Write_def perform_def split: if_splits prod.splits option.splits)
qed

lemma loop_trips:
  "transform_loop t env es buf io = (Some (Some ErrTripwireViolation), io') \<Longrightarrow>
     \<exists>w v io0. inspect_with t w = Some v \<and> io' = executeTripwireAbort env v io0 \<and> stream_pc io0 = stream_pc io"
proof (induction es arbitrary: buf io)
  case Nil
  then show ?case by simp
next
  case (Cons e es)
  obtain err buf1 io1 where step: "(if chunk e \<noteq> [] then drain t env (buf @ chunk e) io
      else (None, buf, io)) = (err, buf1, io1)"
    by (metis prod_cases3)
  have c: "ctx_err e = None" using Cons.prems by (cases "ctx_err e") auto
  show ?case
  proof (cases err)
    case (Some x)
    with Cons.prems step c have "drain t env (buf @ chunk e) io = (Some ErrTripwireViolation, buf1, io')"
      by (auto split: if_splits)
    then show ?thesis by (rule drain_trips)
  next
    case None
    then have pc: "stream_pc io1 = stream_pc io" using step drain_pc[of t env "buf @ chunk e" io buf1 io1]
      by (auto split: if_splits)
    show ?thesis
    proof (cases "read_err e")
      case None
      with Cons.prems step c \<open>err = None\<close> have "transform_loop t env es buf1 io1 = (Some (Some ErrTripwireViolation), io')"
        by simp
      from Cons.IH[OF this] pc show ?thesis by simp
    next
      case (Some x)
      with Cons.prems step c \<open>err = None\<close> have "finish t env buf1 io1 = (Some ErrTripwireViolation, io')"
        by (auto split: read_error.splits prod.splits)
      then show ?thesis using pc
        by (auto simp: finish_def split: if_splits option.splits prod.splits)
    qed
  qed
qed

end
