(* ===== verification/Outbound_Schema.thy ===== *)
theory Outbound_Schema
  imports Json_Decode
begin

text \<open>
  \<open>internal/outbound/schema.go\<close>: the validator of synchronous completions. \<open>json.Unmarshal\<close> into the
  nested structs is written out: members in order, pointers allocated on demand and reused, slices that
  keep their backing array, a mismatch of types saved as an error while the decoding goes on.
\<close>

section \<open>The response structs\<close>

record toolFunction =
  fn_Name :: bytes
  fn_Arguments :: bytes

record toolCall =
  tc_ID :: bytes
  tc_Type :: bytes
  tc_Function :: toolFunction

record choiceMessage =
  msg_Role :: bytes
  msg_Content :: json
  msg_ToolCalls :: "toolCall slice"

record chatCompletionChoice =
  ch_Index :: int
  ch_Message :: "choiceMessage option"

record responseError =
  err_Message :: bytes
  err_Type :: bytes
  err_Code :: json

record chatCompletionResponse =
  resp_ID :: "bytes option"
  resp_Choices :: "chatCompletionChoice slice"
  resp_Error :: "responseError option"

definition zero_function :: toolFunction where
  "zero_function = \<lparr>fn_Name = [], fn_Arguments = []\<rparr>"
definition zero_call :: toolCall where
  "zero_call = \<lparr>tc_ID = [], tc_Type = [], tc_Function = zero_function\<rparr>"
definition zero_message :: choiceMessage where
  "zero_message = \<lparr>msg_Role = [], msg_Content = JNull, msg_ToolCalls = None\<rparr>"
definition zero_choice :: chatCompletionChoice where
  "zero_choice = \<lparr>ch_Index = 0, ch_Message = None\<rparr>"
definition zero_error :: responseError where
  "zero_error = \<lparr>err_Message = [], err_Type = [], err_Code = JNull\<rparr>"
definition zero_response :: chatCompletionResponse where
  "zero_response = \<lparr>resp_ID = None, resp_Choices = None, resp_Error = None\<rparr>"

definition store_function :: "json \<Rightarrow> toolFunction \<Rightarrow> toolFunction \<times> bool" where
  "store_function = store_struct
     [(''name'', at_field fn_Name (\<lambda>y. fn_Name_update (\<lambda>_. y)) store_string),
      (''arguments'', at_field fn_Arguments (\<lambda>y. fn_Arguments_update (\<lambda>_. y)) store_string)]"

definition store_call :: "json \<Rightarrow> toolCall \<Rightarrow> toolCall \<times> bool" where
  "store_call = store_struct
     [(''id'', at_field tc_ID (\<lambda>y. tc_ID_update (\<lambda>_. y)) store_string),
      (''type'', at_field tc_Type (\<lambda>y. tc_Type_update (\<lambda>_. y)) store_string),
      (''function'', at_field tc_Function (\<lambda>y. tc_Function_update (\<lambda>_. y)) store_function)]"

definition store_message :: "json \<Rightarrow> choiceMessage \<Rightarrow> choiceMessage \<times> bool" where
  "store_message = store_struct
     [(''role'', at_field msg_Role (\<lambda>y. msg_Role_update (\<lambda>_. y)) store_string),
      (''content'', at_field msg_Content (\<lambda>y. msg_Content_update (\<lambda>_. y)) store_any),
      (''tool_calls'', at_field msg_ToolCalls (\<lambda>y. msg_ToolCalls_update (\<lambda>_. y)) (store_slice zero_call store_call))]"

definition store_choice :: "json \<Rightarrow> chatCompletionChoice \<Rightarrow> chatCompletionChoice \<times> bool" where
  "store_choice = store_struct
     [(''index'', at_field ch_Index (\<lambda>y. ch_Index_update (\<lambda>_. y)) store_int),
      (''message'', at_field ch_Message (\<lambda>y. ch_Message_update (\<lambda>_. y)) (store_ptr zero_message store_message))]"

definition store_error :: "json \<Rightarrow> responseError \<Rightarrow> responseError \<times> bool" where
  "store_error = store_struct
     [(''message'', at_field err_Message (\<lambda>y. err_Message_update (\<lambda>_. y)) store_string),
      (''type'', at_field err_Type (\<lambda>y. err_Type_update (\<lambda>_. y)) store_string),
      (''code'', at_field err_Code (\<lambda>y. err_Code_update (\<lambda>_. y)) store_any)]"

definition store_response :: "json \<Rightarrow> chatCompletionResponse \<Rightarrow> chatCompletionResponse \<times> bool" where
  "store_response = store_struct
     [(''id'', at_field resp_ID (\<lambda>y. resp_ID_update (\<lambda>_. y)) (store_ptr [] store_string)),
      (''choices'', at_field resp_Choices (\<lambda>y. resp_Choices_update (\<lambda>_. y)) (store_slice zero_choice store_choice)),
      (''error'', at_field resp_Error (\<lambda>y. resp_Error_update (\<lambda>_. y)) (store_ptr zero_error store_error))]"

section \<open>Validation\<close>

datatype schema_error =
    EmptyBody
  | InvalidSyntax bytes
  | UnmarshalFailed bytes
  | ErrorWithoutMessage
  | EmptyChoices
  | MissingMessage nat
  | MissingID nat nat
  | MissingType nat nat
  | MissingName nat nat
  | EmptyArguments nat nat
  | InvalidArguments nat nat bytes

text \<open>The text of an error; \<open>why\<close> gives that of the decoder's error for a body.\<close>

fun schema_text :: "(bytes \<Rightarrow> string) \<Rightarrow> schema_error \<Rightarrow> string" where
  "schema_text why EmptyBody = ''empty response body''"
| "schema_text why (InvalidSyntax d) = ''invalid JSON syntax: '' @ d"
| "schema_text why (UnmarshalFailed d) = ''failed to unmarshal JSON response: '' @ why d"
| "schema_text why ErrorWithoutMessage = ''upstream error object missing message''"
| "schema_text why EmptyChoices = ''choices array must not be empty''"
| "schema_text why (MissingMessage i) = ''choice '' @ dec_nat i @ '' missing message object''"
| "schema_text why (MissingID i t) = ''choice '' @ dec_nat i @ '' tool call '' @ dec_nat t @ '' missing id''"
| "schema_text why (MissingType i t) = ''choice '' @ dec_nat i @ '' tool call '' @ dec_nat t @ '' missing type''"
| "schema_text why (MissingName i t) = ''choice '' @ dec_nat i @ '' tool call '' @ dec_nat t @ '' missing function name''"
| "schema_text why (EmptyArguments i t) = ''choice '' @ dec_nat i @ '' tool call '' @ dec_nat t @ '' empty function arguments''"
| "schema_text why (InvalidArguments i t a) = ''choice '' @ dec_nat i @ '' tool call '' @ dec_nat t @ '' arguments is not valid JSON: '' @ a"

text \<open>The loops over the tool calls of choice \<open>i\<close>, and over the choices.\<close>

fun validate_calls :: "nat \<Rightarrow> nat \<Rightarrow> toolCall list \<Rightarrow> schema_error option" where
  "validate_calls i t [] = None"
| "validate_calls i t (tc # tcs) =
     (if tc_ID tc = [] then Some (MissingID i t)
      else if tc_Type tc = [] then Some (MissingType i t)
      else if fn_Name (tc_Function tc) = [] then Some (MissingName i t)
      else if fn_Arguments (tc_Function tc) = [] then Some (EmptyArguments i t)
      else if \<not> json_valid (fn_Arguments (tc_Function tc))
      then Some (InvalidArguments i t (fn_Arguments (tc_Function tc)))
      else validate_calls i (Suc t) tcs)"

fun validate_choices :: "nat \<Rightarrow> chatCompletionChoice list \<Rightarrow> schema_error option" where
  "validate_choices i [] = None"
| "validate_choices i (c # cs) =
     (case ch_Message c of
        None \<Rightarrow> Some (MissingMessage i)
      | Some m \<Rightarrow>
          (case validate_calls i 0 (elements (msg_ToolCalls m)) of
             Some e \<Rightarrow> Some e
           | None \<Rightarrow> validate_choices (Suc i) cs))"

definition Validate :: "bytes \<Rightarrow> schema_error option" where
  "Validate data =
     (if data = [] then Some EmptyBody
      else case json_parse data of
        None \<Rightarrow> Some (InvalidSyntax data)
      | Some v \<Rightarrow>
          (case store_response v zero_response of
             (resp, failed) \<Rightarrow>
               if failed then Some (UnmarshalFailed data)
               else case resp_Error resp of
                 Some e \<Rightarrow> if err_Message e = [] then Some ErrorWithoutMessage else None
               | None \<Rightarrow>
                   if resp_Choices resp = None then None
                   else if elements (resp_Choices resp) = [] then Some EmptyChoices
                   else validate_choices 0 (elements (resp_Choices resp))))"

section \<open>What a validated response has\<close>

definition call_ok :: "toolCall \<Rightarrow> bool" where
  "call_ok tc \<longleftrightarrow> tc_ID tc \<noteq> [] \<and> tc_Type tc \<noteq> [] \<and> fn_Name (tc_Function tc) \<noteq> [] \<and>
     json_valid (fn_Arguments (tc_Function tc)) \<and> fn_Arguments (tc_Function tc) \<noteq> []"

definition choice_ok :: "chatCompletionChoice \<Rightarrow> bool" where
  "choice_ok c \<longleftrightarrow> (case ch_Message c of None \<Rightarrow> False | Some m \<Rightarrow> list_all call_ok (elements (msg_ToolCalls m)))"

lemma validate_calls_ok: "validate_calls i t tcs = None \<longleftrightarrow> list_all call_ok tcs"
  by (induction i t tcs rule: validate_calls.induct) (auto simp: call_ok_def)

lemma validate_calls_error: "validate_calls i t tcs = Some e \<Longrightarrow> \<not> list_all call_ok tcs"
  by (metis option.distinct(1) validate_calls_ok)

lemma validate_choices_ok: "validate_choices i cs = None \<longleftrightarrow> list_all choice_ok cs"
  by (induction i cs rule: validate_choices.induct)
     (auto simp: choice_ok_def validate_calls_ok dest: validate_calls_error split: option.splits)

text \<open>The abstract contract: a JSON document of the response's type that is an error object with a
  message, or has no choices array, or a nonempty one of well-formed choices.\<close>

definition completion_ok :: "chatCompletionResponse \<Rightarrow> bool" where
  "completion_ok resp \<longleftrightarrow>
     (case resp_Error resp of
        Some e \<Rightarrow> err_Message e \<noteq> []
      | None \<Rightarrow> resp_Choices resp = None \<or>
          elements (resp_Choices resp) \<noteq> [] \<and> list_all choice_ok (elements (resp_Choices resp)))"

text \<open>
  C18: the validator accepts a body exactly when it is a JSON document that decodes into the response
  structs without a type error and satisfies the contract: an error object has a message, a choices
  array is not empty, every choice has a message, and every tool call has an id, a type, a function
  name and arguments that are themselves valid JSON.
\<close>

theorem validate_accepts_iff:
  "Validate data = None \<longleftrightarrow>
     (\<exists>v resp. json_parse data = Some v \<and> store_response v zero_response = (resp, False) \<and> completion_ok resp)"
proof -
  have nil: "json_parse [] = None" by code_simp
  show ?thesis
  proof (cases "json_parse data")
    case None
    then show ?thesis by (simp add: Validate_def)
  next
    case (Some v)
    obtain resp failed where "store_response v zero_response = (resp, failed)" by fastforce
    with Some nil show ?thesis
      by (cases "resp_Error resp"; cases failed)
         (auto simp: Validate_def completion_ok_def validate_choices_ok)
  qed
qed

end
