(* ===== verification/Outbound.thy ===== *)
theory Outbound
  imports Lookahead Outbound_Schema Regex
begin

text \<open>
  \<open>internal/outbound/{canary,dlp,engine}.go\<close>: the detectors of the outbound path and the engine that
  composes them for streams (through the sliding window) and for synchronous bodies.
\<close>

section \<open>Canary tokens\<close>

definition CanaryPrefix :: bytes where "CanaryPrefix = ''SEC-CNR-''"
definition RuleCanaryLeakDetected :: string where "RuleCanaryLeakDetected = ''CANARY_LEAK_DETECTED''"
definition MsgCanaryLeakDetected :: string where
  "MsgCanaryLeakDetected = ''Response stream aborted due to canary token detection''"

text \<open>A detector's answer \<open>(true, rule, message)\<close> is \<open>Some (rule, message)\<close>.\<close>

definition Canary_Detect :: "bytes \<Rightarrow> bytes \<Rightarrow> (string \<times> string) option" where
  "Canary_Detect data activeCanary =
     (if activeCanary \<noteq> [] \<and> contains data activeCanary then Some (RuleCanaryLeakDetected, MsgCanaryLeakDetected)
      else if contains data CanaryPrefix then Some (RuleCanaryLeakDetected, MsgCanaryLeakDetected)
      else None)"

section \<open>Secrets\<close>

definition reAWSAccessKey :: regex where
  "reAWSAccessKey = Seq [WordB,
     Alts [Cat (Str ''A3T'') up_num, Str ''AKIA'', Str ''AGPA'', Str ''AROA'', Str ''AIPA'',
           Str ''ANPA'', Str ''ANVA'', Str ''ASIA''],
     Times 16 up_num, WordB]"

definition reGitHubToken :: regex where
  "reGitHubToken = Seq [WordB,
     Alts [Seq [Str ''ghp_'', Times 36 alnum],
           Seq [Str ''github_pat_'', Times 22 alnum, Str ''_'', AtLeast 50 alnum]],
     WordB]"

definition reOpenAIKey :: regex where
  "reOpenAIKey = Alts
     [Seq [WordB, Str ''sk-'', Times 20 alnum, Str ''T3BlbkFJ'', Times 20 alnum, WordB],
      Seq [WordB, Str ''sk-proj-'', AtLeast 40 key_char, WordB],
      Seq [WordB, Str ''sk-'', AtLeast 32 alnum, WordB]]"

definition rePrivateKey :: regex where
  "rePrivateKey = Seq [Str ''-----BEGIN '', Opt (Seq [AtLeast 1 label_char, Str '' '']), Str ''PRIVATE KEY-----'']"

definition reDatabaseURI :: regex where
  "reDatabaseURI = Seq [WordB,
     Alts [Str ''postgres'', Str ''postgresql'', Str ''mysql'', Str ''mongodb'', Str ''redis''],
     Str ''://'', AtLeast 1 uri_char, WordB]"

definition RuleOutboundSecretLeak :: string where "RuleOutboundSecretLeak = ''OUTBOUND_SECRET_LEAK''"

definition DLP_Detect :: "bytes \<Rightarrow> (string \<times> string) option" where
  "DLP_Detect data =
     (if rx_match reAWSAccessKey data
      then Some (RuleOutboundSecretLeak, ''Response stream aborted due to AWS access key leak'')
      else if rx_match reGitHubToken data
      then Some (RuleOutboundSecretLeak, ''Response stream aborted due to GitHub token leak'')
      else if rx_match reOpenAIKey data
      then Some (RuleOutboundSecretLeak, ''Response stream aborted due to OpenAI key leak'')
      else if rx_match rePrivateKey data
      then Some (RuleOutboundSecretLeak, ''Response stream aborted due to private key leak'')
      else if rx_match reDatabaseURI data
      then Some (RuleOutboundSecretLeak, ''Response stream aborted due to database connection URI leak'')
      else None)"

section \<open>The engine\<close>

definition to_violation :: "string \<times> string \<Rightarrow> InspectionViolation" where
  "to_violation rm = \<lparr>v_RuleID = fst rm, v_Message = snd rm\<rparr>"

definition InspectWindow :: "bytes \<Rightarrow> bytes \<Rightarrow> InspectionViolation option" where
  "InspectWindow activeCanary window =
     (case Canary_Detect window activeCanary of
        Some rm \<Rightarrow> Some (to_violation rm)
      | None \<Rightarrow> map_option to_violation (DLP_Detect window))"

definition active_canary :: "PipelineContext option \<Rightarrow> bytes" where
  "active_canary pc = (case pc of None \<Rightarrow> [] | Some p \<Rightarrow> CanaryToken p)"

definition RuleSchemaValidationFailed :: string where
  "RuleSchemaValidationFailed = ''SCHEMA_VALIDATION_FAILED''"

definition InspectSync :: "(bytes \<Rightarrow> string) \<Rightarrow> bytes \<Rightarrow> PipelineContext option \<Rightarrow> InspectionViolation option" where
  "InspectSync why body pc =
     (case Canary_Detect body (active_canary pc) of
        Some rm \<Rightarrow> Some (to_violation rm)
      | None \<Rightarrow> (case DLP_Detect body of
          Some rm \<Rightarrow> Some (to_violation rm)
        | None \<Rightarrow> (case Validate body of
            Some e \<Rightarrow> Some \<lparr>v_RuleID = RuleSchemaValidationFailed,
              v_Message = ''Outbound JSON schema validation failed: '' @ schema_text why e\<rparr>
          | None \<Rightarrow> None)))"

definition ProcessStream :: "stream_env \<Rightarrow> read_event list \<Rightarrow> PipelineContext option \<Rightarrow>
    stream_error option option \<times> stream_io" where
  "ProcessStream env es pc =
     TransformStream (NewSlidingWindowTransformer (Some (InspectWindow (active_canary pc)))) env es pc"

section \<open>What the engine guards\<close>

text \<open>The secrets that are seen wherever they occur: the session's canary token, the prefix of all canary
  tokens, and every match of one of the five expressions with the two bytes around it, which are no
  word characters.\<close>

definition secret_patterns :: "regex list" where
  "secret_patterns = [reAWSAccessKey, reGitHubToken, reOpenAIKey, rePrivateKey, reDatabaseURI]"

definition guarded :: "bytes \<Rightarrow> bytes \<Rightarrow> bool" where
  "guarded canary p \<longleftrightarrow> (canary \<noteq> [] \<and> p = canary) \<or> p = CanaryPrefix \<or>
     (p \<noteq> [] \<and> tl p \<noteq> [] \<and> \<not> is_word (hd p) \<and> \<not> is_word (last p) \<and>
      list_ex (\<lambda>r. full_match r (butlast (tl p))) secret_patterns)"

lemma DLP_Detect_None: "DLP_Detect s = None \<longleftrightarrow> list_all (\<lambda>r. \<not> rx_match r s) secret_patterns"
  by (simp add: DLP_Detect_def secret_patterns_def)

lemma guarded_caught:
  assumes "guarded canary p" and "contains w p"
  shows "Canary_Detect w canary \<noteq> None \<or> DLP_Detect w \<noteq> None"
proof -
  consider "canary \<noteq> []" "p = canary" | "p = CanaryPrefix"
    | r where "p \<noteq> []" "tl p \<noteq> []" "\<not> is_word (hd p)" "\<not> is_word (last p)" "r \<in> set secret_patterns"
        "full_match r (butlast (tl p))"
    using assms(1) by (auto simp: guarded_def list_ex_iff)
  then show ?thesis
  proof cases
    case 3
    have "p = hd p # butlast (tl p) @ [last p]"
      using 3(1,2) by (metis append_butlast_last_id last_tl list.collapse)
    with assms(2) have "contains w (hd p # butlast (tl p) @ [last p])" by simp
    with 3 rx_match_bracketed have "rx_match r w" by blast
    with 3(5) show ?thesis unfolding DLP_Detect_None list_all_iff by blast
  qed (use assms(2) in \<open>simp_all add: Canary_Detect_def\<close>)
qed

text \<open>All that the engine ever says about a leak, in full: which rule and which text, nothing of what it saw.\<close>

definition leak_violations :: "InspectionViolation list" where
  "leak_violations =
     [\<lparr>v_RuleID = ''CANARY_LEAK_DETECTED'', v_Message = ''Response stream aborted due to canary token detection''\<rparr>,
      \<lparr>v_RuleID = ''OUTBOUND_SECRET_LEAK'', v_Message = ''Response stream aborted due to AWS access key leak''\<rparr>,
      \<lparr>v_RuleID = ''OUTBOUND_SECRET_LEAK'', v_Message = ''Response stream aborted due to GitHub token leak''\<rparr>,
      \<lparr>v_RuleID = ''OUTBOUND_SECRET_LEAK'', v_Message = ''Response stream aborted due to OpenAI key leak''\<rparr>,
      \<lparr>v_RuleID = ''OUTBOUND_SECRET_LEAK'', v_Message = ''Response stream aborted due to private key leak''\<rparr>,
      \<lparr>v_RuleID = ''OUTBOUND_SECRET_LEAK'', v_Message = ''Response stream aborted due to database connection URI leak''\<rparr>]"

lemma detectors_say:
  "Canary_Detect data canary = Some rm \<Longrightarrow> to_violation rm \<in> set leak_violations"
  "DLP_Detect data = Some rm \<Longrightarrow> to_violation rm \<in> set leak_violations"
proof -
  let ?texts = "[(RuleCanaryLeakDetected, MsgCanaryLeakDetected),
     (RuleOutboundSecretLeak, ''Response stream aborted due to AWS access key leak''),
     (RuleOutboundSecretLeak, ''Response stream aborted due to GitHub token leak''),
     (RuleOutboundSecretLeak, ''Response stream aborted due to OpenAI key leak''),
     (RuleOutboundSecretLeak, ''Response stream aborted due to private key leak''),
     (RuleOutboundSecretLeak, ''Response stream aborted due to database connection URI leak'')]"
  have l: "leak_violations = map to_violation ?texts"
    by (simp add: leak_violations_def to_violation_def RuleCanaryLeakDetected_def MsgCanaryLeakDetected_def RuleOutboundSecretLeak_def)
  have "rm \<in> set ?texts" if "Canary_Detect data canary = Some rm"
    using that unfolding Canary_Detect_def
    by (auto simp only: list.set insert_iff option.inject option.distinct simp_thms split: if_splits)
  then show "Canary_Detect data canary = Some rm \<Longrightarrow> to_violation rm \<in> set leak_violations" unfolding l set_map by (rule imageI)
  have "rm \<in> set ?texts" if "DLP_Detect data = Some rm"
    using that unfolding DLP_Detect_def
    by (auto simp only: list.set insert_iff option.inject option.distinct simp_thms split: if_splits)
  then show "DLP_Detect data = Some rm \<Longrightarrow> to_violation rm \<in> set leak_violations" unfolding l set_map by (rule imageI)
qed

lemma InspectWindow_says: "InspectWindow canary w = Some v \<Longrightarrow> v \<in> set leak_violations"
  by (auto simp: InspectWindow_def split: option.splits dest: detectors_say)

lemma InspectSync_guarded:
  assumes "guarded (active_canary pc) q" and "contains body q"
  obtains v where "InspectSync why body pc = Some v" "v \<in> set leak_violations"
proof (cases "Canary_Detect body (active_canary pc)")
  case (Some rm)
  then show ?thesis using that[of "to_violation rm"] detectors_say(1) by (simp add: InspectSync_def)
next
  case None
  then obtain rm where "DLP_Detect body = Some rm" using guarded_caught[OF assms] by auto
  then show ?thesis using that[of "to_violation rm"] None detectors_say(2) by (simp add: InspectSync_def)
qed

interpretation outbound: stream_inspector "InspectWindow canary" "guarded canary" for canary
proof unfold_locales
  fix p w
  assume "guarded canary p" and "contains w p"
  from guarded_caught[OF this] show "InspectWindow canary w \<noteq> None"
    by (auto simp: InspectWindow_def split: option.splits)
qed

lemma ProcessStream_releases:
  assumes "ProcessStream env es pc = (res, io)" and "received es = u @ p @ v"
    and "guarded (active_canary pc) p" and "length p \<le> 65"
  shows "\<exists>head tail. written io = head @ tail \<and> prefix head u \<and>
    (tail = [] \<or> res = Some (Some ErrTripwireViolation) \<and> list_ex (\<lambda>viol. prefix tail (frame_of viol)) leak_violations)"
proof -
  let ?t = "NewSlidingWindowTransformer (Some (InspectWindow (active_canary pc)))"
  have t: "inspector ?t = Some (InspectWindow (active_canary pc))" "overlapSize ?t = 64"
    by (simp_all add: NewSlidingWindowTransformer_def NewSlidingWindowTransformerWithConfig_def
        LookaheadWindowSize_def OverlapMarginSize_def)
  obtain head tail where h: "written io = head @ tail" "prefix head (received es)"
    "safe_head (guarded (active_canary pc)) (Suc 64) head (received es)"
    and tail: "if res = Some (Some ErrTripwireViolation)
       then \<exists>w viol k. InspectWindow (active_canary pc) w = Some viol \<and> tail = take k (frame_of viol)
       else tail = []"
    using outbound.stream_releases[OF t(1) assms(1)[unfolded ProcessStream_def]] t(2) by metis
  have "length head \<le> length u" using h(3) assms(2-4) unfolding safe_head_def by auto
  with h(2) assms(2) have "prefix head u" by (metis prefix_length_prefix prefixI)
  moreover have "tail = [] \<or> res = Some (Some ErrTripwireViolation) \<and> list_ex (\<lambda>viol. prefix tail (frame_of viol)) leak_violations"
    using tail take_is_prefix InspectWindow_says unfolding list_ex_iff by (metis (full_types))
  ultimately show ?thesis using h(1) by blast
qed

section \<open>Properties\<close>

text \<open>
  C12: zero-byte leakage. If a guarded secret (the canary token, or a credential that one of the
  expressions matches, with the delimiters around it) of at most 65 bytes stands anywhere in the
  upstream stream, then the client gets a part of what precedes the secret and no byte of the secret
  itself, followed at most by (a part of) the error frame of one of the six fixed rule and message texts, none of
  which depends on what was seen; whatever the chunks, cancellations and write errors are.
\<close>

theorem stream_leaks_no_secret_byte:
  assumes "ProcessStream env es pc = (res, io)" and "received es = u @ p @ v"
    and "guarded (active_canary pc) p" and "length p \<le> 65"
  shows "\<exists>head tail. written io = head @ tail \<and> prefix head u \<and>
    (tail = [] \<or> res = Some (Some ErrTripwireViolation) \<and> list_ex (\<lambda>viol. prefix tail (frame_of viol)) leak_violations)"
  using assms by (rule ProcessStream_releases)

definition plain_env :: stream_env where
  "plain_env = \<lparr>hasFlusher = True, hasConn = True, hijackable = False, hasCancel = True,
     write_fails = (\<lambda>_. None)\<rparr>"

definition reads :: "bytes list \<Rightarrow> read_event list" where
  "reads cs = map (\<lambda>c. \<lparr>ctx_err = None, chunk = c, read_err = None\<rparr>) cs @
     [\<lparr>ctx_err = None, chunk = [], read_err = Some ReadEOF\<rparr>]"

lemma received_reads: "received (reads cs) = concat cs"
  by (induction cs) (auto simp: reads_def)

theorem stream_leaks_no_secret_byte_witness:
  "\<exists>head tail. written (snd (ProcessStream plain_env
       (reads [replicate 200 (CHR ''x''), '' AKIA0123456'', ''789ABCDEF end'']) None)) = head @ tail \<and>
     prefix head (replicate 200 (CHR ''x'')) \<and>
     (tail = [] \<or> fst (ProcessStream plain_env
       (reads [replicate 200 (CHR ''x''), '' AKIA0123456'', ''789ABCDEF end'']) None) =
         Some (Some ErrTripwireViolation) \<and> list_ex (\<lambda>viol. prefix tail (frame_of viol)) leak_violations)"
proof (rule stream_leaks_no_secret_byte[where p = "'' AKIA0123456789ABCDEF ''" and v = "''end''"])
  show "guarded (active_canary None) '' AKIA0123456789ABCDEF ''" by code_simp
next
  show "received (reads [replicate 200 (CHR ''x''), '' AKIA0123456'', ''789ABCDEF end'']) =
      replicate 200 (CHR ''x'') @ '' AKIA0123456789ABCDEF '' @ ''end''"
    by (simp only: received_reads) simp
qed simp_all

text \<open>
  a stream in which no window trips the inspector, which the upstream ends and the client takes, is
  passed on unchanged, byte for byte, and leaves the context as it was.
\<close>

theorem clean_stream_passes:
  assumes "\<forall>w. contains (received es) w \<longrightarrow> InspectWindow (active_canary pc) w = None"
    and "write_fails env = (\<lambda>_. None)" and "complete es"
  shows "\<exists>io. ProcessStream env es pc = (Some None, io) \<and> written io = received es \<and> stream_pc io = pc"
proof -
  let ?t = "NewSlidingWindowTransformer (Some (InspectWindow (active_canary pc)))"
  have "clean ?t ([] @ received es)"
    using assms(1) by (simp add: clean_def inspect_with_def NewSlidingWindowTransformer_def
        NewSlidingWindowTransformerWithConfig_def)
  from loop_clean[OF this assms(2,3)] obtain io where
    "transform_loop ?t env es [] \<lparr>effects = [], stream_pc = pc\<rparr> = (Some None, io)"
    "passes \<lparr>effects = [], stream_pc = pc\<rparr> io (received es)" by auto
  then show ?thesis
    by (auto simp: ProcessStream_def TransformStream_def passes_def written_def[of "\<lparr>effects = [], stream_pc = pc\<rparr>"])
       (simp add: perform_def)
qed

theorem clean_stream_passes_witness:
  "\<exists>io. ProcessStream plain_env (reads [''hi'', ''ho'']) None = (Some None, io) \<and>
     written io = received (reads [''hi'', ''ho'']) \<and> stream_pc io = None"
proof (rule clean_stream_passes)
  have "\<forall>w \<in> set (sublists ''hiho''). InspectWindow [] w = None" by code_simp
  moreover have "w \<in> set (sublists ''hiho'')" if "contains (received (reads [''hi'', ''ho''])) w" for w
    using that by (simp only: contains_sublist received_reads set_sublists_eq mem_Collect_eq) simp
  ultimately show "\<forall>w. contains (received (reads [''hi'', ''ho''])) w \<longrightarrow> InspectWindow (active_canary None) w = None"
    unfolding active_canary_def option.case by blast
qed (simp_all add: plain_env_def reads_def)

text \<open>
  C28: a run that trips ends with the abort and nothing after it but the deferred cancellation, whichever
  handles the caller gave: the upstream is cancelled, the error frame of one of the fixed texts is written
  (as far as the write gets) and flushed, the socket is closed when there is one, handed over or hijacked
  from the response writer, and the context carries the violation, added to what it had.
\<close>

theorem tripwire_severs_stream:
  assumes "ProcessStream env es pc = (Some (Some ErrTripwireViolation), io)"
  shows "\<exists>viol before. viol \<in> set leak_violations \<and> (\<exists>w. InspectWindow (active_canary pc) w = Some viol) \<and>
    effects io = before @ (if hasCancel env then [CancelledUpstream] else []) @
      [Wrote (case write_fails env (length (filter is_write before)) of
          None \<Rightarrow> FormatSSEErrorFrame (v_RuleID viol) (v_Message viol)
        | Some (n, _) \<Rightarrow> take n (FormatSSEErrorFrame (v_RuleID viol) (v_Message viol)))] @
      (if hasFlusher env then [Flushed] else []) @
      (if hasConn env \<or> hijackable env then [ClosedConn] else []) @
      (if hasCancel env then [CancelledUpstream] else []) \<and>
    stream_pc io = map_option (\<lambda>c. c\<lparr>MatchedRuleID := v_RuleID viol, ViolationType := ''TRIPWIRE_VIOLATION'',
      Violations := Violations c @ [\<lparr>RuleID = v_RuleID viol, Stage = ''outbound_stream_transformer'',
        Description = v_Message viol, Severity = ''CRITICAL'', Shadow = False\<rparr>]\<rparr>) pc"
proof -
  let ?t = "NewSlidingWindowTransformer (Some (InspectWindow (active_canary pc)))"
  obtain io1 where l: "transform_loop ?t env es [] \<lparr>effects = [], stream_pc = pc\<rparr> =
      (Some (Some ErrTripwireViolation), io1)" and io: "io = perform (hasCancel env) CancelledUpstream io1"
    using assms(1) by (auto simp: ProcessStream_def TransformStream_def split: prod.splits option.splits)
  from loop_trips[OF l] obtain w v io0 where v: "inspect_with ?t w = Some v"
    and a: "io1 = executeTripwireAbort env v io0" "stream_pc io0 = pc" by auto
  from v have "InspectWindow (active_canary pc) w = Some v"
    by (simp add: inspect_with_def NewSlidingWindowTransformer_def NewSlidingWindowTransformerWithConfig_def)
  moreover from InspectWindow_says[OF this] have "v \<in> set leak_violations" .
  moreover have "effects io = effects io0 @ (if hasCancel env then [CancelledUpstream] else []) @
      [Wrote (case write_fails env (length (filter is_write (effects io0))) of
          None \<Rightarrow> FormatSSEErrorFrame (v_RuleID v) (v_Message v)
        | Some (n, _) \<Rightarrow> take n (FormatSSEErrorFrame (v_RuleID v) (v_Message v)))] @
      (if hasFlusher env then [Flushed] else []) @
      (if hasConn env \<or> hijackable env then [ClosedConn] else []) @
      (if hasCancel env then [CancelledUpstream] else [])"
    by (simp add: a io executeTripwireAbort_def Let_def Write_def perform_def record_violation_def is_write_def
        split: option.split prod.split)
  moreover have "stream_pc io = stream_pc (record_violation v io0)"
    by (simp add: a io executeTripwireAbort_def Let_def Write_def perform_def record_violation_def split: option.split prod.split)
  ultimately show ?thesis unfolding record_violation_def a(2) by auto
qed

text \<open>The handles the dispatcher gives: no connection, but a writer that can be hijacked, and a context.\<close>

definition hijack_env :: stream_env where
  "hijack_env = \<lparr>hasFlusher = True, hasConn = False, hijackable = True, hasCancel = True,
     write_fails = (\<lambda>_. None)\<rparr>"

theorem tripwire_severs_stream_witness:
  "let io = snd (ProcessStream hijack_env (reads [''a SEC-CNR-1'']) (Some new_context)) in
   \<exists>viol before. viol \<in> set leak_violations \<and> (\<exists>w. InspectWindow [] w = Some viol) \<and>
    effects io = before @ [CancelledUpstream, Wrote (FormatSSEErrorFrame (v_RuleID viol) (v_Message viol)), Flushed,
      ClosedConn, CancelledUpstream] \<and>
    map_option MatchedRuleID (stream_pc io) = Some (v_RuleID viol) \<and>
    map_option ViolationType (stream_pc io) = Some ''TRIPWIRE_VIOLATION''"
proof -
  have "fst (ProcessStream hijack_env (reads [''a SEC-CNR-1'']) (Some new_context)) = Some (Some ErrTripwireViolation)"
    by code_simp
  then have "ProcessStream hijack_env (reads [''a SEC-CNR-1'']) (Some new_context) =
      (Some (Some ErrTripwireViolation), snd (ProcessStream hijack_env (reads [''a SEC-CNR-1'']) (Some new_context)))"
    by (metis prod.collapse)
  from tripwire_severs_stream[OF this] obtain viol before w where
    v: "viol \<in> set leak_violations" "InspectWindow [] w = Some viol"
    and e: "effects (snd (ProcessStream hijack_env (reads [''a SEC-CNR-1'']) (Some new_context))) = before @ [CancelledUpstream,
      Wrote (FormatSSEErrorFrame (v_RuleID viol) (v_Message viol)), Flushed, ClosedConn, CancelledUpstream]"
    and p: "map_option MatchedRuleID (stream_pc (snd (ProcessStream hijack_env (reads [''a SEC-CNR-1'']) (Some new_context)))) =
        Some (v_RuleID viol)"
      "map_option ViolationType (stream_pc (snd (ProcessStream hijack_env (reads [''a SEC-CNR-1'']) (Some new_context)))) =
        Some ''TRIPWIRE_VIOLATION''"
    by (auto simp: hijack_env_def active_canary_def new_context_def)
  show ?thesis unfolding Let_def using v e p by blast
qed

definition github_token :: bytes where
  "github_token = ''github_pat_'' @ replicate 22 (CHR ''a'') @ ''_'' @ replicate 59 (CHR ''b'')"

definition window1 :: bytes where
  "window1 = replicate 46 (CHR '' '') @ ''github_pat_'' @ replicate 22 (CHR ''a'') @ ''_'' @ replicate 48 (CHR ''b'')"

definition window2 :: bytes where
  "window2 = replicate 15 (CHR ''a'') @ ''_'' @ replicate 59 (CHR ''b'')"

lemma needed_bytes:
  "rx_needs ((=) (CHR ''A'')) reAWSAccessKey" "rx_needs ((=) (CHR ''-'')) reOpenAIKey"
  "rx_needs ((=) (CHR ''-'')) rePrivateKey" "rx_needs ((=) (CHR '':'')) reDatabaseURI"
  "rx_needs ((=) (CHR ''h'')) reGitHubToken"
  by (simp_all add: reAWSAccessKey_def reOpenAIKey_def rePrivateKey_def reDatabaseURI_def
      reGitHubToken_def)

lemma windows_pass: "InspectWindow [] window1 = None" "InspectWindow [] window2 = None"
proof -
  let ?tok = "''github_pat_'' @ replicate 22 (CHR ''a'') @ ''_'' @ replicate 48 (CHR ''b'')"
  let ?a = "Seq [Alts [Seq [Str ''ghp_'', Times 36 alnum],
     Seq [Str ''github_pat_'', Times 22 alnum, Str ''_'', AtLeast 50 alnum]], WordB]"
  have r: "reGitHubToken = Cat WordB ?a" by (simp add: reGitHubToken_def)
  have a: "rx ?a (False, ?tok) = []" "rx ?a (True, []) = []" by code_simp+
  have "list_all is_word (tl ?tok)" by code_simp
  then have "\<not> rx_scan reGitHubToken False ?tok" using scan_word_run[of "tl ?tok" ?a] a
    unfolding r by (simp del: Seq.simps Alts.simps Str.simps add: is_word_def is_lower_def byte_def)
  then have g: "\<not> rx_match reGitHubToken window1"
    unfolding rx_match_def window1_def r
    by (subst scan_no_word_run) (simp_all del: Seq.simps Alts.simps Str.simps add: is_word_def is_lower_def
       is_upper_def is_digit_def byte_def list_all_iff)
  have "set window1 \<subseteq> set '' github_pat_ab''" "set window2 \<subseteq> set '' github_pat_ab''"
    by (auto simp: window1_def window2_def)
  then have n: "c \<notin> set window1" "c \<notin> set window2" if "c \<in> set ''AS-:''" for c
    using that by auto
  have "CHR ''h'' \<notin> set window2" by (auto simp: window2_def)
  from rx_match_needs[OF needed_bytes(5) this] have g2: "\<not> rx_match reGitHubToken window2" .
  note absent = rx_match_needs[OF needed_bytes(1) n(1)] rx_match_needs[OF needed_bytes(1) n(2)]
    rx_match_needs[OF needed_bytes(2) n(1)] rx_match_needs[OF needed_bytes(2) n(2)]
    rx_match_needs[OF needed_bytes(3) n(1)] rx_match_needs[OF needed_bytes(3) n(2)]
    rx_match_needs[OF needed_bytes(4) n(1)] rx_match_needs[OF needed_bytes(4) n(2)]
  have "DLP_Detect window1 = None" "DLP_Detect window2 = None"
    unfolding DLP_Detect_None secret_patterns_def using g g2 absent by simp_all
  moreover have "\<not> contains window1 CanaryPrefix" "\<not> contains window2 CanaryPrefix"
    using n[of "CHR ''S''"] by (auto simp: CanaryPrefix_def dest!: contains_set)
  ultimately show "InspectWindow [] window1 = None" "InspectWindow [] window2 = None"
    by (simp_all add: InspectWindow_def Canary_Detect_def)
qed

text \<open>
  the bound of 65 bytes is needed. A fine-grained GitHub token has 93 bytes, and the scanner knows
  it; cut into chunks so that 82 of them fall into the first full window, it passes the transformer
  whole, and the stream ends without a tripwire.
\<close>

theorem long_token_leaks:
  "DLP_Detect github_token \<noteq> None \<and> length github_token = 93 \<and>
   fst (ProcessStream plain_env
     (reads [replicate 46 (CHR '' '') @ take 82 github_token, drop 82 github_token]) None) = Some None \<and>
   contains (written (snd (ProcessStream plain_env
     (reads [replicate 46 (CHR '' '') @ take 82 github_token, drop 82 github_token]) None))) github_token"
proof -
  let ?t = "NewSlidingWindowTransformer (Some (InspectWindow []))"
  have t: "windowSize ?t = 128" "overlapSize ?t = 64" "inspect_with ?t = InspectWindow []"
    by (simp_all add: NewSlidingWindowTransformer_def NewSlidingWindowTransformerWithConfig_def
        LookaheadWindowSize_def OverlapMarginSize_def inspect_with_def fun_eq_iff)
  have w1: "replicate 46 (CHR '' '') @ take 82 github_token = window1" "length window1 = 128"
    and w2: "drop 64 window1 @ drop 82 github_token = window2" "length window2 = 75"
    and w: "take 64 window1 @ window2 = replicate 46 (CHR '' '') @ github_token"
    by (simp_all add: github_token_def window1_def window2_def flip: replicate_add)
  have pe: "hasFlusher plain_env" "hasCancel plain_env" "write_fails plain_env = (\<lambda>_. None)"
    by (simp_all add: plain_env_def)
  have d1: "drain ?t plain_env window1 io = (None, drop 64 window1,
      perform True Flushed (perform True (Wrote (take 64 window1)) io))" for io
    using w1(2) windows_pass(1)
    by (subst drain.simps) (simp add: t Write_def pe, subst drain.simps, simp add: t)
  have ne: "window1 \<noteq> []" "window2 \<noteq> []" "drop 82 github_token \<noteq> []"
    using w1(2) w2(2) by (auto simp: github_token_def)
  have d2: "drain ?t plain_env window2 io = (None, window2, io)" for io
    using w2(2) by (subst drain.simps) (simp add: t)
  have "transform_loop ?t plain_env (reads [window1, drop 82 github_token]) [] io =
      (Some None, perform True Flushed (perform True (Wrote window2)
        (perform True Flushed (perform True (Wrote (take 64 window1)) io))))" for io
    using windows_pass(2) ne by (simp add: reads_def d1 w2(1) d2 finish_def t Write_def pe)
  then have "ProcessStream plain_env (reads [window1, drop 82 github_token]) None = (Some None,
      perform True CancelledUpstream (perform True Flushed (perform True (Wrote window2)
        (perform True Flushed (perform True (Wrote (take 64 window1)) \<lparr>effects = [], stream_pc = None\<rparr>)))))"
    by (simp add: ProcessStream_def TransformStream_def active_canary_def pe)
  moreover have "rx_match reGitHubToken github_token" by code_simp
  ultimately show ?thesis
    unfolding w1(1) by (simp add: written_def[of "\<lparr>effects = [], stream_pc = None\<rparr>"] w contains_append_I2
        contains_sublist)
      (simp add: DLP_Detect_def github_token_def)
qed

text \<open>
  C29: a synchronous body is released exactly when it holds neither the canary token nor the prefix of
  canary tokens, no credential expression matches it, and the validator accepts it.
\<close>

theorem inspect_sync_releases_iff:
  "InspectSync why body pc = None \<longleftrightarrow>
     \<not> (active_canary pc \<noteq> [] \<and> contains body (active_canary pc)) \<and> \<not> contains body CanaryPrefix \<and>
     list_all (\<lambda>r. \<not> rx_match r body) secret_patterns \<and> Validate body = None"
  unfolding DLP_Detect_None[symmetric]
  by (auto simp: InspectSync_def Canary_Detect_def split: option.splits)

end
