(* ===== verification/Audit_Record.thy ===== *)
theory Audit_Record
  imports Json_Decode Json_Text Sha256 Go_Bufio
begin

text \<open>
  The records of the audit journal (\<open>internal/audit/ledger.go\<close>) and its verifier
  (\<open>internal/audit/verify.go\<close>): hashes, the JSON line of a record, and \<open>VerifyChain\<close> on the bytes of a
  file.
\<close>

section \<open>Records and hashes\<close>

definition DefaultHMACKey :: bytes where
  "DefaultHMACKey = ''guardrail-proxy-hmac-sha256-audit-secret-key-32b''"

record AuditRecord =
  ar_SequenceID :: u64
  ar_Timestamp :: int
  ar_NodeID :: string
  ar_BootEpoch :: int
  ar_TenantID :: string
  ar_SessionID :: string
  ar_Action :: string
  ar_RequestHash :: string
  ar_ResponseHash :: string
  ar_PrevHash :: string
  ar_EntryHash :: string

definition zero_record :: AuditRecord where
  "zero_record = \<lparr>ar_SequenceID = 0, ar_Timestamp = 0, ar_NodeID = [], ar_BootEpoch = 0, ar_TenantID = [],
     ar_SessionID = [], ar_Action = [], ar_RequestHash = [], ar_ResponseHash = [], ar_PrevHash = [], ar_EntryHash = []\<rparr>"

definition genesis_message :: "string \<Rightarrow> int \<Rightarrow> bytes" where
  "genesis_message nodeID bootEpoch = ''GENESIS:'' @ nodeID @ '':'' @ dec_int bootEpoch"

definition ComputeGenesisHash :: "string \<Rightarrow> int \<Rightarrow> string" where
  "ComputeGenesisHash nodeID bootEpoch = hex_encode (sha256 (genesis_message nodeID bootEpoch))"

definition entry_message :: "string \<Rightarrow> u64 \<Rightarrow> int \<Rightarrow> string \<Rightarrow> string \<Rightarrow> string \<Rightarrow> string \<Rightarrow> bytes" where
  "entry_message prevHash seq ts tenantID action reqHash respHash =
     prevHash @ '':'' @ dec_nat (unat seq) @ '':'' @ dec_int ts @ '':'' @ tenantID @ '':'' @ action @ '':'' @
     reqHash @ '':'' @ respHash"

definition ComputeEntryHash ::
  "bytes \<Rightarrow> string \<Rightarrow> u64 \<Rightarrow> int \<Rightarrow> string \<Rightarrow> string \<Rightarrow> string \<Rightarrow> string \<Rightarrow> string" where
  "ComputeEntryHash hmacKey prevHash seq ts tenantID action reqHash respHash =
     hex_encode (hmac_sha256 hmacKey (entry_message prevHash seq ts tenantID action reqHash respHash))"

definition record_message :: "AuditRecord \<Rightarrow> bytes" where
  "record_message r = entry_message (ar_PrevHash r) (ar_SequenceID r) (ar_Timestamp r) (ar_TenantID r)
     (ar_Action r) (ar_RequestHash r) (ar_ResponseHash r)"

definition expected_hash :: "bytes \<Rightarrow> AuditRecord \<Rightarrow> string" where
  "expected_hash key r = ComputeEntryHash key (ar_PrevHash r) (ar_SequenceID r) (ar_Timestamp r) (ar_TenantID r)
     (ar_Action r) (ar_RequestHash r) (ar_ResponseHash r)"

section \<open>The JSON line of a record\<close>

definition opt_string :: "bytes \<Rightarrow> string \<Rightarrow> (bytes \<times> json) list" where
  "opt_string k s = (if s = [] then [] else [(k, JStr s)])"

definition opt_int :: "bytes \<Rightarrow> int \<Rightarrow> (bytes \<times> json) list" where
  "opt_int k i = (if i = 0 then [] else [(k, JNum (dec_int i))])"

definition record_json :: "AuditRecord \<Rightarrow> json" where
  "record_json r = JObj
     ([(''seq'', JNum (dec_nat (unat (ar_SequenceID r)))), (''ts'', JNum (dec_int (ar_Timestamp r)))] @
      opt_string ''node_id'' (ar_NodeID r) @ opt_int ''boot_epoch'' (ar_BootEpoch r) @
      opt_string ''tenant'' (ar_TenantID r) @ opt_string ''session'' (ar_SessionID r) @
      [(''action'', JStr (ar_Action r))] @
      opt_string ''req_hash'' (ar_RequestHash r) @ opt_string ''resp_hash'' (ar_ResponseHash r) @
      [(''prev_hash'', JStr (ar_PrevHash r)), (''hash'', JStr (ar_EntryHash r))])"

definition marshal_record :: "AuditRecord \<Rightarrow> bytes" where
  "marshal_record r = render (record_json r)"

definition parse_uint64 :: "bytes \<Rightarrow> nat option" where
  "parse_uint64 s =
     (if s = [] \<or> \<not> list_all is_digit s then None
      else if dec_value s < 2 ^ 64 then Some (dec_value s) else None)"

definition store_uint64 :: "json \<Rightarrow> u64 \<Rightarrow> u64 \<times> bool" where
  "store_uint64 v old =
     (case v of
        JNull \<Rightarrow> (old, False)
      | JNum n \<Rightarrow> (case parse_uint64 n of Some i \<Rightarrow> (of_nat i, False) | None \<Rightarrow> (old, True))
      | _ \<Rightarrow> (old, True))"

definition record_fields :: "(bytes \<times> (json \<Rightarrow> AuditRecord \<Rightarrow> AuditRecord \<times> bool)) list" where
  "record_fields =
     [(''seq'', at_field ar_SequenceID (\<lambda>y. ar_SequenceID_update (\<lambda>_. y)) store_uint64),
      (''ts'', at_field ar_Timestamp (\<lambda>y. ar_Timestamp_update (\<lambda>_. y)) store_int),
      (''node_id'', at_field ar_NodeID (\<lambda>y. ar_NodeID_update (\<lambda>_. y)) store_string),
      (''boot_epoch'', at_field ar_BootEpoch (\<lambda>y. ar_BootEpoch_update (\<lambda>_. y)) store_int),
      (''tenant'', at_field ar_TenantID (\<lambda>y. ar_TenantID_update (\<lambda>_. y)) store_string),
      (''session'', at_field ar_SessionID (\<lambda>y. ar_SessionID_update (\<lambda>_. y)) store_string),
      (''action'', at_field ar_Action (\<lambda>y. ar_Action_update (\<lambda>_. y)) store_string),
      (''req_hash'', at_field ar_RequestHash (\<lambda>y. ar_RequestHash_update (\<lambda>_. y)) store_string),
      (''resp_hash'', at_field ar_ResponseHash (\<lambda>y. ar_ResponseHash_update (\<lambda>_. y)) store_string),
      (''prev_hash'', at_field ar_PrevHash (\<lambda>y. ar_PrevHash_update (\<lambda>_. y)) store_string),
      (''hash'', at_field ar_EntryHash (\<lambda>y. ar_EntryHash_update (\<lambda>_. y)) store_string)]"

definition unmarshal_record :: "bytes \<Rightarrow> AuditRecord option" where
  "unmarshal_record line =
     (case json_parse line of
        None \<Rightarrow> None
      | Some v \<Rightarrow> (case store_struct record_fields v zero_record of (r, failed) \<Rightarrow> if failed then None else Some r))"

section \<open>The verifier\<close>

datatype verify_error =
    OpenFailed
  | MalformedJSON u64
  | GenesisMismatch string string
  | SequenceGap u64 u64 u64
  | PrevMismatch u64 string string
  | EntryInvalid u64 string string
  | ReadFailed

record verify_state =
  v_prevHash :: string
  v_lastSeq :: u64
  v_count :: u64

definition verify_start :: verify_state where
  "verify_start = \<lparr>v_prevHash = [], v_lastSeq = 0, v_count = 0\<rparr>"

definition verify_record :: "bytes \<Rightarrow> AuditRecord \<Rightarrow> verify_state \<Rightarrow> verify_error + verify_state" where
  "verify_record key rec st =
     (if ar_SequenceID rec = 0 then
        (let expectedH0 = ComputeGenesisHash (ar_NodeID rec) (ar_BootEpoch rec) in
         if ar_EntryHash rec \<noteq> expectedH0 then Inl (GenesisMismatch expectedH0 (ar_EntryHash rec))
         else Inr \<lparr>v_prevHash = ar_EntryHash rec, v_lastSeq = 0, v_count = v_count st + 1\<rparr>)
      else
        let st1 = (if v_count st = 0
                   then st\<lparr>v_prevHash := ar_PrevHash rec, v_lastSeq := ar_SequenceID rec - 1\<rparr> else st) in
        if ar_SequenceID rec \<noteq> v_lastSeq st1 + 1
        then Inl (SequenceGap (v_count st1 + 1) (v_lastSeq st1 + 1) (ar_SequenceID rec))
        else if ar_PrevHash rec \<noteq> v_prevHash st1
        then Inl (PrevMismatch (ar_SequenceID rec) (v_prevHash st1) (ar_PrevHash rec))
        else
          let expectedHash = expected_hash key rec in
          if ar_EntryHash rec \<noteq> expectedHash
          then Inl (EntryInvalid (ar_SequenceID rec) expectedHash (ar_EntryHash rec))
          else Inr \<lparr>v_prevHash = ar_EntryHash rec, v_lastSeq = ar_SequenceID rec,
                    v_count = v_count st1 + 1\<rparr>)"

text \<open>The loop over the scanned lines; on an error the number of records verified before it is kept.\<close>

fun verify_lines :: "bytes \<Rightarrow> bytes list \<Rightarrow> verify_state \<Rightarrow> (u64 \<times> verify_error) + verify_state" where
  "verify_lines key [] st = Inr st"
| "verify_lines key (l # ls) st =
     (let line = trim_space l in
      if line = [] then verify_lines key ls st
      else case unmarshal_record line of
        None \<Rightarrow> Inl (v_count st, MalformedJSON (v_count st + 1))
      | Some rec \<Rightarrow>
          (case verify_record key rec st of
             Inl e \<Rightarrow> Inl (v_count st, e)
           | Inr st1 \<Rightarrow> verify_lines key ls st1))"

definition verify_key :: "bytes \<Rightarrow> bytes" where
  "verify_key hmacKey = (if hmacKey = [] then DefaultHMACKey else hmacKey)"

definition VerifyBuffer :: nat where "VerifyBuffer = 10 * 1024 * 1024"

text \<open>\<open>file\<close> is the content of the file, \<open>None\<close> if it cannot be opened.\<close>

definition VerifyChain :: "bytes option \<Rightarrow> bytes \<Rightarrow> bool \<times> u64 \<times> verify_error option" where
  "VerifyChain file hmacKey =
     (case file of
        None \<Rightarrow> (False, 0, Some OpenFailed)
      | Some content \<Rightarrow>
          (case scan_lines VerifyBuffer content of (ls, too_long) \<Rightarrow>
             case verify_lines (verify_key hmacKey) ls verify_start of
               Inl (n, e) \<Rightarrow> (False, n, Some e)
             | Inr st \<Rightarrow> if too_long then (False, v_count st, Some ReadFailed)
                         else (True, v_count st, None)))"

section \<open>Reading back what was written\<close>

text \<open>Records that JSON gives back as they were: strings are valid UTF-8, times fit into 64 bits. Node, tenant and
  action come from the configuration and the code, hashes are hexadecimal; the session id comes from a header
  of the client and need not be valid UTF-8, in which case the marshalled record does not read back.\<close>

definition record_ok :: "AuditRecord \<Rightarrow> bool" where
  "record_ok r \<longleftrightarrow> in_int64 (ar_Timestamp r) \<and> in_int64 (ar_BootEpoch r) \<and>
     list_all valid_utf8 [ar_NodeID r, ar_TenantID r, ar_SessionID r, ar_Action r, ar_RequestHash r,
       ar_ResponseHash r, ar_PrevHash r, ar_EntryHash r]"

lemma parse_uint64_dec: "n < 2 ^ 64 \<Longrightarrow> parse_uint64 (dec_nat n) = Some n"
  using digits_all[of n] by (simp add: parse_uint64_def)

lemma plain_keys:
  "plain_key ''seq''" "plain_key ''ts''" "plain_key ''node_id''" "plain_key ''boot_epoch''" "plain_key ''tenant''"
  "plain_key ''session''" "plain_key ''action''" "plain_key ''req_hash''" "plain_key ''resp_hash''"
  "plain_key ''prev_hash''" "plain_key ''hash''"
  by (simp_all add: plain_key_def is_lower_def byte_def)

lemma store_members_append:
  "store_members fs (kvs @ kvs') x =
     (case store_members fs kvs x of (y, e) \<Rightarrow> case store_members fs kvs' y of (z, e') \<Rightarrow> (z, e \<or> e'))"
  by (induction fs kvs x rule: store_members.induct) (auto split: option.splits prod.splits)

lemmas decode_simps = record_fields_def key_matches_plain plain_keys at_field_def store_uint64_def store_int_def
  store_string_def parse_uint64_dec parse_int64_dec

lemma store_record_json:
  assumes "in_int64 (ar_Timestamp r)" and "in_int64 (ar_BootEpoch r)"
  shows "store_struct record_fields (record_json r) zero_record = (r, False)"
proof -
  have seq: "unat (ar_SequenceID r) < 2 ^ 64"
    using unsigned_less[of "ar_SequenceID r"] by simp
  show ?thesis
    using assms seq
    by (simp add: store_struct_def record_json_def store_members_append opt_string_def opt_int_def decode_simps)
       (simp add: zero_record_def)
qed

lemma record_json_good: "record_ok r \<Longrightarrow> good 0 (record_json r)"
proof -
  assume r: "record_ok r"
  have k: "valid_utf8 k" if "plain_key k" for k
    using that by (intro valid_ascii_text) (auto simp: plain_key_def list_all_iff is_lower_def is_ascii_def byte_def)
  have n: "good 1 (JNum (dec_nat m))" "good 1 (JNum (dec_int i))" for m i
    using numbers_ok_dec_nat[of m] numbers_ok_dec_int[of i] by (simp_all add: good_atom(4) max_depth_def)
  have s: "good 1 (JStr x) \<longleftrightarrow> valid_utf8 x" for x by (simp add: good_atom(3) max_depth_def)
  show ?thesis
    unfolding record_json_def good_obj
    using r by (simp add: record_ok_def opt_string_def opt_int_def k plain_keys n[simplified] s[simplified] max_depth_def)
qed

lemma record_numbers: "numbers_ok (record_json r)"
  unfolding record_json_def opt_string_def opt_int_def numbers_ok.simps(3)
  using numbers_ok_dec_nat numbers_ok_dec_int by (auto simp del: numbers_ok.simps(1))

lemma marshal_shape: "\<exists>s. marshal_record r = CHR 0x7B # s @ [CHR 0x7D]"
  by (simp add: marshal_record_def record_json_def)

lemma trim_marshal [simp]: "trim_space (marshal_record r) = marshal_record r"
  using marshal_shape[of r] trim_object by auto

lemma trim_marshal_fun [simp]: "trim_space \<circ> marshal_record = marshal_record"
  by (simp add: fun_eq_iff)

lemma marshal_nonempty [simp]: "marshal_record r \<noteq> []"
  using marshal_shape[of r] by auto

lemma marshal_plain: "length (marshal_record r) < buf \<Longrightarrow> plain_line buf (marshal_record r)"
proof -
  assume l: "length (marshal_record r) < buf"
  have "printable (marshal_record r)" unfolding marshal_record_def by (rule render_printable[OF record_numbers])
  then have "line_end \<notin> set (marshal_record r)" by (auto simp: printable_def list_all_iff byte_def)
  moreover have "drop_cr (marshal_record r) = marshal_record r"
    using marshal_shape[of r] by (auto simp: drop_cr_def)
  ultimately show ?thesis using l by (simp add: plain_line_def)
qed

lemma unmarshal_marshal: "record_ok r \<Longrightarrow> unmarshal_record (marshal_record r) = Some r"
  using parse_render_good[OF record_json_good] store_record_json[of r]
  by (simp add: unmarshal_record_def marshal_record_def record_ok_def del: render.simps)

section \<open>Chains of records\<close>

fun verify_records :: "bytes \<Rightarrow> AuditRecord list \<Rightarrow> verify_state \<Rightarrow> (u64 \<times> verify_error) + verify_state" where
  "verify_records key [] st = Inr st"
| "verify_records key (r # rs) st =
     (case verify_record key r st of Inl e \<Rightarrow> Inl (v_count st, e) | Inr st1 \<Rightarrow> verify_records key rs st1)"

lemma verify_marshaled:
  "list_all record_ok rs \<Longrightarrow> verify_lines key (map marshal_record rs) st = verify_records key rs st"
  by (induction rs arbitrary: st) (auto simp: unmarshal_marshal split: sum.splits)

lemma verify_records_append:
  "verify_records key (rs @ ss) st = (case verify_records key rs st of Inl e \<Rightarrow> Inl e | Inr st1 \<Rightarrow> verify_records key ss st1)"
  by (induction rs arbitrary: st) (auto split: sum.splits)

lemma verify_file:
  assumes "list_all record_ok rs" and "list_all (\<lambda>r. length (marshal_record r) < VerifyBuffer) rs"
    and "verify_records (verify_key key) rs verify_start = Inr st"
  shows "VerifyChain (Some (as_lines (map marshal_record rs))) key = (True, v_count st, None)"
proof -
  have "list_all (plain_line VerifyBuffer) (map marshal_record rs)"
    using assms(2) by (auto simp: list_all_iff marshal_plain)
  from scan_as_lines[OF this] show ?thesis
    using verify_marshaled[OF assms(1), of "verify_key key" verify_start] assms(3) by (simp add: VerifyChain_def)
qed

end
