(* ===== verification/Ring_Buffer.thy ===== *)
theory Ring_Buffer
  imports Prelude "HOL-Library.Sublist"
begin

text \<open>
  \<open>RingBuffer\<close> of \<open>internal/audit/ledger.go\<close>: the lock-free ring buffer with many producers and one
  consumer, as a step relation whose steps are the single atomic operations of \<open>TryPush\<close> and \<open>Pop\<close>
  (Go's atomics are sequentially consistent). The counters are 64-bit words. Two fields that the code
  does not have record the history: \<open>pushed\<close>, the records in the order in which their slots were
  reserved, and \<open>popped\<close>, the records that \<open>Pop\<close> has returned.
\<close>

unbundle bit_operations_syntax

section \<open>State\<close>

definition RingBufferSize :: nat where "RingBufferSize = 65536"
definition ringBufferMask :: u64 where "ringBufferMask = 65535"

text \<open>Where a producer is in \<open>TryPush\<close>, and the consumer in \<open>Pop\<close>, with their local variables.\<close>

datatype 'r producer =
    PIdle
  | PStart 'r
  | PHead 'r u64
  | PBoth 'r u64 u64
  | PReserved 'r u64
  | PStored 'r
  | PDone 'r bool

datatype 'r consumer =
    CIdle
  | CTail u64
  | CLoad u64 nat
  | CGot u64 'r
  | CCleared u64 'r
  | CDone "'r option"

record 'r ring =
  head :: u64
  tail :: u64
  slots :: "nat \<Rightarrow> 'r option"
  notify :: bool
  producers :: "nat \<Rightarrow> 'r producer"
  consumer :: "'r consumer"
  pushed :: "'r list"
  popped :: "'r list"

definition NewRingBuffer :: "'r ring" where
  "NewRingBuffer = \<lparr>head = 0, tail = 0, slots = (\<lambda>_. None), notify = False, producers = (\<lambda>_. PIdle),
     consumer = CIdle, pushed = [], popped = []\<rparr>"

definition slot_of :: "u64 \<Rightarrow> nat" where "slot_of w = unat (w AND ringBufferMask)"

definition set_producer :: "nat \<Rightarrow> 'r producer \<Rightarrow> 'r ring \<Rightarrow> 'r ring" where
  "set_producer p c s = s\<lparr>producers := (producers s)(p := c)\<rparr>"

section \<open>Steps\<close>

text \<open>\<open>TryPush\<close>, one rule per atomic operation of the loop.\<close>

inductive push_step :: "nat \<Rightarrow> 'r ring \<Rightarrow> 'r ring \<Rightarrow> bool" for p :: nat where
  call: "producers s p = PIdle \<Longrightarrow> push_step p s (set_producer p (PStart rec) s)"
| load_head: "producers s p = PStart rec \<Longrightarrow> push_step p s (set_producer p (PHead rec (head s)) s)"
| load_tail: "producers s p = PHead rec h \<Longrightarrow> push_step p s (set_producer p (PBoth rec h (tail s)) s)"
| full: "producers s p = PBoth rec h t \<Longrightarrow> h - t \<ge> of_nat RingBufferSize \<Longrightarrow>
    push_step p s (set_producer p (PDone rec False) s)"
| cas: "producers s p = PBoth rec h t \<Longrightarrow> h - t < of_nat RingBufferSize \<Longrightarrow> head s = h \<Longrightarrow>
    push_step p s (set_producer p (PReserved rec h) (s\<lparr>head := h + 1, pushed := pushed s @ [rec]\<rparr>))"
| cas_fails: "producers s p = PBoth rec h t \<Longrightarrow> h - t < of_nat RingBufferSize \<Longrightarrow> head s \<noteq> h \<Longrightarrow>
    push_step p s (set_producer p (PStart rec) s)"
| store: "producers s p = PReserved rec h \<Longrightarrow>
    push_step p s (set_producer p (PStored rec) (s\<lparr>slots := (slots s)(slot_of h := Some rec)\<rparr>))"
| notifies: "producers s p = PStored rec \<Longrightarrow>
    push_step p s (set_producer p (PDone rec True) (s\<lparr>notify := True\<rparr>))"
| returns: "producers s p = PDone rec b \<Longrightarrow> push_step p s (set_producer p PIdle s)"

text \<open>\<open>Pop\<close>: the slot is loaded once and then at most 100 times more.\<close>

inductive pop_step :: "'r ring \<Rightarrow> 'r ring \<Rightarrow> bool" where
  pop_tail: "consumer s = CIdle \<Longrightarrow> pop_step s (s\<lparr>consumer := CTail (tail s)\<rparr>)"
| pop_empty: "consumer s = CTail t \<Longrightarrow> t \<ge> head s \<Longrightarrow> pop_step s (s\<lparr>consumer := CDone None\<rparr>)"
| pop_head: "consumer s = CTail t \<Longrightarrow> t < head s \<Longrightarrow> pop_step s (s\<lparr>consumer := CLoad t 0\<rparr>)"
| pop_load: "consumer s = CLoad t n \<Longrightarrow> slots s (slot_of t) = Some rec \<Longrightarrow>
    pop_step s (s\<lparr>consumer := CGot t rec\<rparr>)"
| pop_retry: "consumer s = CLoad t n \<Longrightarrow> slots s (slot_of t) = None \<Longrightarrow> n < 100 \<Longrightarrow>
    pop_step s (s\<lparr>consumer := CLoad t (Suc n)\<rparr>)"
| pop_gives_up: "consumer s = CLoad t n \<Longrightarrow> slots s (slot_of t) = None \<Longrightarrow> \<not> n < 100 \<Longrightarrow>
    pop_step s (s\<lparr>consumer := CDone None\<rparr>)"
| pop_clear: "consumer s = CGot t rec \<Longrightarrow>
    pop_step s (s\<lparr>slots := (slots s)(slot_of t := None), consumer := CCleared t rec\<rparr>)"
| pop_advance: "consumer s = CCleared t rec \<Longrightarrow>
    pop_step s (s\<lparr>tail := t + 1, consumer := CDone (Some rec), popped := popped s @ [rec]\<rparr>)"
| pop_returns: "consumer s = CDone r \<Longrightarrow> pop_step s (s\<lparr>consumer := CIdle\<rparr>)"

inductive rb_step :: "'r ring \<Rightarrow> 'r ring \<Rightarrow> bool" where
  producer_step: "push_step p s s' \<Longrightarrow> rb_step s s'"
| consumer_step: "pop_step s s' \<Longrightarrow> rb_step s s'"

inductive rb_reachable :: "'r ring \<Rightarrow> bool" where
  rb_init: "rb_reachable NewRingBuffer"
| rb_next: "rb_reachable s \<Longrightarrow> rb_step s s' \<Longrightarrow> rb_reachable s'"

inductive_cases push_stepE: "push_step p s s'"
inductive_cases pop_stepE: "pop_step s s'"
inductive_cases rb_stepE: "rb_step s s'"

section \<open>Positions and slots\<close>

lemma unat_pos: "i < 2 ^ 64 \<Longrightarrow> unat (of_nat i :: u64) = i"
  by (simp add: unat_of_nat take_bit_nat_eq_self_iff)

lemma pos_inject: "i < 2 ^ 64 \<Longrightarrow> j < 2 ^ 64 \<Longrightarrow> (of_nat i :: u64) = of_nat j \<longleftrightarrow> i = j"
  by (metis unat_pos)

lemma slot_of_pos: "i < 2 ^ 64 \<Longrightarrow> slot_of (of_nat i) = i mod RingBufferSize"
proof -
  assume i: "i < 2 ^ 64"
  have "unat (of_nat i AND (65535 :: u64)) = unat (take_bit 16 (of_nat i :: u64))"
    by (simp add: take_bit_eq_mask mask_eq_exp_minus_1)
  also have "\<dots> = take_bit 16 (unat (of_nat i :: u64))" by (rule unsigned_take_bit_eq)
  also have "\<dots> = i mod 65536" using i by (simp only: unat_pos take_bit_eq_mod) simp
  finally show ?thesis by (simp add: slot_of_def ringBufferMask_def RingBufferSize_def)
qed

lemma pos_diff: "k \<le> i \<Longrightarrow> i < 2 ^ 64 \<Longrightarrow> unat (of_nat i - of_nat k :: u64) = i - k"
  by (simp add: unat_pos flip: of_nat_diff)

lemma slot_inject:
  "i mod RingBufferSize = j mod RingBufferSize \<Longrightarrow> a \<le> i \<Longrightarrow> i < a + RingBufferSize \<Longrightarrow>
   a \<le> j \<Longrightarrow> j < a + RingBufferSize \<Longrightarrow> i = j"
proof -
  assume h: "i mod RingBufferSize = j mod RingBufferSize" "a \<le> i" "i < a + RingBufferSize" "a \<le> j" "j < a + RingBufferSize"
  then have "int RingBufferSize dvd int i - int j"
    by (metis mod_eq_dvd_iff of_nat_mod)
  moreover have "\<bar>int i - int j\<bar> < int RingBufferSize" using h by linarith
  ultimately show "i = j" by (metis abs_dvd_iff dvd_imp_le_int eq_iff_diff_eq_0 linorder_not_le of_nat_eq_iff abs_of_nat)
qed

section \<open>The invariant\<close>

text \<open>The position that the consumer has to clear next: its own slot is already empty between the
  clearing and the advance of the tail.\<close>

definition low :: "'r ring \<Rightarrow> nat" where
  "low s = length (popped s) + (case consumer s of CCleared t r \<Rightarrow> 1 | _ \<Rightarrow> 0)"

definition counters_ok :: "'r ring \<Rightarrow> bool" where
  "counters_ok s \<longleftrightarrow> head s = of_nat (length (pushed s)) \<and> tail s = of_nat (length (popped s)) \<and>
     length (popped s) \<le> length (pushed s) \<and> length (pushed s) \<le> length (popped s) + RingBufferSize \<and>
     popped s = take (length (popped s)) (pushed s)"

text \<open>Every reserved position is either stored in its slot or about to be stored by one producer.\<close>

definition pending :: "'r ring \<Rightarrow> nat \<Rightarrow> nat \<Rightarrow> bool" where
  "pending s p i \<longleftrightarrow> low s \<le> i \<and> i < length (pushed s) \<and> producers s p = PReserved (pushed s ! i) (of_nat i)"

definition slots_ok :: "'r ring \<Rightarrow> bool" where
  "slots_ok s \<longleftrightarrow>
     (\<forall>i. low s \<le> i \<and> i < length (pushed s) \<longrightarrow>
        slots s (i mod RingBufferSize) = Some (pushed s ! i) \<and> (\<forall>p. \<not> pending s p i) \<or>
        slots s (i mod RingBufferSize) = None \<and> (\<exists>p. pending s p i)) \<and>
     (\<forall>p rec h. producers s p = PReserved rec h \<longrightarrow> (\<exists>i. pending s p i)) \<and>
     (\<forall>p q i. pending s p i \<and> pending s q i \<longrightarrow> p = q) \<and>
     (\<forall>j rec. slots s j = Some rec \<longrightarrow> (\<exists>i. low s \<le> i \<and> i < length (pushed s) \<and> j = i mod RingBufferSize))"

fun place_ok :: "nat \<Rightarrow> nat \<Rightarrow> 'r producer \<Rightarrow> bool" where
  "place_ok H T (PHead rec h) \<longleftrightarrow> (\<exists>i \<le> H. h = of_nat i)"
| "place_ok H T (PBoth rec h t) \<longleftrightarrow> (\<exists>i \<le> H. h = of_nat i) \<and> (\<exists>k \<le> T. t = of_nat k)"
| "place_ok H T _ \<longleftrightarrow> True"

definition locals_ok :: "'r ring \<Rightarrow> bool" where
  "locals_ok s \<longleftrightarrow> (\<forall>p. place_ok (length (pushed s)) (length (popped s)) (producers s p))"

lemma place_ok_mono: "place_ok H T c \<Longrightarrow> H \<le> H' \<Longrightarrow> T \<le> T' \<Longrightarrow> place_ok H' T' c"
  by (cases c) (auto intro: order_trans)

fun at_place :: "nat \<Rightarrow> 'r list \<Rightarrow> (nat \<Rightarrow> 'r option) \<Rightarrow> 'r consumer \<Rightarrow> bool" where
  "at_place T rs sl (CTail t) \<longleftrightarrow> t = of_nat T"
| "at_place T rs sl (CLoad t n) \<longleftrightarrow> t = of_nat T \<and> T < length rs"
| "at_place T rs sl (CGot t rec) \<longleftrightarrow> t = of_nat T \<and> T < length rs \<and> sl (T mod RingBufferSize) = Some rec"
| "at_place T rs sl (CCleared t rec) \<longleftrightarrow> t = of_nat T \<and> T < length rs \<and> rec = rs ! T"
| "at_place T rs sl _ \<longleftrightarrow> True"

definition consumer_ok :: "'r ring \<Rightarrow> bool" where
  "consumer_ok s \<longleftrightarrow> at_place (length (popped s)) (pushed s) (slots s) (consumer s)"

definition rb_inv :: "'r ring \<Rightarrow> bool" where
  "rb_inv s \<longleftrightarrow> counters_ok s \<and> slots_ok s \<and> locals_ok s \<and> consumer_ok s"

lemmas inv_parts = rb_inv_def counters_ok_def slots_ok_def locals_ok_def consumer_ok_def

lemma rb_inv_init: "rb_inv NewRingBuffer"
  by (auto simp: inv_parts NewRingBuffer_def pending_def)

text \<open>A step of a producer that changes only its own place, away from a reservation.\<close>

fun reserved :: "'r producer \<Rightarrow> bool" where
  "reserved (PReserved rec h) \<longleftrightarrow> True"
| "reserved _ \<longleftrightarrow> False"

lemma reserved_iff: "reserved c \<longleftrightarrow> (\<exists>rec h. c = PReserved rec h)"
  by (cases c) auto

lemma set_producer_fields [simp]:
  "head (set_producer p c s) = head s" "tail (set_producer p c s) = tail s"
  "slots (set_producer p c s) = slots s" "consumer (set_producer p c s) = consumer s"
  "pushed (set_producer p c s) = pushed s" "popped (set_producer p c s) = popped s"
  "producers (set_producer p c s) = (producers s)(p := c)"
  by (simp_all add: set_producer_def)

lemma local_step_inv:
  assumes "rb_inv s" and "\<not> reserved (producers s p)" and "\<not> reserved c"
    and "place_ok (length (pushed s)) (length (popped s)) c"
  shows "rb_inv (set_producer p c s)"
proof -
  have low: "low (set_producer p c s) = low s" by (simp add: low_def)
  have pend: "pending (set_producer p c s) q i = pending s q i" for q i
    using assms(2,3) by (auto simp: pending_def low reserved_iff)
  have res: "producers (set_producer p c s) q = PReserved rec h \<longleftrightarrow> producers s q = PReserved rec h" for q rec h
    using assms(2,3) by (auto simp: reserved_iff)
  have "slots_ok (set_producer p c s)"
    using assms(1) unfolding rb_inv_def slots_ok_def pend low res by simp
  then show ?thesis using assms(1,4) by (simp add: rb_inv_def counters_ok_def consumer_ok_def locals_ok_def)
qed

lemma slots_okD:
  assumes "slots_ok s"
  shows "low s \<le> i \<Longrightarrow> i < length (pushed s) \<Longrightarrow>
      slots s (i mod RingBufferSize) = Some (pushed s ! i) \<and> (\<forall>p. \<not> pending s p i) \<or>
      slots s (i mod RingBufferSize) = None \<and> (\<exists>p. pending s p i)"
    and "producers s p = PReserved rec h \<Longrightarrow> \<exists>i. pending s p i"
    and "pending s p i \<Longrightarrow> pending s q i \<Longrightarrow> p = q"
    and "slots s j = Some rec \<Longrightarrow> \<exists>i. low s \<le> i \<and> i < length (pushed s) \<and> j = i mod RingBufferSize"
  using assms unfolding slots_ok_def by blast+

lemma slots_okI:
  assumes "\<And>i. low s \<le> i \<Longrightarrow> i < length (pushed s) \<Longrightarrow>
      slots s (i mod RingBufferSize) = Some (pushed s ! i) \<and> (\<forall>p. \<not> pending s p i) \<or>
      slots s (i mod RingBufferSize) = None \<and> (\<exists>p. pending s p i)"
    and "\<And>p rec h. producers s p = PReserved rec h \<Longrightarrow> \<exists>i. pending s p i"
    and "\<And>p q i. pending s p i \<Longrightarrow> pending s q i \<Longrightarrow> p = q"
    and "\<And>j rec. slots s j = Some rec \<Longrightarrow> \<exists>i. low s \<le> i \<and> i < length (pushed s) \<and> j = i mod RingBufferSize"
  shows "slots_ok s"
  using assms unfolding slots_ok_def by blast

lemma low_bounds: "counters_ok s \<Longrightarrow> length (popped s) \<le> low s \<and> length (pushed s) \<le> low s + RingBufferSize"
  by (auto simp: counters_ok_def low_def split: consumer.splits)

text \<open>The reservation: a stale tail only makes the test stricter, so the slot is free.\<close>

lemma cas_inv:
  assumes inv: "rb_inv s" and place: "producers s p = PBoth rec h t" and room: "h - t < of_nat RingBufferSize"
    and won: "head s = h" and bound: "Suc (length (pushed s)) < 2 ^ 64"
  shows "rb_inv (set_producer p (PReserved rec h) (s\<lparr>head := h + 1, pushed := pushed s @ [rec]\<rparr>))"
    (is "rb_inv ?s")
proof -
  let ?H = "length (pushed s)" and ?T = "length (popped s)"
  have c: "counters_ok s" and sl: "slots_ok s" and lo: "locals_ok s" and co: "consumer_ok s"
    using inv by (simp_all add: rb_inv_def)
  have h: "h = of_nat ?H" using c won by (simp add: counters_ok_def)
  obtain k where k: "k \<le> ?T" "t = of_nat k" using lo place by (fastforce simp: locals_ok_def dest: spec[of _ p])
  have T: "?T \<le> ?H" using c by (simp add: counters_ok_def)
  have "unat (h - t) < RingBufferSize"
    using room by (simp add: word_less_nat_alt RingBufferSize_def)
  then have room': "?H < ?T + RingBufferSize"
    using pos_diff[of k ?H] k T bound h by simp
  have low: "low ?s = low s" by (simp add: low_def)
  have pend: "pending ?s q i \<longleftrightarrow> (if i < ?H then pending s q i else q = p \<and> i = ?H)" if "i \<le> ?H" for q i
  proof (cases "i < ?H")
    case True
    then have "of_nat i \<noteq> h" using pos_inject[of i ?H] bound h by simp
    then show ?thesis using True place by (auto simp: pending_def low nth_append)
  next
    case False
    with that have i: "i = ?H" by simp
    have "producers s q \<noteq> PReserved r (of_nat ?H)" for r
    proof
      assume q: "producers s q = PReserved r (of_nat ?H)"
      then obtain j where "pending s q j" using slots_okD(2)[OF sl] by blast
      with q have "j < ?H" "(of_nat j :: u64) = of_nat ?H" by (auto simp: pending_def)
      then show False using pos_inject[of j ?H] bound by simp
    qed
    moreover have "low s \<le> ?H" using co T by (auto simp: low_def consumer_ok_def split: consumer.splits)
    ultimately show ?thesis using i h[symmetric] by (auto simp: pending_def low)
  qed
  have pend_H: "pending ?s p ?H" using pend[of ?H p] by simp
  have free: "slots s (?H mod RingBufferSize) = None"
  proof (rule ccontr)
    assume "slots s (?H mod RingBufferSize) \<noteq> None"
    then obtain i where i: "low s \<le> i" "i < ?H" "?H mod RingBufferSize = i mod RingBufferSize"
      using slots_okD(4)[OF sl] by blast
    have "?T \<le> low s" using low_bounds[OF c] by simp
    then show False using slot_inject[OF i(3), of ?T] i room' T by simp
  qed
  have "slots_ok ?s"
  proof (rule slots_okI)
    fix i assume i: "low ?s \<le> i" "i < length (pushed ?s)"
    show "slots ?s (i mod RingBufferSize) = Some (pushed ?s ! i) \<and> (\<forall>q. \<not> pending ?s q i) \<or>
        slots ?s (i mod RingBufferSize) = None \<and> (\<exists>q. pending ?s q i)"
    proof (cases "i < ?H")
      case True
      then show ?thesis using slots_okD(1)[OF sl, of i] i(1) low pend[of i] by (simp add: nth_append)
    next
      case False
      then have "i = ?H" using i(2) by simp
      then show ?thesis using free pend_H by auto
    qed
  next
    fix q r g assume q: "producers ?s q = PReserved r g"
    show "\<exists>i. pending ?s q i"
    proof (cases "q = p")
      case True
      then show ?thesis using pend_H by blast
    next
      case False
      with q obtain i where i: "pending s q i" using slots_okD(2)[OF sl, of q r g] by auto
      then have "i < ?H" by (simp add: pending_def)
      then show ?thesis using i pend[of i q] by auto
    qed
  next
    fix q q' i assume "pending ?s q i" "pending ?s q' i"
    then show "q = q'"
      using pend[of i q] pend[of i q'] slots_okD(3)[OF sl] by (auto simp: pending_def split: if_splits)
  next
    fix j r assume "slots ?s j = Some r"
    then show "\<exists>i. low ?s \<le> i \<and> i < length (pushed ?s) \<and> j = i mod RingBufferSize"
      using slots_okD(4)[OF sl, of j r] low by force
  qed
  moreover have "counters_ok ?s" using c h room' by (auto simp: counters_ok_def)
  moreover have "locals_ok ?s"
    using lo place_ok_mono[OF _ le_SucI[OF le_refl] le_refl] by (auto simp: locals_ok_def)
  moreover have "consumer_ok ?s"
    using co by (cases "consumer s") (auto simp: consumer_ok_def nth_append)
  ultimately show ?thesis by (simp add: rb_inv_def)
qed

lemma store_inv:
  assumes inv: "rb_inv s" and place: "producers s p = PReserved rec h" and bound: "length (pushed s) < 2 ^ 64"
  shows "rb_inv (set_producer p (PStored rec) (s\<lparr>slots := (slots s)(slot_of h := Some rec)\<rparr>))"
    (is "rb_inv ?s")
proof -
  let ?H = "length (pushed s)"
  have c: "counters_ok s" and sl: "slots_ok s" and lo: "locals_ok s" and co: "consumer_ok s"
    using inv by (simp_all add: rb_inv_def)
  obtain n where n: "pending s p n" using slots_okD(2)[OF sl place] by blast
  then have n_def: "low s \<le> n" "n < ?H" "rec = pushed s ! n" "h = of_nat n"
    using place by (simp_all add: pending_def)
  have slot: "slot_of h = n mod RingBufferSize" using slot_of_pos[of n] n_def(2,4) bound by simp
  have low: "low ?s = low s" by (simp add: low_def)
  have other: "i mod RingBufferSize \<noteq> n mod RingBufferSize" if "low s \<le> i" "i < ?H" "i \<noteq> n" for i
    using slot_inject[of i n "low s"] that n_def(1,2) low_bounds[OF c] by auto
  have unique: "q = p \<longleftrightarrow> i = n" if "pending s q i" for q i
  proof
    assume "q = p"
    then have "(of_nat i :: u64) = of_nat n" using that n place by (simp add: pending_def)
    then show "i = n" using pos_inject[of i n] that n_def(2) bound by (simp add: pending_def)
  next
    assume "i = n"
    then show "q = p" using slots_okD(3)[OF sl, of q n p] that n by simp
  qed
  have pend: "pending ?s q i \<longleftrightarrow> pending s q i \<and> q \<noteq> p" for q i by (auto simp: pending_def low)
  have "slots_ok ?s"
  proof (rule slots_okI)
    fix i assume i: "low ?s \<le> i" "i < length (pushed ?s)"
    show "slots ?s (i mod RingBufferSize) = Some (pushed ?s ! i) \<and> (\<forall>q. \<not> pending ?s q i) \<or>
        slots ?s (i mod RingBufferSize) = None \<and> (\<exists>q. pending ?s q i)"
    proof (cases "i = n")
      case True
      then show ?thesis using unique slot n_def(3) pend by auto
    next
      case False
      then have "slots ?s (i mod RingBufferSize) = slots s (i mod RingBufferSize)"
        using other[of i] i low slot by simp
      then show ?thesis using slots_okD(1)[OF sl, of i] i low unique False pend by auto
    qed
  next
    fix q r g assume "producers ?s q = PReserved r g"
    then show "\<exists>i. pending ?s q i" using slots_okD(2)[OF sl, of q r g] pend by (auto split: if_splits)
  next
    fix q q' i assume "pending ?s q i" "pending ?s q' i"
    then show "q = q'" using slots_okD(3)[OF sl] pend by blast
  next
    fix j r assume "slots ?s j = Some r"
    then show "\<exists>i. low ?s \<le> i \<and> i < length (pushed ?s) \<and> j = i mod RingBufferSize"
      using slots_okD(4)[OF sl, of j r] low slot n_def(1,2) by (auto split: if_splits)
  qed
  moreover have "counters_ok ?s" using c by (simp add: counters_ok_def)
  moreover have "locals_ok ?s" using lo by (simp add: locals_ok_def)
  moreover have "consumer_ok ?s"
  proof (cases "consumer s")
    case (CGot t r)
    then have "slots s (length (popped s) mod RingBufferSize) \<noteq> None" "low s = length (popped s)"
      using co by (simp_all add: consumer_ok_def low_def)
    moreover have "slots s (n mod RingBufferSize) = None" using slots_okD(1)[OF sl n_def(1,2)] n by blast
    ultimately show ?thesis using co slot CGot by (auto simp: consumer_ok_def)
  qed (use co in \<open>simp_all add: consumer_ok_def\<close>)
  ultimately show ?thesis by (simp add: rb_inv_def)
qed

text \<open>A step of the consumer that changes only its own place.\<close>

lemma consumer_place_inv:
  assumes "rb_inv s" and "low (s\<lparr>consumer := c\<rparr>) = low s"
    and "at_place (length (popped s)) (pushed s) (slots s) c"
  shows "rb_inv (s\<lparr>consumer := c\<rparr>)"
proof -
  have "pending (s\<lparr>consumer := c\<rparr>) q i = pending s q i" for q i by (simp add: pending_def assms(2))
  then show ?thesis
    using assms by (simp add: rb_inv_def counters_ok_def slots_ok_def locals_ok_def consumer_ok_def)
qed

lemma clear_inv:
  assumes inv: "rb_inv s" and place: "consumer s = CGot t rec" and bound: "length (pushed s) < 2 ^ 64"
  shows "rb_inv (s\<lparr>slots := (slots s)(slot_of t := None), consumer := CCleared t rec\<rparr>)" (is "rb_inv ?s")
proof -
  let ?T = "length (popped s)"
  have c: "counters_ok s" and sl: "slots_ok s" and lo: "locals_ok s" and co: "consumer_ok s"
    using inv by (simp_all add: rb_inv_def)
  have t: "t = of_nat ?T" "?T < length (pushed s)" "slots s (?T mod RingBufferSize) = Some rec"
    using co place by (simp_all add: consumer_ok_def)
  have slot: "slot_of t = ?T mod RingBufferSize" using slot_of_pos[of ?T] t bound by simp
  have low: "low s = ?T" "low ?s = Suc ?T" using place by (simp_all add: low_def)
  have none: "\<not> pending s q ?T" for q using slots_okD(1)[OF sl, of ?T] t(2,3) low(1) by auto
  have rec: "rec = pushed s ! ?T" using slots_okD(1)[OF sl, of ?T] t(2,3) low(1) by auto
  have other: "i mod RingBufferSize \<noteq> ?T mod RingBufferSize" if "Suc ?T \<le> i" "i < length (pushed s)" for i
    using slot_inject[of i ?T ?T] that c by (auto simp: counters_ok_def)
  have pend: "pending ?s q i \<longleftrightarrow> pending s q i" for q i
    using none[of q] low by (auto simp: pending_def le_Suc_eq Suc_le_eq le_less)
  have "slots_ok ?s"
  proof (rule slots_okI)
    fix i assume i: "low ?s \<le> i" "i < length (pushed ?s)"
    then have "slots ?s (i mod RingBufferSize) = slots s (i mod RingBufferSize)"
      using other[of i] low(2) slot by simp
    then show "slots ?s (i mod RingBufferSize) = Some (pushed ?s ! i) \<and> (\<forall>q. \<not> pending ?s q i) \<or>
        slots ?s (i mod RingBufferSize) = None \<and> (\<exists>q. pending ?s q i)"
      using slots_okD(1)[OF sl, of i] i low pend by simp
  next
    fix q r g assume "producers ?s q = PReserved r g"
    then show "\<exists>i. pending ?s q i" using slots_okD(2)[OF sl, of q r g] pend by simp
  next
    fix q q' i assume "pending ?s q i" "pending ?s q' i"
    then show "q = q'" using slots_okD(3)[OF sl] pend by blast
  next
    fix j r assume j: "slots ?s j = Some r"
    then obtain i where i: "?T \<le> i" "i < length (pushed s)" "j = i mod RingBufferSize"
      using slots_okD(4)[OF sl, of j r] low(1) by (auto split: if_splits)
    moreover have "i \<noteq> ?T" using j i(3) slot by (auto split: if_splits)
    ultimately show "\<exists>i. low ?s \<le> i \<and> i < length (pushed ?s) \<and> j = i mod RingBufferSize"
      using low(2) by (intro exI[of _ i]) simp
  qed
  then show ?thesis using c lo t rec by (simp add: rb_inv_def counters_ok_def locals_ok_def consumer_ok_def)
qed

lemma advance_inv:
  assumes inv: "rb_inv s" and place: "consumer s = CCleared t rec"
  shows "rb_inv (s\<lparr>tail := t + 1, consumer := CDone (Some rec), popped := popped s @ [rec]\<rparr>)" (is "rb_inv ?s")
proof -
  let ?T = "length (popped s)"
  have c: "counters_ok s" and sl: "slots_ok s" and lo: "locals_ok s" and co: "consumer_ok s"
    using inv by (simp_all add: rb_inv_def)
  have t: "t = of_nat ?T" "?T < length (pushed s)" "rec = pushed s ! ?T"
    using co place by (simp_all add: consumer_ok_def)
  have low: "low ?s = low s" using place by (simp add: low_def)
  have "pending ?s q i = pending s q i" for q i by (simp add: pending_def low)
  then have "slots_ok ?s" using sl low by (simp add: slots_ok_def)
  moreover have "popped s @ [rec] = take (Suc ?T) (pushed s)"
    using c t(2,3) by (metis counters_ok_def take_Suc_conv_app_nth)
  then have "counters_ok ?s" using c t by (auto simp: counters_ok_def)
  moreover have "locals_ok ?s"
    using lo place_ok_mono[OF _ le_refl le_SucI[OF le_refl]] by (auto simp: locals_ok_def)
  ultimately show ?thesis by (simp add: rb_inv_def consumer_ok_def)
qed

lemma push_step_inv:
  assumes "push_step p s s'" and inv: "rb_inv s" and bound: "length (pushed s') < 2 ^ 64"
  shows "rb_inv s'"
proof -
  have ht: "head s = of_nat (length (pushed s))" "tail s = of_nat (length (popped s))"
    using inv by (simp_all add: rb_inv_def counters_ok_def)
  show ?thesis
  using assms(1)
proof cases
  case (load_head rec)
  then show ?thesis using inv ht by (auto intro!: local_step_inv)
next
  case (load_tail rec h)
  have "place_ok (length (pushed s)) (length (popped s)) (producers s p)"
    using inv by (simp add: rb_inv_def locals_ok_def)
  then show ?thesis using load_tail inv ht by (auto intro!: local_step_inv)
next
  case (cas rec h t)
  then show ?thesis using bound inv by (auto intro!: cas_inv)
next
  case (store rec h)
  then show ?thesis using bound inv by (auto intro!: store_inv)
next
  case (notifies rec)
  have "set_producer p (PDone rec True) (s\<lparr>notify := True\<rparr>) = (set_producer p (PDone rec True) s)\<lparr>notify := True\<rparr>"
    by (simp add: set_producer_def)
  moreover have "rb_inv (set_producer p (PDone rec True) s)" using notifies inv by (auto intro!: local_step_inv)
  moreover have "rb_inv u \<Longrightarrow> rb_inv (u\<lparr>notify := True\<rparr>)" for u :: "'a ring"
    by (simp add: inv_parts pending_def low_def)
  ultimately show ?thesis using notifies by simp
qed (use inv in \<open>auto intro!: local_step_inv\<close>)
qed

lemma pop_step_inv:
  assumes "pop_step s s'" and inv: "rb_inv s" and bound: "length (pushed s') < 2 ^ 64"
  shows "rb_inv s'"
proof -
  have c: "counters_ok s" and co: "consumer_ok s" using inv by (simp_all add: rb_inv_def)
  show ?thesis
    using assms(1)
  proof cases
    case pop_tail
    then show ?thesis using inv c by (auto intro!: consumer_place_inv simp: low_def counters_ok_def)
  next
    case (pop_head t)
    have "unat t = length (popped s)" "unat (head s) = length (pushed s)"
      using c co bound pop_head by (auto simp: consumer_ok_def counters_ok_def unat_pos)
    then have "length (popped s) < length (pushed s)" using pop_head(3) by (simp add: word_less_nat_alt)
    then show ?thesis using inv co pop_head by (auto intro!: consumer_place_inv simp: low_def consumer_ok_def)
  next
    case (pop_load t n rec)
    have "slot_of t = length (popped s) mod RingBufferSize"
      using co pop_load bound by (auto simp: consumer_ok_def slot_of_pos)
    then show ?thesis using inv co pop_load by (auto intro!: consumer_place_inv simp: low_def consumer_ok_def)
  next
    case (pop_retry t n)
    then show ?thesis using inv co by (auto intro!: consumer_place_inv simp: low_def consumer_ok_def)
  next
    case (pop_clear t rec)
    then show ?thesis using inv bound by (auto intro!: clear_inv)
  next
    case (pop_advance t rec)
    then show ?thesis using inv by (auto intro!: advance_inv)
  qed (use inv in \<open>auto intro!: consumer_place_inv simp: low_def\<close>)
qed

lemma pushed_mono: "rb_step s s' \<Longrightarrow> length (pushed s) \<le> length (pushed s')"
  by (auto elim!: rb_stepE push_stepE pop_stepE)

lemma reachable_inv: "rb_reachable s \<Longrightarrow> length (pushed s) < 2 ^ 64 \<Longrightarrow> rb_inv s"
proof (induction rule: rb_reachable.induct)
  case rb_init
  show ?case by (rule rb_inv_init)
next
  case (rb_next s s')
  then show ?case
    using pushed_mono[OF rb_next.hyps(2)] push_step_inv[of _ s s'] pop_step_inv[of s s'] by (auto elim!: rb_stepE)
qed

section \<open>The abstract queue\<close>

text \<open>The records that are reserved and not yet popped, the oldest first.\<close>

definition contents :: "'r ring \<Rightarrow> 'r list" where
  "contents s = drop (length (popped s)) (pushed s)"

lemma push_contents:
  assumes "push_step p s s'" and "rb_inv s" and "length (pushed s') < 2 ^ 64"
  shows "contents s' = contents s \<or> (\<exists>r. contents s' = contents s @ [r] \<and> length (contents s) < RingBufferSize)"
  using assms(1)
proof cases
  case (cas rec h t)
  have "rb_inv s'" by (rule push_step_inv[OF assms])
  then have "Suc (length (pushed s)) \<le> length (popped s) + RingBufferSize" "length (popped s) \<le> length (pushed s)"
    using cas assms(2) by (simp_all add: rb_inv_def counters_ok_def)
  then show ?thesis using cas by (auto simp: contents_def)
qed (auto simp: contents_def)

lemma pop_contents:
  assumes "pop_step s s'" and "rb_inv s"
  shows "contents s' = contents s \<or> (\<exists>r. contents s = r # contents s' \<and> consumer s' = CDone (Some r))"
  using assms(1)
proof cases
  case (pop_advance t rec)
  then have "length (popped s) < length (pushed s)" "rec = pushed s ! length (popped s)"
    using assms(2) by (simp_all add: rb_inv_def consumer_ok_def)
  then show ?thesis using pop_advance by (auto simp: contents_def Cons_nth_drop_Suc)
qed (auto simp: contents_def)

section \<open>Schedules\<close>

text \<open>No thread is ever stuck: the next step of a producer (\<open>rec\<close> is what it pushes next) and of the
  consumer, as functions. A schedule is a list of such steps.\<close>

definition push_next :: "nat \<Rightarrow> 'r \<Rightarrow> 'r ring \<Rightarrow> 'r ring" where
  "push_next p new s =
     (case producers s p of
        PIdle \<Rightarrow> set_producer p (PStart new) s
      | PStart rec \<Rightarrow> set_producer p (PHead rec (head s)) s
      | PHead rec h \<Rightarrow> set_producer p (PBoth rec h (tail s)) s
      | PBoth rec h t \<Rightarrow>
          if h - t \<ge> of_nat RingBufferSize then set_producer p (PDone rec False) s
          else if head s = h
          then set_producer p (PReserved rec h) (s\<lparr>head := h + 1, pushed := pushed s @ [rec]\<rparr>)
          else set_producer p (PStart rec) s
      | PReserved rec h \<Rightarrow> set_producer p (PStored rec) (s\<lparr>slots := (slots s)(slot_of h := Some rec)\<rparr>)
      | PStored rec \<Rightarrow> set_producer p (PDone rec True) (s\<lparr>notify := True\<rparr>)
      | PDone rec b \<Rightarrow> set_producer p PIdle s)"

definition pop_next :: "'r ring \<Rightarrow> 'r ring" where
  "pop_next s =
     (case consumer s of
        CIdle \<Rightarrow> s\<lparr>consumer := CTail (tail s)\<rparr>
      | CTail t \<Rightarrow> if t \<ge> head s then s\<lparr>consumer := CDone None\<rparr> else s\<lparr>consumer := CLoad t 0\<rparr>
      | CLoad t n \<Rightarrow>
          (case slots s (slot_of t) of
             Some rec \<Rightarrow> s\<lparr>consumer := CGot t rec\<rparr>
           | None \<Rightarrow> if n < 100 then s\<lparr>consumer := CLoad t (Suc n)\<rparr> else s\<lparr>consumer := CDone None\<rparr>)
      | CGot t rec \<Rightarrow> s\<lparr>slots := (slots s)(slot_of t := None), consumer := CCleared t rec\<rparr>
      | CCleared t rec \<Rightarrow> s\<lparr>tail := t + 1, consumer := CDone (Some rec), popped := popped s @ [rec]\<rparr>
      | CDone r \<Rightarrow> s\<lparr>consumer := CIdle\<rparr>)"

lemma push_next_step: "push_step p s (push_next p new s)"
  by (cases "producers s p") (auto simp: push_next_def not_le intro: push_step.intros)

lemma pop_next_step: "pop_step s (pop_next s)"
  by (cases "consumer s") (auto simp: pop_next_def not_le intro: pop_step.intros split: option.split)

datatype 'r turn = Push nat 'r | Pop

fun take_turn :: "'r turn \<Rightarrow> 'r ring \<Rightarrow> 'r ring" where
  "take_turn (Push p new) s = push_next p new s"
| "take_turn Pop s = pop_next s"

lemma take_turn_step: "rb_step s (take_turn x s)"
  by (cases x) (auto intro: rb_step.intros push_next_step pop_next_step)

lemma schedule_reachable: "rb_reachable s \<Longrightarrow> rb_reachable (fold take_turn xs s)"
  by (induction xs arbitrary: s) (auto intro: rb_next take_turn_step)

definition after_turns :: "'r turn list \<Rightarrow> 'r ring" where
  "after_turns xs = fold take_turn xs NewRingBuffer"

lemma after_turns_reachable: "rb_reachable (after_turns xs)"
  unfolding after_turns_def by (intro schedule_reachable rb_init)

lemmas run_simps = after_turns_def push_next_def pop_next_def NewRingBuffer_def RingBufferSize_def
  slot_of_def ringBufferMask_def set_producer_def contents_def

section \<open>Properties\<close>

text \<open>
  C23: the ring buffer is a bounded queue. As long as fewer than 2 to the 64 records are pushed, in every
  interleaving of producers and consumer the records that were popped are the first ones pushed, in
  their order, none lost and none twice; and every atomic step either leaves the contents as they are,
  or appends one record to fewer than 65536, or hands the first one to the caller of \<open>Pop\<close>.
\<close>

theorem ring_refines_queue:
  assumes "rb_reachable s" and "rb_step s s'" and "length (pushed s') < 2 ^ 64"
  shows "prefix (popped s) (pushed s) \<and> length (contents s) \<le> RingBufferSize \<and>
    (contents s' = contents s \<or>
     (\<exists>r. contents s' = contents s @ [r] \<and> length (contents s) < RingBufferSize) \<or>
     (\<exists>r. contents s = r # contents s' \<and> consumer s' = CDone (Some r)))"
proof -
  have inv: "rb_inv s" using reachable_inv[OF assms(1)] pushed_mono[OF assms(2)] assms(3) by simp
  then have "popped s = take (length (popped s)) (pushed s)" "length (contents s) \<le> RingBufferSize"
    by (auto simp: rb_inv_def counters_ok_def contents_def)
  then have "prefix (popped s) (pushed s)" "length (contents s) \<le> RingBufferSize"
    using take_is_prefix[of "length (popped s)" "pushed s"] by simp_all
  moreover have "contents s' = contents s \<or>
     (\<exists>r. contents s' = contents s @ [r] \<and> length (contents s) < RingBufferSize) \<or>
     (\<exists>r. contents s = r # contents s' \<and> consumer s' = CDone (Some r))"
    using assms(2)
  proof cases
    case (producer_step p)
    then show ?thesis using push_contents[OF _ inv assms(3)] by blast
  next
    case consumer_step
    then show ?thesis using pop_contents[OF _ inv] by blast
  qed
  ultimately show ?thesis by blast
qed

theorem ring_refines_queue_witness:
  "let s = (after_turns [] :: nat ring); s' = take_turn (Push 0 7) s in
   prefix (popped s) (pushed s) \<and> length (contents s) \<le> RingBufferSize \<and>
    (contents s' = contents s \<or>
     (\<exists>r. contents s' = contents s @ [r] \<and> length (contents s) < RingBufferSize) \<or>
     (\<exists>r. contents s = r # contents s' \<and> consumer s' = CDone (Some r)))"
  unfolding Let_def
  by (rule ring_refines_queue[OF after_turns_reachable take_turn_step]) (simp add: run_simps)

text \<open>
  \<open>Pop\<close> finds an empty slot below the head only while the producer that reserved exactly this slot
  has not stored its record yet; so what \<open>Pop\<close> skips is only delayed.
\<close>

theorem pop_waits_for_producer:
  assumes "rb_reachable s" and "length (pushed s) < 2 ^ 64" and "consumer s = CLoad t n"
    and "slots s (slot_of t) = None"
  shows "\<exists>p. producers s p = PReserved (hd (contents s)) t"
proof -
  have inv: "rb_inv s" by (rule reachable_inv[OF assms(1,2)])
  then have t: "t = of_nat (length (popped s))" "length (popped s) < length (pushed s)"
    using assms(3) by (simp_all add: rb_inv_def consumer_ok_def)
  moreover have "slot_of t = length (popped s) mod RingBufferSize"
    using t assms(2) by (simp add: slot_of_pos)
  moreover have "low s = length (popped s)" using assms(3) by (simp add: low_def)
  ultimately obtain p where "pending s p (length (popped s))"
    using slots_okD(1)[of s "length (popped s)"] inv assms(4) by (auto simp: rb_inv_def)
  then show ?thesis using t by (auto simp: pending_def contents_def hd_drop_conv_nth)
qed

theorem pop_waits_for_producer_witness:
  "let s = after_turns ([Push 0 (7 :: nat), Push 0 7, Push 0 7, Push 0 7, Pop, Pop]) in
   \<exists>p. producers s p = PReserved (hd (contents s)) 0"
  unfolding Let_def
  by (rule pop_waits_for_producer[OF after_turns_reachable, where n = 0]) (simp_all add: run_simps)

text \<open>
  a push can be refused although the buffer is empty: a producer that loads the head, is overtaken by
  a push and a pop, and only then loads the tail subtracts the larger number from the smaller one, and
  the difference of the 64-bit counters is huge. The callers drop such a record.
\<close>

theorem push_refused_when_empty:
  "let s = after_turns ([Push 0 (7 :: nat), Push 0 7, Push 1 8, Push 1 8, Push 1 8, Push 1 8,
     Push 1 8, Push 1 8, Push 1 8, Pop, Pop, Pop, Pop, Pop, Pop, Push 0 7, Push 0 7])
   in rb_reachable s \<and> producers s 0 = PDone 7 False \<and> contents s = []"
  unfolding Let_def
  by (intro conjI after_turns_reachable) (simp_all add: run_simps)

end
