(* ===== verification/Audit_Ledger.thy ===== *)
theory Audit_Ledger
  imports Audit_Record Ring_Buffer
begin

text \<open>
  \<open>ChainedLedger\<close> of \<open>internal/audit/ledger.go\<close>: opening a journal, the hash chain that the writer
  appends, and the life of the ledger as a step relation in which calls of \<open>Record\<close>, the writer
  goroutine and \<open>Close\<close> interleave. The ring buffer occurs as the bounded queue that Ring_Buffer shows it
  to be, whose front is not available before its producer has stored it; that the ledger runs on this queue
  instead of the buffer is a reading of Ring_Buffer's theorem, not a composed step relation. The journal file is
  its content; \<open>disk_ok\<close> says whether writes to it succeed. The write of a batch is one step: a write that a
  crash tears in the middle of a record is not among the steps.
\<close>

section \<open>Opening a journal\<close>

definition defaultNodeID :: string where "defaultNodeID = ''guardrail-proxy-node-1''"

record ChainedLedger =
  journal :: bytes
  disk_ok :: bool
  hmacKey :: bytes
  nodeID :: string
  bootEpoch :: int
  lastHash :: string
  lastSeq :: u64

datatype recover_error = RecoverOpenFailed | LineTooLong | EmptyLog | ParseFailed

datatype ledger_error = DirFailed | OpenLedgerFailed | StatFailed | GenesisWriteFailed | RecoverFailed recover_error

text \<open>What the operating system answers to the calls of the constructor.\<close>

record os_answers =
  mkdir_ok :: bool
  open_ok :: bool
  stat_ok :: bool
  genesis_ok :: bool
  reopen_ok :: bool

definition recoverLastRecord :: "bool \<Rightarrow> bytes \<Rightarrow> recover_error + u64 \<times> string" where
  "recoverLastRecord can_open content =
     (if \<not> can_open then Inl RecoverOpenFailed
      else case scan_lines MaxScanTokenSize content of (ls, too_long) \<Rightarrow>
        let texts = filter (\<lambda>t. t \<noteq> []) (map trim_space ls) in
        if too_long then Inl LineTooLong
        else if texts = [] then Inl EmptyLog
        else case unmarshal_record (last texts) of
          None \<Rightarrow> Inl ParseFailed
        | Some rec \<Rightarrow> Inr (ar_SequenceID rec, ar_EntryHash rec))"

definition genesis_record :: "string \<Rightarrow> int \<Rightarrow> AuditRecord" where
  "genesis_record node epoch = zero_record\<lparr>ar_SequenceID := 0, ar_Timestamp := epoch, ar_NodeID := node,
     ar_BootEpoch := epoch, ar_Action := ''GENESIS'', ar_EntryHash := ComputeGenesisHash node epoch\<rparr>"

definition NewChainedLedger :: "os_answers \<Rightarrow> int \<Rightarrow> bytes \<Rightarrow> bytes \<Rightarrow> string \<Rightarrow> ledger_error + ChainedLedger" where
  "NewChainedLedger os now content key node =
     (let node1 = (if node = [] then defaultNodeID else node);
          l = \<lparr>journal = content, disk_ok = True, hmacKey = verify_key key, nodeID = node1, bootEpoch = now,
               lastHash = [], lastSeq = 0\<rparr> in
      if \<not> mkdir_ok os then Inl DirFailed
      else if \<not> open_ok os then Inl OpenLedgerFailed
      else if \<not> stat_ok os then Inl StatFailed
      else if content = [] then
        (let genRec = genesis_record node1 now in
         if \<not> genesis_ok os then Inl GenesisWriteFailed
         else Inr (l\<lparr>journal := content @ marshal_record genRec @ [line_end], lastHash := ar_EntryHash genRec, lastSeq := 0\<rparr>))
      else case recoverLastRecord (reopen_ok os) content of
        Inl e \<Rightarrow> Inl (RecoverFailed e)
      | Inr (s, h) \<Rightarrow> Inr (l\<lparr>lastSeq := s, lastHash := h\<rparr>))"

section \<open>Appending to the chain\<close>

definition body_hash :: "bytes option \<Rightarrow> string" where
  "body_hash body = (case body of None \<Rightarrow> [] | Some b \<Rightarrow> hex_encode (sha256 b))"

definition new_record :: "int \<Rightarrow> string \<Rightarrow> string \<Rightarrow> string \<Rightarrow> string \<Rightarrow> string \<Rightarrow> AuditRecord" where
  "new_record now tenantID sessionID action reqHash respHash =
     zero_record\<lparr>ar_Timestamp := now, ar_TenantID := tenantID, ar_SessionID := sessionID, ar_Action := action,
       ar_RequestHash := reqHash, ar_ResponseHash := respHash\<rparr>"

text \<open>The record of a call of \<open>Record\<close>; \<open>RecordWithHashes\<close> is given the hashes.\<close>

definition Record_record :: "int \<Rightarrow> string \<Rightarrow> string \<Rightarrow> string \<Rightarrow> bytes option \<Rightarrow> bytes option \<Rightarrow> AuditRecord" where
  "Record_record now tenantID sessionID action reqBody respBody =
     new_record now tenantID sessionID action (body_hash reqBody) (body_hash respBody)"

definition chained :: "ChainedLedger \<Rightarrow> AuditRecord \<Rightarrow> AuditRecord" where
  "chained l rec =
     (let rec1 = rec\<lparr>ar_SequenceID := lastSeq l + 1, ar_PrevHash := lastHash l\<rparr>
      in rec1\<lparr>ar_EntryHash := expected_hash (hmacKey l) rec1\<rparr>)"

definition flush_record :: "AuditRecord \<Rightarrow> ChainedLedger \<Rightarrow> ChainedLedger" where
  "flush_record rec l =
     (let rec1 = chained l rec in
      l\<lparr>lastSeq := ar_SequenceID rec1, lastHash := ar_EntryHash rec1,
        journal := (if disk_ok l then journal l @ marshal_record rec1 @ [line_end] else journal l)\<rparr>)"

definition flushBatch :: "AuditRecord list \<Rightarrow> ChainedLedger \<Rightarrow> ChainedLedger" where
  "flushBatch recs l = fold flush_record recs l"

definition LastSequence :: "ChainedLedger \<Rightarrow> u64" where "LastSequence l = lastSeq l"
definition LastHash :: "ChainedLedger \<Rightarrow> string" where "LastHash l = lastHash l"

section \<open>The life of a ledger\<close>

datatype record_error = ErrClosed | ErrBufferFull

datatype call =
    NotCalled
  | Checked AuditRecord
  | Reserved AuditRecord
  | Returned "record_error option"

datatype writer = WPop | WSelect | WDrain | WDone

record ledger_system =
  ledger :: ChainedLedger
  calls :: "nat \<Rightarrow> call"
  queue :: "(nat \<times> AuditRecord) list"
  batch :: "(nat \<times> AuditRecord) list"
  writer :: writer
  closed :: bool
  written :: "(nat \<times> AuditRecord) list"

definition start_ledger :: "ChainedLedger \<Rightarrow> ledger_system" where
  "start_ledger l = \<lparr>ledger = l, calls = (\<lambda>_. NotCalled), queue = [], batch = [], writer = WPop,
     closed = False, written = []\<rparr>"

text \<open>The closure \<open>flushBatch\<close> of the writer; \<open>written\<close> records what it has handed to the file.\<close>

definition flush_system :: "ledger_system \<Rightarrow> ledger_system" where
  "flush_system s = s\<lparr>ledger := flushBatch (map snd (batch s)) (ledger s), written := written s @ batch s, batch := []\<rparr>"

definition Pop_nil :: "ledger_system \<Rightarrow> bool" where
  "Pop_nil s \<longleftrightarrow> (case queue s of [] \<Rightarrow> True | (i, rec) # q \<Rightarrow> calls s i = Reserved rec)"

text \<open>Every call of \<open>Record\<close> has a number of its own.\<close>

inductive record_step :: "ledger_system \<Rightarrow> ledger_system \<Rightarrow> bool" where
  check: "calls s i = NotCalled \<Longrightarrow> \<not> closed s \<Longrightarrow> record_step s (s\<lparr>calls := (calls s)(i := Checked rec)\<rparr>)"
| is_closed: "calls s i = NotCalled \<Longrightarrow> closed s \<Longrightarrow>
    record_step s (s\<lparr>calls := (calls s)(i := Returned (Some ErrClosed))\<rparr>)"
| reserve: "calls s i = Checked rec \<Longrightarrow> length (queue s) < RingBufferSize \<Longrightarrow>
    record_step s (s\<lparr>calls := (calls s)(i := Reserved rec), queue := queue s @ [(i, rec)]\<rparr>)"
| refuse: "calls s i = Checked rec \<Longrightarrow>
    record_step s (s\<lparr>calls := (calls s)(i := Returned (Some ErrBufferFull))\<rparr>)"
| stored: "calls s i = Reserved rec \<Longrightarrow> record_step s (s\<lparr>calls := (calls s)(i := Returned None)\<rparr>)"

inductive writer_step :: "ledger_system \<Rightarrow> ledger_system \<Rightarrow> bool" where
  w_pop: "writer s = WPop \<Longrightarrow> queue s = (i, rec) # q \<Longrightarrow> \<not> Pop_nil s \<Longrightarrow>
    s1 = s\<lparr>queue := q, batch := batch s @ [(i, rec)]\<rparr> \<Longrightarrow>
    writer_step s (if 256 \<le> length (batch s1) then flush_system s1 else s1)"
| w_empty: "writer s = WPop \<Longrightarrow> Pop_nil s \<Longrightarrow>
    writer_step s ((if batch s \<noteq> [] then flush_system s else s)\<lparr>writer := WSelect\<rparr>)"
| w_wake: "writer s = WSelect \<Longrightarrow> writer_step s (s\<lparr>writer := WPop\<rparr>)"
| w_stop: "writer s = WSelect \<Longrightarrow> closed s \<Longrightarrow> writer_step s (s\<lparr>writer := WDrain\<rparr>)"
| w_drain: "writer s = WDrain \<Longrightarrow> queue s = (i, rec) # q \<Longrightarrow> \<not> Pop_nil s \<Longrightarrow>
    writer_step s (s\<lparr>queue := q, batch := batch s @ [(i, rec)]\<rparr>)"
| w_done: "writer s = WDrain \<Longrightarrow> Pop_nil s \<Longrightarrow> writer_step s ((flush_system s)\<lparr>writer := WDone\<rparr>)"

inductive ledger_step :: "ledger_system \<Rightarrow> ledger_system \<Rightarrow> bool" where
  by_record: "record_step s s' \<Longrightarrow> ledger_step s s'"
| by_writer: "writer_step s s' \<Longrightarrow> ledger_step s s'"
| by_close: "\<not> closed s \<Longrightarrow> ledger_step s (s\<lparr>closed := True\<rparr>)"
| disk_fails: "ledger_step s (s\<lparr>ledger := (ledger s)\<lparr>disk_ok := False\<rparr>\<rparr>)"

inductive ledger_run :: "ChainedLedger \<Rightarrow> ledger_system \<Rightarrow> bool" for l where
  run_start: "ledger_run l (start_ledger l)"
| run_step: "ledger_run l s \<Longrightarrow> ledger_step s s' \<Longrightarrow> ledger_run l s'"

inductive_cases record_stepE: "record_step s s'"
inductive_cases writer_stepE: "writer_step s s'"

section \<open>The journal that the writer makes\<close>

lemma expected_hash_update [simp]: "expected_hash k (r\<lparr>ar_EntryHash := h\<rparr>) = expected_hash k r"
  by (simp add: expected_hash_def)

lemma hex_valid: "valid_utf8 (hex_encode u)"
  using hex_encode_symbols[of u]
  by (intro valid_ascii_text) (auto simp: list_all_iff hex_symbol_def is_digit_def is_ascii_def)

lemma expected_hash_valid: "valid_utf8 (expected_hash k r)"
  by (simp add: expected_hash_def ComputeEntryHash_def hex_valid)

text \<open>The ledger \<open>l\<close> stands at the end of a journal of the records \<open>rs\<close> that the verifier accepts.\<close>

definition journal_of :: "ChainedLedger \<Rightarrow> AuditRecord list \<Rightarrow> bool" where
  "journal_of l rs \<longleftrightarrow> journal l = as_lines (map marshal_record rs) \<and> rs \<noteq> [] \<and> list_all record_ok rs \<and>
     valid_utf8 (lastHash l) \<and> lastSeq l = of_nat (length rs - 1) \<and>
     verify_records (hmacKey l) rs verify_start =
       Inr \<lparr>v_prevHash = lastHash l, v_lastSeq = lastSeq l, v_count = of_nat (length rs)\<rparr>"

lemma verify_last:
  "verify_records key rs st = Inr st' \<Longrightarrow> rs \<noteq> [] \<Longrightarrow>
   v_prevHash st' = ar_EntryHash (last rs) \<and> v_lastSeq st' = ar_SequenceID (last rs)"
proof (induction rs arbitrary: st)
  case (Cons r rs)
  have "v_prevHash st1 = ar_EntryHash r \<and> v_lastSeq st1 = ar_SequenceID r" if "verify_record key r st = Inr st1" for st1
    using that by (auto simp: verify_record_def Let_def split: if_splits)
  then show ?case using Cons by (cases "rs = []") (auto split: sum.splits)
qed simp

lemma pos_nonzero: "0 < n \<Longrightarrow> n < 2 ^ 64 \<Longrightarrow> (of_nat n :: u64) \<noteq> 0"
  using pos_inject[of n 0] by simp

lemma flush_record_journal:
  assumes j: "journal_of l rs" and ok: "disk_ok l" and rec: "record_ok rec" and n: "Suc (length rs) < 2 ^ 64"
  shows "journal_of (flush_record rec l) (rs @ [chained l rec])"
proof -
  let ?r = "chained l rec" and ?n = "length rs"
  have rs: "rs \<noteq> []" "lastSeq l = of_nat (?n - 1)"
    and v: "verify_records (hmacKey l) rs verify_start =
      Inr \<lparr>v_prevHash = lastHash l, v_lastSeq = lastSeq l, v_count = of_nat ?n\<rparr>"
    using j by (simp_all add: journal_of_def)
  have pos: "0 < ?n" using rs(1) by simp
  have seq: "lastSeq l + 1 = of_nat ?n"
    using pos rs(2) by (metis Suc_pred' add.commute of_nat_Suc)
  have r: "ar_SequenceID ?r = of_nat ?n" "ar_PrevHash ?r = lastHash l" "ar_EntryHash ?r = expected_hash (hmacKey l) ?r"
    by (simp_all add: chained_def Let_def seq)
  have nz: "(of_nat ?n :: u64) \<noteq> 0" using pos_nonzero[OF pos] n by simp
  have "verify_record (hmacKey l) ?r \<lparr>v_prevHash = lastHash l, v_lastSeq = lastSeq l, v_count = of_nat ?n\<rparr> =
      Inr \<lparr>v_prevHash = ar_EntryHash ?r, v_lastSeq = of_nat ?n, v_count = of_nat (Suc ?n)\<rparr>"
    using r nz seq by (simp add: verify_record_def Let_def add.commute)
  then have "verify_records (hmacKey l) (rs @ [?r]) verify_start =
      Inr \<lparr>v_prevHash = ar_EntryHash ?r, v_lastSeq = of_nat ?n, v_count = of_nat (Suc ?n)\<rparr>"
    using v by (simp add: verify_records_append)
  moreover have "record_ok ?r"
    using rec j expected_hash_valid by (simp add: record_ok_def chained_def Let_def journal_of_def)
  moreover have "valid_utf8 (ar_EntryHash ?r)" by (subst r(3)) (rule expected_hash_valid)
  ultimately show ?thesis
    using j ok r(1) by (simp add: journal_of_def flush_record_def Let_def)
qed

lemma flush_record_fields [simp]:
  "disk_ok (flush_record rec l) = disk_ok l" "hmacKey (flush_record rec l) = hmacKey l"
  by (simp_all add: flush_record_def Let_def)

lemma flushBatch_fields [simp]:
  "disk_ok (flushBatch recs l) = disk_ok l" "hmacKey (flushBatch recs l) = hmacKey l"
  by (induction recs arbitrary: l) (simp_all add: flushBatch_def)

lemma flushBatch_append: "flushBatch (xs @ ys) l = flushBatch ys (flushBatch xs l)"
  by (simp add: flushBatch_def)

lemma flushBatch_journal:
  "journal_of l rs \<Longrightarrow> disk_ok l \<Longrightarrow> list_all record_ok recs \<Longrightarrow> length rs + length recs < 2 ^ 64 \<Longrightarrow>
   \<exists>rs'. journal_of (flushBatch recs l) rs' \<and> length rs' = length rs + length recs"
proof (induction recs arbitrary: l rs)
  case Nil
  then show ?case by (auto simp: flushBatch_def)
next
  case (Cons rec recs)
  have "journal_of (flush_record rec l) (rs @ [chained l rec])"
    using Cons.prems by (intro flush_record_journal) auto
  from Cons.IH[OF this] Cons.prems show ?case by (simp add: flushBatch_def)
qed

text \<open>Opening: a fresh journal gets its genesis record, an accepted one is continued.\<close>

lemma genesis_journal:
  assumes "NewChainedLedger os now [] key node = Inr l" and "valid_utf8 node" and "in_int64 now"
  shows "journal_of l [genesis_record (if node = [] then defaultNodeID else node) now] \<and> disk_ok l \<and> hmacKey l = verify_key key"
proof -
  let ?node = "if node = [] then defaultNodeID else node"
  have "valid_utf8 ?node" "valid_utf8 ''GENESIS''" "valid_utf8 []"
    using assms(2) by (auto intro!: valid_ascii_text simp: defaultNodeID_def is_ascii_def byte_def)
  then have "record_ok (genesis_record ?node now)"
    using assms(3) by (simp add: record_ok_def genesis_record_def zero_record_def ComputeGenesisHash_def hex_valid in_int64_def)
  moreover have "valid_utf8 (ComputeGenesisHash ?node now)" by (simp add: ComputeGenesisHash_def hex_valid)
  ultimately show ?thesis
    using assms(1)
    by (auto simp: NewChainedLedger_def Let_def journal_of_def verify_record_def verify_start_def genesis_record_def
        split: if_splits)
qed

lemma verify_key_idem [simp]: "verify_key (verify_key key) = verify_key key"
  by (simp add: verify_key_def DefaultHMACKey_def)

lemma reopened_journal:
  assumes j: "journal_of l rs" and key: "hmacKey l = verify_key key"
    and new: "NewChainedLedger os now (journal l) key node = Inr l'"
  shows "journal_of l' rs \<and> disk_ok l' \<and> hmacKey l' = verify_key key"
proof -
  let ?ls = "map marshal_record rs"
  have rs: "rs \<noteq> []" "list_all record_ok rs" "journal l = as_lines ?ls" using j by (simp_all add: journal_of_def)
  have ne: "journal l \<noteq> []" using rs by (cases rs) auto
  obtain ls too_long where sc: "scan_lines MaxScanTokenSize (as_lines ?ls) = (ls, too_long)" by fastforce
  have not_long: "\<not> too_long"
    using new ne sc rs(3) by (auto simp: NewChainedLedger_def recoverLastRecord_def Let_def split: if_splits sum.splits)
  have "list_all (\<lambda>l. line_end \<notin> set l) ?ls"
    using marshal_plain[OF lessI] by (auto simp: list_all_iff plain_line_def)
  then have sp: "split_lines (as_lines ?ls) = ?ls" using split_as_lines_append[of ?ls "[]"] by simp
  have "ls = ?ls"
  proof -
    have "map drop_cr ?ls = ?ls" using marshal_plain[OF lessI] by (auto simp: plain_line_def)
    moreover have "ls = map drop_cr (split_lines (as_lines ?ls))"
      using sc not_long by (intro scan_lines_complete[of MaxScanTokenSize]) simp
    ultimately show ?thesis using sp by simp
  qed
  moreover have "filter (\<lambda>t. t \<noteq> []) (map trim_space ?ls) = ?ls" by (induction rs) simp_all
  moreover have "unmarshal_record (last ?ls) = Some (last rs)"
    using rs(1,2) by (simp add: last_map unmarshal_marshal list_all_iff)
  ultimately have "recoverLastRecord True (journal l) = Inr (ar_SequenceID (last rs), ar_EntryHash (last rs))"
    using sc not_long rs(1,3) by (simp add: recoverLastRecord_def Let_def)
  moreover have "lastHash l = ar_EntryHash (last rs) \<and> lastSeq l = ar_SequenceID (last rs)"
    using j verify_last[of "hmacKey l" rs verify_start] by (auto simp: journal_of_def)
  moreover have "reopen_ok os" using new ne
    by (auto simp: NewChainedLedger_def recoverLastRecord_def Let_def split: if_splits)
  ultimately show ?thesis
    using j key new ne by (auto simp: NewChainedLedger_def Let_def journal_of_def split: if_splits)
qed

section \<open>Invariants of a run\<close>

text \<open>As long as the disk worked, the file is what the records handed to it make of the initial journal.\<close>

definition file_inv :: "ChainedLedger \<Rightarrow> ledger_system \<Rightarrow> bool" where
  "file_inv l s \<longleftrightarrow> (disk_ok (ledger s) \<longrightarrow> ledger s = flushBatch (map snd (written s)) l)"

lemma flush_system_fields [simp]:
  "written (flush_system s) = written s @ batch s" "batch (flush_system s) = []" "queue (flush_system s) = queue s"
  "calls (flush_system s) = calls s" "writer (flush_system s) = writer s" "closed (flush_system s) = closed s"
  "ledger (flush_system s) = flushBatch (map snd (batch s)) (ledger s)"
  by (simp_all add: flush_system_def)

lemma flush_file_inv: "file_inv l s \<Longrightarrow> file_inv l (flush_system s)"
  by (simp add: file_inv_def flushBatch_append)

lemma file_inv_run: "ledger_run l s \<Longrightarrow> file_inv l s"
proof (induction rule: ledger_run.induct)
  case run_start
  show ?case by (simp add: file_inv_def start_ledger_def flushBatch_def)
next
  case (run_step s s')
  have upd: "file_inv l s \<Longrightarrow> ledger t = ledger s \<Longrightarrow> written t = written s \<Longrightarrow> file_inv l t" for t
    by (simp add: file_inv_def)
  from run_step.hyps(2) show ?case
  proof cases
    case by_record
    then show ?thesis using run_step.IH by (elim record_stepE) (auto intro: upd)
  next
    case by_writer
    then show ?thesis
    proof (cases rule: writer_step.cases)
      case (w_pop i rec q s1)
      then have "file_inv l s1" using run_step.IH by (auto intro: upd)
      then show ?thesis using w_pop flush_file_inv[of l s1] by auto
    next
      case w_empty
      then show ?thesis using run_step.IH flush_file_inv[OF run_step.IH] by (auto simp: file_inv_def)
    next
      case w_done
      then show ?thesis using flush_file_inv[OF run_step.IH] by (auto simp: file_inv_def)
    qed (use run_step.IH in \<open>auto intro: upd\<close>)
  next
    case by_close
    then show ?thesis using run_step.IH by (auto intro: upd)
  next
    case disk_fails
    then show ?thesis by (simp add: file_inv_def)
  qed
qed

text \<open>Every record that was accepted is in the file, in the writer's batch or in the queue, once and in
  the order of its reservation.\<close>

definition in_system :: "ledger_system \<Rightarrow> (nat \<times> AuditRecord) list" where
  "in_system s = written s @ batch s @ queue s"

definition live :: "call \<Rightarrow> bool" where
  "live c \<longleftrightarrow> c = Returned None \<or> (\<exists>rec. c = Reserved rec)"

definition phase_ok :: "ledger_system \<Rightarrow> bool" where
  "phase_ok s \<longleftrightarrow> (writer s = WSelect \<or> writer s = WDone \<longrightarrow> batch s = []) \<and>
     (writer s = WDrain \<or> writer s = WDone \<longrightarrow> closed s)"

definition order_inv :: "ledger_system \<Rightarrow> bool" where
  "order_inv s \<longleftrightarrow> distinct (map fst (in_system s)) \<and>
     (\<forall>i. i \<in> set (map fst (in_system s)) \<longleftrightarrow> live (calls s i)) \<and>
     (\<forall>i rec. calls s i = Reserved rec \<longrightarrow> (i, rec) \<in> set (queue s)) \<and> phase_ok s"

lemma in_system_flush [simp]: "in_system (flush_system s) = in_system s"
  by (simp add: in_system_def)

lemma live_simps [simp]:
  "\<not> live NotCalled" "\<not> live (Checked rec)" "live (Reserved rec)" "live (Returned x) \<longleftrightarrow> x = None"
  by (simp_all add: live_def)

lemma order_inv_calls:
  assumes "order_inv s" and "\<not> live (calls s i)" and "\<not> live c"
  shows "order_inv (s\<lparr>calls := (calls s)(i := c)\<rparr>)"
  using assms unfolding order_inv_def phase_ok_def in_system_def by (auto simp del: map_append set_map)

lemma order_inv_record: "record_step s s' \<Longrightarrow> order_inv s \<Longrightarrow> order_inv s' \<and> prefix (in_system s) (in_system s')"
proof (induction rule: record_step.induct)
  case (reserve s i rec)
  let ?s = "s\<lparr>calls := (calls s)(i := Reserved rec), queue := queue s @ [(i, rec)]\<rparr>"
  have sys: "in_system ?s = in_system s @ [(i, rec)]" by (simp add: in_system_def)
  have mem: "j \<in> set (map fst (in_system s)) \<longleftrightarrow> live (calls s j)" for j
    using reserve(3) unfolding order_inv_def by blast
  then have "i \<notin> set (map fst (in_system s))" using reserve(1) by simp
  then have "distinct (map fst (in_system ?s))" using reserve(3) unfolding order_inv_def sys by auto
  moreover have "j \<in> set (map fst (in_system ?s)) \<longleftrightarrow> live (calls ?s j)" for j
    using mem[of j] by (simp add: sys)
  moreover have "(j, r) \<in> set (queue ?s)" if "calls ?s j = Reserved r" for j r
    using that reserve(3) by (auto simp: order_inv_def split: if_splits)
  moreover have "phase_ok ?s" using reserve(3) by (simp add: order_inv_def phase_ok_def)
  ultimately show ?case unfolding order_inv_def by (simp add: sys)
next
  case (stored s i rec)
  let ?s = "s\<lparr>calls := (calls s)(i := Returned None)\<rparr>"
  have sys: "in_system ?s = in_system s" by (simp add: in_system_def)
  have mem: "j \<in> set (map fst (in_system s)) \<longleftrightarrow> live (calls s j)" for j
    using stored(2) unfolding order_inv_def by blast
  have "j \<in> set (map fst (in_system ?s)) \<longleftrightarrow> live (calls ?s j)" for j
    using mem[of j] stored(1) by (simp add: sys)
  then show ?case using stored(2) by (simp add: order_inv_def sys phase_ok_def)
qed (auto intro: order_inv_calls simp: in_system_def)

text \<open>A pop by the writer moves a record whose producer is done from the queue to the batch.\<close>

lemma order_inv_pop:
  assumes "order_inv s" and "queue s = (i, rec) # q" and "\<not> Pop_nil s" and w: "writer s = WPop \<or> writer s = WDrain"
  shows "order_inv (s\<lparr>queue := q, batch := batch s @ [(i, rec)]\<rparr>)"
proof -
  let ?s = "s\<lparr>queue := q, batch := batch s @ [(i, rec)]\<rparr>"
  have "in_system ?s = in_system s" using assms(2) by (simp add: in_system_def)
  moreover have "(j, r) \<in> set q" if "calls s j = Reserved r" for j r
    using that assms by (auto simp: order_inv_def Pop_nil_def)
  moreover have "phase_ok ?s" using assms(1) w by (auto simp: order_inv_def phase_ok_def)
  ultimately show ?thesis using assms(1) by (simp add: order_inv_def)
qed

lemma order_inv_phase:
  "order_inv s \<Longrightarrow> calls t = calls s \<Longrightarrow> queue t = queue s \<Longrightarrow> in_system t = in_system s \<Longrightarrow> phase_ok t \<Longrightarrow> order_inv t"
  by (simp add: order_inv_def)

lemma order_inv_writer: "writer_step s s' \<Longrightarrow> order_inv s \<Longrightarrow> order_inv s' \<and> in_system s' = in_system s"
proof (induction rule: writer_step.induct)
  case (w_pop s i rec q s1)
  have s1: "order_inv s1" "in_system s1 = in_system s"
    using order_inv_pop[OF w_pop(5,2,3)] w_pop(1,2,4) by (simp_all add: in_system_def)
  moreover have "order_inv (flush_system s1)"
    using s1(1) w_pop(1,4) by (intro order_inv_phase[OF s1(1)]) (simp_all add: phase_ok_def)
  ultimately show ?case by simp
next
  case (w_drain s i rec q)
  then show ?case using order_inv_pop[OF w_drain(4,2,3)] w_drain(1,2) by (simp add: in_system_def)
next
  case (w_empty s)
  then show ?case by (auto intro!: order_inv_phase[OF w_empty(3)] simp: phase_ok_def in_system_def)
next
  case (w_wake s)
  then show ?case by (auto intro!: order_inv_phase[OF w_wake(2)] simp: phase_ok_def in_system_def)
next
  case (w_stop s)
  then show ?case by (auto intro!: order_inv_phase[OF w_stop(3)] simp: phase_ok_def in_system_def)
next
  case (w_done s)
  have "phase_ok s" using w_done(3) by (simp add: order_inv_def)
  then show ?case using w_done by (auto intro!: order_inv_phase[OF w_done(3)] simp: phase_ok_def in_system_def)
qed

lemma order_inv_step: "ledger_step s s' \<Longrightarrow> order_inv s \<Longrightarrow> order_inv s' \<and> prefix (in_system s) (in_system s')"
proof (induction rule: ledger_step.induct)
  case (by_record s s')
  then show ?case by (rule order_inv_record)
next
  case (by_writer s s')
  then show ?case using order_inv_writer by auto
next
  case (by_close s)
  then show ?case by (auto simp: order_inv_def phase_ok_def in_system_def)
next
  case (disk_fails s)
  then show ?case by (auto simp: order_inv_def phase_ok_def in_system_def)
qed

lemma order_inv_run: "ledger_run l s \<Longrightarrow> order_inv s"
proof (induction rule: ledger_run.induct)
  case run_start
  show ?case by (simp add: order_inv_def start_ledger_def in_system_def phase_ok_def)
next
  case (run_step s s')
  then show ?case using order_inv_step by blast
qed

end
