(* ===== verification/Go_Float.thy ===== *)
theory Go_Float
  imports Prelude
begin

text \<open>
  Go's \<open>float64\<close>, as far as the metrics use it: a value is its IEEE 754 encoding of 64 bits (a sign, 11 bits of
  exponent, 52 of fraction), and the operations are those of the language specification: conversion of an
  integer and of a decimal constant, addition, division and \<open>\<le>\<close>, each correctly rounded to the nearest value,
  ties to even. All finite values are multiples of 2 to the power -1074, so the arithmetic is on integers counted in that
  unit and everything computes. Which NaN an operation returns is not determined by Go and never looked at.
\<close>

section \<open>The encoding\<close>

datatype float64 = Float64frombits (Float64bits: u64)

definition f64_neg :: "float64 \<Rightarrow> bool" where
  "f64_neg x \<longleftrightarrow> 2 ^ 63 \<le> uint (Float64bits x)"

definition f64_mag :: "float64 \<Rightarrow> int" where
  "f64_mag x = uint (Float64bits x) mod 2 ^ 63"

definition f64_exp :: "float64 \<Rightarrow> int" where "f64_exp x = f64_mag x div 2 ^ 52"
definition f64_frac :: "float64 \<Rightarrow> int" where "f64_frac x = f64_mag x mod 2 ^ 52"

text \<open>The bits of the magnitude of an infinity; larger magnitudes are NaNs.\<close>

definition inf_mag :: int where "inf_mag = 2047 * 2 ^ 52"

definition f64_is_nan :: "float64 \<Rightarrow> bool" where "f64_is_nan x \<longleftrightarrow> inf_mag < f64_mag x"
definition f64_is_inf :: "float64 \<Rightarrow> bool" where "f64_is_inf x \<longleftrightarrow> f64_mag x = inf_mag"

text \<open>The value of a magnitude, in that unit: a subnormal counts its fraction, a normal number has the
  hidden bit and is scaled by its exponent.\<close>

definition mag_units :: "int \<Rightarrow> int" where
  "mag_units m = (if m div 2 ^ 52 = 0 then m mod 2 ^ 52
                  else (2 ^ 52 + m mod 2 ^ 52) * 2 ^ nat (m div 2 ^ 52 - 1))"

definition f64_units :: "float64 \<Rightarrow> int" where
  "f64_units x = (if f64_neg x then - mag_units (f64_mag x) else mag_units (f64_mag x))"

definition f64_make :: "bool \<Rightarrow> int \<Rightarrow> float64" where
  "f64_make neg m = Float64frombits (word_of_int ((if neg then 2 ^ 63 else 0) + m))"

definition f64_nan :: float64 where "f64_nan = f64_make False (inf_mag + 2 ^ 51)"
definition f64_inf :: "bool \<Rightarrow> float64" where "f64_inf neg = f64_make neg inf_mag"

section \<open>Rounding\<close>

function bit_length :: "int \<Rightarrow> nat" where
  "bit_length n = (if n \<le> 0 then 0 else Suc (bit_length (n div 2)))"
  by auto
termination by (relation "measure nat") auto

declare bit_length.simps [simp del]

text \<open>The magnitude nearest to the quotient of two numbers of units: the quotient is cut to 53 bits and its last
  bit rounded to nearest, ties to even; what is too large becomes the infinity.\<close>

definition round_quot :: "int \<Rightarrow> int \<Rightarrow> int" where
  "round_quot n d =
     (let k = bit_length (n div d) - 53;
          d' = d * 2 ^ k;
          q = n div d'; r = n mod d';
          q' = (if d' < 2 * r \<or> d' = 2 * r \<and> odd q then q + 1 else q)
      in min (int k * 2 ^ 52 + q') inf_mag)"

section \<open>The operations\<close>

definition one_units :: int where "one_units = 2 ^ 1074"

text \<open>The constant with the value \<open>n / d\<close>, for a non-negative \<open>n\<close> and a positive \<open>d\<close>.\<close>

definition f64_const :: "int \<Rightarrow> int \<Rightarrow> float64" where
  "f64_const n d = f64_make False (round_quot (n * one_units) d)"

definition f64_of_int :: "int \<Rightarrow> float64" where
  "f64_of_int n = f64_make (n < 0) (round_quot (\<bar>n\<bar> * one_units) 1)"

definition f64_add :: "float64 \<Rightarrow> float64 \<Rightarrow> float64" where
  "f64_add a b =
     (if f64_is_nan a \<or> f64_is_nan b \<or> f64_is_inf a \<and> f64_is_inf b \<and> f64_neg a \<noteq> f64_neg b then f64_nan
      else if f64_is_inf a then a
      else if f64_is_inf b then b
      else let s = f64_units a + f64_units b in
        if s = 0 then f64_make (f64_neg a \<and> f64_neg b) 0 else f64_make (s < 0) (round_quot \<bar>s\<bar> 1))"

definition f64_div :: "float64 \<Rightarrow> float64 \<Rightarrow> float64" where
  "f64_div a b =
     (let neg = (f64_neg a \<noteq> f64_neg b) in
      if f64_is_nan a \<or> f64_is_nan b \<or> f64_is_inf a \<and> f64_is_inf b \<or> f64_mag a = 0 \<and> f64_mag b = 0 then f64_nan
      else if f64_is_inf a \<or> f64_mag b = 0 then f64_inf neg
      else if f64_is_inf b then f64_make neg 0
      else f64_make neg (round_quot (\<bar>f64_units a\<bar> * one_units) \<bar>f64_units b\<bar>))"

definition f64_le :: "float64 \<Rightarrow> float64 \<Rightarrow> bool" where
  "f64_le a b \<longleftrightarrow> \<not> f64_is_nan a \<and> \<not> f64_is_nan b \<and> f64_units a \<le> f64_units b"

text \<open>\<open>sort.Float64s\<close>: NaNs first, then ascending.\<close>

definition Float64s :: "float64 list \<Rightarrow> float64 list" where
  "Float64s xs = filter f64_is_nan xs @ sort_key f64_units (filter (\<lambda>x. \<not> f64_is_nan x) xs)"

section \<open>Rounding is to the nearest value\<close>

lemma bit_length_bounds: "0 < n \<Longrightarrow> 2 ^ (bit_length n - 1) \<le> n \<and> n < 2 ^ bit_length n \<and> 0 < bit_length n"
proof (induction n rule: bit_length.induct)
  case (1 n)
  show ?case
  proof (cases "n div 2 = 0")
    case True
    then have "n = 1" using 1(2) by linarith
    then show ?thesis by (simp add: bit_length.simps)
  next
    case False
    then have pos: "0 < n div 2" using 1(2) by linarith
    let ?b = "bit_length (n div 2)"
    have b: "2 ^ (?b - 1) \<le> n div 2" "n div 2 < 2 ^ ?b" "0 < ?b" using 1 pos by auto
    then obtain c where c: "?b = Suc c" by (cases ?b) auto
    have e: "bit_length n = Suc ?b" using 1(2) by (simp add: bit_length.simps)
    have "2 ^ c \<le> n div 2" "n div 2 < 2 * 2 ^ c" using b c by auto
    then have "2 * 2 ^ c \<le> n \<and> n < 2 * (2 * 2 ^ c)" by linarith
    then show ?thesis by (simp add: e c)
  qed
qed

lemma bit_length_small: "n < 2 ^ k \<Longrightarrow> bit_length n \<le> k"
proof (induction k arbitrary: n)
  case 0
  then show ?case by (simp add: bit_length.simps)
next
  case (Suc k)
  have "n div 2 < 2 ^ k" using Suc.prems by simp
  then show ?case using Suc.IH[of "n div 2"] by (subst bit_length.simps) auto
qed

lemma div_less_mult: "x < b * c \<Longrightarrow> 0 < c \<Longrightarrow> x div c < b" for x b c :: int
  by (metis div_mod_decomp_int dual_order.strict_trans2 le_add_same_cancel1 mult_less_cancel_right_pos pos_mod_sign)

lemma le_div_mult: "b * c \<le> x \<Longrightarrow> 0 < c \<Longrightarrow> b \<le> x div c" for x b c :: int
  by (metis nonzero_mult_div_cancel_right order_less_irrefl zdiv_mono1)

lemma mag_units_eq:
  assumes "0 \<le> q" "q \<le> 2 ^ 53" "k = 0 \<or> 2 ^ 52 \<le> q"
  shows "mag_units (int k * 2 ^ 52 + q) = q * 2 ^ k"
proof -
  consider (sub) "q < 2 ^ 52" "k = 0" | (normal) "2 ^ 52 \<le> q" "q < 2 ^ 53" | (carry) "q = 2 ^ 53" using assms by linarith
  then show ?thesis
  proof cases
    case sub
    then show ?thesis using assms by (simp add: mag_units_def)
  next
    case normal
    define p where "p = q - 2 ^ 52"
    have p: "0 \<le> p" "p < 2 ^ 52" "q = 2 ^ 52 + p" using normal by (simp_all add: p_def)
    define j where "j = int k + 1"
    have m: "int k * 2 ^ 52 + q = j * 2 ^ 52 + p" by (simp add: p j_def algebra_simps)
    have "(int k * 2 ^ 52 + q) div 2 ^ 52 = int k + 1" "(int k * 2 ^ 52 + q) mod 2 ^ 52 = p"
      unfolding m using p(1,2) by (simp_all add: j_def[symmetric])
    then show ?thesis by (simp add: mag_units_def p(3))
  next
    case carry
    then have "(int k * 2 ^ 52 + q) div 2 ^ 52 = int k + 2" "(int k * 2 ^ 52 + q) mod 2 ^ 52 = 0" by simp_all
    moreover have "nat (1 + int k) = Suc k" by linarith
    ultimately show ?thesis using carry by (simp add: mag_units_def)
  qed
qed

lemma mag_split:
  assumes "0 \<le> m"
  obtains k q where "m = int k * 2 ^ 52 + q" "0 \<le> q" "q < 2 ^ 53" "k = 0 \<or> 2 ^ 52 \<le> q"
proof (cases "m < 2 ^ 52")
  case True
  then show ?thesis using assms that[of 0 m] by simp
next
  case False
  define k where "k = nat (m div 2 ^ 52 - 1)"
  have "int k = m div 2 ^ 52 - 1" using False by (simp add: k_def)
  moreover have "m = m div 2 ^ 52 * 2 ^ 52 + m mod 2 ^ 52" by simp
  ultimately have "m = int k * 2 ^ 52 + (m mod 2 ^ 52 + 2 ^ 52)" by (simp only:) (simp add: algebra_simps)
  then show ?thesis using that[of k "m mod 2 ^ 52 + 2 ^ 52"] by simp
qed

lemma mag_units_mono:
  assumes "0 \<le> a" "a \<le> b" shows "mag_units a \<le> mag_units b"
  using assms(2)
proof (induction b rule: int_ge_induct)
  case (step b)
  then obtain k q where b: "b = int k * 2 ^ 52 + q" "0 \<le> q" "q < 2 ^ 53" "k = 0 \<or> 2 ^ 52 \<le> q"
    using assms(1) mag_split[of b] by auto
  then have "mag_units b = q * 2 ^ k" using mag_units_eq[of q k] by simp
  moreover have "mag_units (b + 1) = (q + 1) * 2 ^ k" using b mag_units_eq[of "q + 1" k] by (auto simp: algebra_simps)
  moreover have "q * 2 ^ k \<le> (q + 1) * 2 ^ k" by (simp add: algebra_simps)
  ultimately show ?case using step.IH by linarith
qed simp

text \<open>The rounding of a concrete quotient, given the 53 bits it is cut to and the remainder.\<close>

lemma bit_length_eq: "2 ^ k \<le> n \<Longrightarrow> n < 2 * 2 ^ k \<Longrightarrow> bit_length n = Suc k"
proof (induction k arbitrary: n)
  case 0
  then have "n = 1" by simp
  then show ?case by (simp add: bit_length.simps)
next
  case (Suc k)
  have "2 ^ k \<le> n div 2" "n div 2 < 2 * 2 ^ k" "\<not> n \<le> 0" using Suc.prems by auto
  then show ?case using Suc.IH[of "n div 2"] by (subst bit_length.simps) auto
qed

lemma round_quot_cut:
  assumes n: "n = q * (d * 2 ^ k) + r" and r: "0 \<le> r" "r < d * 2 ^ k" and q: "2 ^ 52 \<le> q" "q < 2 ^ 53" and d: "0 < d"
  shows "round_quot n d = min (int k * 2 ^ 52 + (if d * 2 ^ k < 2 * r \<or> d * 2 ^ k = 2 * r \<and> odd q then q + 1 else q)) inf_mag"
proof -
  have "(q * c + r) div c = q" "(q * c + r) mod c = r" if "0 \<le> r" "r < c" for c using that by simp_all
  from this[OF r] have nq: "n div (d * 2 ^ k) = q" "n mod (d * 2 ^ k) = r" by (simp_all only: n)
  have "q = n div d div 2 ^ k" using nq(1) by (simp add: zdiv_zmult2_eq)
  then have "n div d = q * 2 ^ k + n div d mod 2 ^ k" by (metis div_mult_mod_eq)
  moreover have "0 \<le> n div d mod 2 ^ k" "n div d mod 2 ^ k < 2 ^ k" by simp_all
  moreover have "2 ^ 52 * 2 ^ k \<le> q * 2 ^ k" using q by (intro mult_right_mono) simp_all
  moreover have "(q + 1) * 2 ^ k \<le> 2 ^ 53 * 2 ^ k" using q by (intro mult_right_mono) simp_all
  then have "q * 2 ^ k + 2 ^ k \<le> 2 ^ 53 * 2 ^ k" by (simp add: algebra_simps)
  ultimately have "2 ^ 52 * 2 ^ k \<le> n div d" "n div d < 2 ^ 53 * 2 ^ k" by linarith+
  then have "bit_length (n div d) = Suc (52 + k)" by (intro bit_length_eq) (simp_all add: power_add)
  then have "bit_length (n div d) - 53 = k" by simp
  then show ?thesis by (simp only: round_quot_def Let_def nq)
qed

text \<open>No value is nearer to the quotient than the rounded one.\<close>

lemma round_quot_nearest:
  assumes "0 \<le> n" "0 < d" "round_quot n d < inf_mag" "0 \<le> m"
  shows "\<bar>mag_units (round_quot n d) * d - n\<bar> \<le> \<bar>mag_units m * d - n\<bar>"
proof -
  define k where "k = bit_length (n div d) - 53"
  define d' where "d' = d * 2 ^ k"
  define q where "q = n div d'"
  define r where "r = n mod d'"
  define q' where "q' = (if d' < 2 * r \<or> d' = 2 * r \<and> odd q then q + 1 else q)"
  have d': "0 < d'" using assms(2) by (simp add: d'_def)
  have n: "n = q * d' + r" "0 \<le> r" "r < d'" using d' by (auto simp: q_def r_def)
  have q: "q = n div d div 2 ^ k" using assms(2) by (simp add: q_def d'_def zdiv_zmult2_eq)
  have q0: "0 \<le> q" using assms by (simp add: q pos_imp_zdiv_nonneg_iff)
  have q53: "q < 2 ^ 53 \<and> (k = 0 \<or> 2 ^ 52 \<le> q)"
  proof (cases "n div d = 0")
    case True
    then show ?thesis by (simp add: q k_def bit_length.simps)
  next
    case False
    then have pos: "0 < n div d" using assms by (simp add: order_less_le pos_imp_zdiv_nonneg_iff)
    note b = bit_length_bounds[OF pos]
    show ?thesis
    proof (cases "bit_length (n div d) \<le> 53")
      case True
      then have "k = 0" by (simp add: k_def)
      moreover have "(2 :: int) ^ bit_length (n div d) \<le> 2 ^ 53" by (rule power_increasing) (use True in auto)
      ultimately show ?thesis using b by (simp add: q)
    next
      case False
      then have e: "bit_length (n div d) = 53 + k" "bit_length (n div d) - 1 = 52 + k" by (auto simp: k_def)
      have "(2 :: int) ^ (53 + k) = 2 ^ 53 * 2 ^ k" "(2 :: int) ^ (52 + k) = 2 ^ 52 * 2 ^ k" by (rule power_add)+
      then have "n div d < 2 ^ 53 * 2 ^ k" "2 ^ 52 * 2 ^ k \<le> n div d" using b e by (simp_all only:)
      from div_less_mult[OF this(1)] le_div_mult[OF this(2)] show ?thesis unfolding q by simp
    qed
  qed
  have rq: "round_quot n d = int k * 2 ^ 52 + q'"
    using assms(3) unfolding round_quot_def Let_def k_def[symmetric] d'_def[symmetric] q_def[symmetric] r_def[symmetric] q'_def[symmetric]
    by (simp add: min_def split: if_splits)
  have u: "mag_units (round_quot n d) * d = q' * d'"
    unfolding rq using q0 q53 mag_units_eq[of q' k] by (auto simp: q'_def d'_def)
  have "mag_units m * d \<le> q * d' \<or> (q + 1) * d' \<le> mag_units m * d"
  proof (cases "m \<le> int k * 2 ^ 52 + q")
    case True
    then have "mag_units m \<le> q * 2 ^ k" using mag_units_mono[OF assms(4) True] mag_units_eq[of q k] q0 q53 by simp
    then have "mag_units m * d \<le> q * 2 ^ k * d" by (rule mult_right_mono) (use assms in simp)
    then show ?thesis by (simp add: d'_def ac_simps)
  next
    case False
    then have "int k * 2 ^ 52 + (q + 1) \<le> m" by simp
    moreover have "0 \<le> int k * 2 ^ 52 + (q + 1)" using q0 by simp
    ultimately have "(q + 1) * 2 ^ k \<le> mag_units m"
      using mag_units_mono[of "int k * 2 ^ 52 + (q + 1)" m] mag_units_eq[of "q + 1" k] q0 q53 by auto
    then have "(q + 1) * 2 ^ k * d \<le> mag_units m * d" by (rule mult_right_mono) (use assms in simp)
    then show ?thesis by (simp add: d'_def ac_simps)
  qed
  then show ?thesis unfolding u unfolding n(1) using n(2,3) by (auto simp: q'_def algebra_simps)
qed

lemma f64_const_eq:
  assumes "n * 2 ^ 1074 = q * (d * 2 ^ k) + r" "0 \<le> r" "r < d * 2 ^ k" "2 ^ 52 \<le> q" "q < 2 ^ 53" "0 < d"
    "m = (if d * 2 ^ k < 2 * r \<or> d * 2 ^ k = 2 * r \<and> odd q then q + 1 else q)" "int k * 2 ^ 52 + m \<le> inf_mag"
  shows "f64_const n d = Float64frombits (word_of_int (int k * 2 ^ 52 + m))"
  using round_quot_cut[OF assms(1-6)] assms(7,8) by (simp add: f64_const_def f64_make_def one_units_def)

text \<open>The sum of two finite numbers is a value nearest to their exact sum, unless it overflows.\<close>

lemma f64_units_make:
  assumes "0 \<le> m" "m \<le> inf_mag"
  shows "f64_units (f64_make neg m) = (if neg then - mag_units m else mag_units m)"
    and "f64_mag (f64_make neg m) = m"
proof -
  have "(if neg then 2 ^ 63 else 0) + m < 2 ^ 64" using assms by (auto simp: inf_mag_def)
  moreover have "uint (word_of_int x :: u64) = x" if "0 \<le> x" "x < 2 ^ 64" for x
    using that by (simp add: uint_word_of_int_eq take_bit_int_eq_self)
  moreover have "0 \<le> (if neg then 2 ^ 63 else 0) + m" using assms(1) by simp
  ultimately have u: "uint (word_of_int ((if neg then 2 ^ 63 else 0) + m) :: u64) = (if neg then 2 ^ 63 else 0) + m"
    by (simp only:)
  then have bits: "uint (Float64bits (f64_make neg m)) = (if neg then 2 ^ 63 else 0) + m"
    by (simp only: f64_make_def float64.sel)
  have m: "m < 2 ^ 63" using assms by (simp add: inf_mag_def)
  show mag: "f64_mag (f64_make neg m) = m" using assms m by (simp add: f64_mag_def bits)
  have "f64_neg (f64_make neg m) \<longleftrightarrow> neg" using assms m by (simp add: f64_neg_def bits)
  then show "f64_units (f64_make neg m) = (if neg then - mag_units m else mag_units m)" unfolding f64_units_def mag by simp
qed

lemma round_quot_range: "0 \<le> n \<Longrightarrow> 0 < d \<Longrightarrow> 0 \<le> round_quot n d \<and> round_quot n d \<le> inf_mag"
  by (auto simp: round_quot_def Let_def inf_mag_def pos_imp_zdiv_nonneg_iff)

lemma f64_units_abs: "\<bar>f64_units c\<bar> = mag_units (f64_mag c)"
proof -
  have "0 \<le> f64_mag c" by (simp add: f64_mag_def)
  then have "0 \<le> mag_units (f64_mag c)" using mag_units_mono[of 0 "f64_mag c"] by (simp add: mag_units_def[of 0])
  then show ?thesis by (simp add: f64_units_def)
qed

lemma f64_add_nearest:
  assumes "f64_mag a < inf_mag" "f64_mag b < inf_mag" "f64_mag (f64_add a b) < inf_mag"
  shows "\<bar>f64_units (f64_add a b) - (f64_units a + f64_units b)\<bar> \<le> \<bar>f64_units c - (f64_units a + f64_units b)\<bar>"
proof -
  define s where "s = f64_units a + f64_units b"
  have add: "f64_add a b = (if s = 0 then f64_make (f64_neg a \<and> f64_neg b) 0 else f64_make (s < 0) (round_quot \<bar>s\<bar> 1))"
    using assms(1,2) by (simp add: f64_add_def f64_is_nan_def f64_is_inf_def s_def Let_def)
  show ?thesis
  proof (cases "s = 0")
    case True
    then have "f64_units (f64_add a b) = 0"
      using f64_units_make(1)[of 0] by (simp add: add inf_mag_def mag_units_def)
    then show ?thesis using True by (simp add: s_def[symmetric])
  next
    case False
    let ?m = "round_quot \<bar>s\<bar> 1"
    have r: "0 \<le> ?m" "?m \<le> inf_mag" using round_quot_range[of "\<bar>s\<bar>" 1] by simp_all
    have "f64_mag (f64_add a b) = ?m" using False f64_units_make(2)[OF r] by (simp add: add)
    then have "?m < inf_mag" using assms(3) by simp
    moreover have "0 \<le> f64_mag c" by (simp add: f64_mag_def)
    ultimately have "\<bar>mag_units ?m - \<bar>s\<bar>\<bar> \<le> \<bar>mag_units (f64_mag c) - \<bar>s\<bar>\<bar>"
      using round_quot_nearest[of "\<bar>s\<bar>" 1 "f64_mag c"] by simp
    also have "\<dots> \<le> \<bar>f64_units c - s\<bar>" unfolding f64_units_abs[symmetric] by simp
    finally show ?thesis using False f64_units_make(1)[OF r] by (auto simp: add s_def[symmetric] split: if_splits)
  qed
qed

text \<open>The comparison is a total preorder on what is not a NaN.\<close>

lemma f64_le_trans: "f64_le a b \<Longrightarrow> f64_le b c \<Longrightarrow> f64_le a c"
  by (auto simp: f64_le_def)

lemmas f64_compute = f64_le_def f64_is_nan_def f64_is_inf_def f64_mag_def f64_neg_def inf_mag_def f64_units_def mag_units_def

end
