(* ===== verification/Metrics.thy ===== *)
theory Metrics
  imports Json Go_Bufio Go_Float
begin

text \<open>
  The metrics registry (\<open>internal/metrics/metrics.go\<close>): counters and histograms indexed by formatted
  labels, and the Prometheus text. The maps are association lists without duplicate keys; the locks and
  atomics make every operation atomic. The samples, the bounds and the sum are the \<open>float64\<close> values of
  \<open>Go_Float\<close>, the sum kept by its bits as in the source; only the printing of a \<open>float64\<close> with \<open>%g\<close> is a
  parameter, \<open>fmt_g\<close>.
\<close>

section \<open>Labels\<close>

record Label =
  l_Key :: string
  l_Value :: string

definition label_text :: "Label \<Rightarrow> string" where
  "label_text l = l_Key l @ ''='' @ [dquote] @ l_Value l @ [dquote]"

text \<open>The labels of a call have different keys, so the order of \<open>sort.Slice\<close> is determined.\<close>

definition formatLabels :: "Label list \<Rightarrow> string" where
  "formatLabels labels =
     (if labels = [] then []
      else [CHR 0x7B] @ sep_by '','' (map label_text (sort_key l_Key labels)) @ [CHR 0x7D])"

definition formatHistogramBucketLabels :: "Label list \<Rightarrow> string \<Rightarrow> string" where
  "formatHistogramBucketLabels labels le = formatLabels (labels @ [\<lparr>l_Key = ''le'', l_Value = le\<rparr>])"

section \<open>Counters and gauges\<close>

type_synonym CounterVec = "(string \<times> u64) list"

definition NewCounterVec :: CounterVec where "NewCounterVec = []"

definition add_one :: "string \<Rightarrow> CounterVec \<Rightarrow> CounterVec" where
  "add_one key cv = map (\<lambda>(k, n). (k, if k = key then n + 1 else n)) cv"

definition CounterVec_Inc :: "Label list \<Rightarrow> CounterVec \<Rightarrow> CounterVec" where
  "CounterVec_Inc labels cv =
     (let key = formatLabels labels;
          cv1 = (case map_of cv key of None \<Rightarrow> cv @ [(key, 0)] | Some _ \<Rightarrow> cv)
      in add_one key cv1)"

definition Snapshot :: "CounterVec \<Rightarrow> string \<rightharpoonup> u64" where
  "Snapshot cv = map_of cv"

definition SimpleCounter_Inc :: "u64 \<Rightarrow> u64" where "SimpleCounter_Inc n = n + 1"
definition SimpleCounter_Load :: "u64 \<Rightarrow> u64" where "SimpleCounter_Load n = n"
definition Gauge_Set :: "int \<Rightarrow> int \<Rightarrow> int" where "Gauge_Set v g = v"
definition Gauge_Load :: "int \<Rightarrow> int" where "Gauge_Load g = g"

section \<open>Histograms\<close>

record histogramSeries =
  hs_buckets :: "u64 list"
  hs_count :: u64
  hs_sumBits :: u64

text \<open>The compare-and-swap loop adds one sample to the sum in one step.\<close>

definition observe :: "float64 \<Rightarrow> float64 list \<Rightarrow> histogramSeries \<Rightarrow> histogramSeries" where
  "observe v bounds hs =
     \<lparr>hs_buckets = map (\<lambda>(b, n). if f64_le v b then n + 1 else n) (zip bounds (hs_buckets hs)),
      hs_count = hs_count hs + 1,
      hs_sumBits = Float64bits (f64_add (Float64frombits (hs_sumBits hs)) v)\<rparr>"

record HistogramVec =
  hv_bounds :: "float64 list"
  hv_series :: "(string \<times> histogramSeries) list"
  hv_rawKeys :: "(string \<times> Label list) list"

definition NewHistogramVec :: "float64 list \<Rightarrow> HistogramVec" where
  "NewHistogramVec bounds = \<lparr>hv_bounds = Float64s bounds, hv_series = [], hv_rawKeys = []\<rparr>"

definition empty_series :: "float64 list \<Rightarrow> histogramSeries" where
  "empty_series bounds = \<lparr>hs_buckets = replicate (length bounds) 0, hs_count = 0, hs_sumBits = 0\<rparr>"

definition HistogramVec_Observe :: "float64 \<Rightarrow> Label list \<Rightarrow> HistogramVec \<Rightarrow> HistogramVec" where
  "HistogramVec_Observe v labels hv =
     (let key = formatLabels labels;
          hv1 = (case map_of (hv_series hv) key of
                   None \<Rightarrow> hv\<lparr>hv_series := hv_series hv @ [(key, empty_series (hv_bounds hv))],
                              hv_rawKeys := hv_rawKeys hv @ [(key, labels)]\<rparr>
                 | Some _ \<Rightarrow> hv)
      in hv1\<lparr>hv_series := map (\<lambda>(k, s). (k, if k = key then observe v (hv_bounds hv1) s else s)) (hv_series hv1)\<rparr>)"

section \<open>The registry\<close>

definition DefaultStageDurationBuckets :: "float64 list" where
  "DefaultStageDurationBuckets =
     [f64_const 1 10000, f64_const 5 10000, f64_const 1 1000, f64_const 5 1000, f64_const 1 100, f64_const 5 100,
      f64_const 1 10]"

record Registry =
  requestsTotal :: CounterVec
  stageDurationSec :: HistogramVec
  tripwireViolations :: CounterVec
  canaryDetections :: CounterVec
  circuitBreaker :: int
  auditRecordsTotal :: u64

definition NewRegistry :: Registry where
  "NewRegistry = \<lparr>requestsTotal = NewCounterVec, stageDurationSec = NewHistogramVec DefaultStageDurationBuckets,
     tripwireViolations = NewCounterVec, canaryDetections = NewCounterVec, circuitBreaker = 0, auditRecordsTotal = 0\<rparr>"

definition request_labels :: "string \<Rightarrow> string \<Rightarrow> string \<Rightarrow> Label list" where
  "request_labels tenant action status =
     [\<lparr>l_Key = ''tenant'', l_Value = tenant\<rparr>, \<lparr>l_Key = ''action'', l_Value = action\<rparr>,
      \<lparr>l_Key = ''status'', l_Value = status\<rparr>]"

definition IncRequests :: "string \<Rightarrow> string \<Rightarrow> string \<Rightarrow> Registry \<Rightarrow> Registry" where
  "IncRequests tenant action status r =
     r\<lparr>requestsTotal := CounterVec_Inc (request_labels tenant action status) (requestsTotal r)\<rparr>"

definition ObserveStageDuration :: "string \<Rightarrow> float64 \<Rightarrow> Registry \<Rightarrow> Registry" where
  "ObserveStageDuration stage durationSec r =
     r\<lparr>stageDurationSec := HistogramVec_Observe durationSec [\<lparr>l_Key = ''stage'', l_Value = stage\<rparr>] (stageDurationSec r)\<rparr>"

definition IncTripwireViolations :: "string \<Rightarrow> string \<Rightarrow> Registry \<Rightarrow> Registry" where
  "IncTripwireViolations ruleID stage r =
     r\<lparr>tripwireViolations := CounterVec_Inc [\<lparr>l_Key = ''rule_id'', l_Value = ruleID\<rparr>, \<lparr>l_Key = ''stage'', l_Value = stage\<rparr>]
        (tripwireViolations r)\<rparr>"

definition IncCanaryDetections :: "string \<Rightarrow> Registry \<Rightarrow> Registry" where
  "IncCanaryDetections tenant r =
     r\<lparr>canaryDetections := CounterVec_Inc [\<lparr>l_Key = ''tenant'', l_Value = tenant\<rparr>] (canaryDetections r)\<rparr>"

definition SetCircuitBreakerState :: "int \<Rightarrow> Registry \<Rightarrow> Registry" where
  "SetCircuitBreakerState s r = r\<lparr>circuitBreaker := Gauge_Set s (circuitBreaker r)\<rparr>"

definition IncAuditRecords :: "Registry \<Rightarrow> Registry" where
  "IncAuditRecords r = r\<lparr>auditRecordsTotal := SimpleCounter_Inc (auditRecordsTotal r)\<rparr>"

section \<open>The Prometheus text\<close>

definition line :: "string \<Rightarrow> string" where "line s = s @ [newline]"

definition dec_u64 :: "u64 \<Rightarrow> string" where "dec_u64 w = dec_nat (unat w)"

definition counter_lines :: "string \<Rightarrow> CounterVec \<Rightarrow> string" where
  "counter_lines name cv =
     (let snap = Snapshot cv; ks = sort (map fst cv) in
      concat (map (\<lambda>k. line (name @ k @ '' '' @ dec_u64 (the (snap k)))) ks) @
      (if ks = [] then line (name @ '' 0'') else []))"

definition series_lines :: "(float64 \<Rightarrow> string) \<Rightarrow> float64 list \<Rightarrow> string \<Rightarrow> histogramSeries \<Rightarrow> Label list \<Rightarrow> string" where
  "series_lines fmt_g bounds k s labels =
     (let name = ''guardrail_stage_duration_seconds'' in
      concat (map (\<lambda>(b, n). line (name @ ''_bucket'' @ formatHistogramBucketLabels labels (fmt_g b) @ '' '' @ dec_u64 n))
        (zip bounds (hs_buckets s))) @
      line (name @ ''_bucket'' @ formatHistogramBucketLabels labels ''+Inf'' @ '' '' @ dec_u64 (hs_count s)) @
      line (name @ ''_sum'' @ k @ '' '' @ fmt_g (Float64frombits (hs_sumBits s))) @
      line (name @ ''_count'' @ k @ '' '' @ dec_u64 (hs_count s)))"

definition histogram_lines :: "(float64 \<Rightarrow> string) \<Rightarrow> HistogramVec \<Rightarrow> string" where
  "histogram_lines fmt_g hv =
     concat (map (\<lambda>k. series_lines fmt_g (hv_bounds hv) k (the (map_of (hv_series hv) k)) (the (map_of (hv_rawKeys hv) k)))
       (sort (map fst (hv_series hv))))"

definition WritePrometheus :: "(float64 \<Rightarrow> string) \<Rightarrow> Registry \<Rightarrow> string" where
  "WritePrometheus fmt_g r =
     line ''# HELP guardrail_requests_total Total number of HTTP requests processed across all stages.'' @
     line ''# TYPE guardrail_requests_total counter'' @
     counter_lines ''guardrail_requests_total'' (requestsTotal r) @
     line ''# HELP guardrail_stage_duration_seconds Latency of pipeline inspection stages in seconds.'' @
     line ''# TYPE guardrail_stage_duration_seconds histogram'' @
     histogram_lines fmt_g (stageDurationSec r) @
     line ''# HELP guardrail_tripwire_violations_total Total security rule tripwire violations intercepted.'' @
     line ''# TYPE guardrail_tripwire_violations_total counter'' @
     counter_lines ''guardrail_tripwire_violations_total'' (tripwireViolations r) @
     line ''# HELP guardrail_canary_detections_total Total canary token leak exfiltrations intercepted.'' @
     line ''# TYPE guardrail_canary_detections_total counter'' @
     counter_lines ''guardrail_canary_detections_total'' (canaryDetections r) @
     line ''# HELP guardrail_circuit_breaker_state Upstream circuit breaker state: 0=closed, 1=half-open, 2=open.'' @
     line ''# TYPE guardrail_circuit_breaker_state gauge'' @
     line (''guardrail_circuit_breaker_state '' @ dec_int (Gauge_Load (circuitBreaker r))) @
     line ''# HELP guardrail_audit_records_total Total audit journal records generated and queued.'' @
     line ''# TYPE guardrail_audit_records_total counter'' @
     line (''guardrail_audit_records_total '' @ dec_u64 (SimpleCounter_Load (auditRecordsTotal r)))"

section \<open>Counters count\<close>

definition counter_ok :: "CounterVec \<Rightarrow> string list \<Rightarrow> bool" where
  "counter_ok cv keys \<longleftrightarrow> distinct (map fst cv) \<and>
     map_of cv = (\<lambda>k. if k \<in> set keys then Some (of_nat (count_list keys k)) else None)"

lemma map_of_add_one: "map_of (add_one key cv) k = map_option (\<lambda>n. if k = key then n + 1 else n) (map_of cv k)"
  by (induction cv) (auto simp: add_one_def)

lemma fst_add_one [simp]: "map fst (add_one key cv) = map fst cv"
  by (simp add: add_one_def case_prod_beta comp_def)

lemma counter_step:
  assumes "counter_ok cv keys"
  shows "counter_ok (CounterVec_Inc labels cv) (keys @ [formatLabels labels])"
proof -
  let ?k = "formatLabels labels"
  have m: "map_of cv k = (if k \<in> set keys then Some (of_nat (count_list keys k)) else None)" for k
    using assms by (simp add: counter_ok_def)
  have d: "distinct (map fst cv)" using assms by (simp add: counter_ok_def)
  show ?thesis
  proof (cases "?k \<in> set keys")
    case True
    then have "map_of cv ?k \<noteq> None" by (simp add: m)
    then show ?thesis
      using d True by (auto simp: counter_ok_def CounterVec_Inc_def map_of_add_one m fun_eq_iff Let_def split: option.split)
  next
    case False
    then have n: "map_of cv ?k = None" by (simp add: m)
    then have "?k \<notin> set (map fst cv)" by (simp add: map_of_eq_None_iff)
    then show ?thesis
      using d False n by (auto simp: counter_ok_def CounterVec_Inc_def map_of_add_one m map_add_def fun_eq_iff Let_def split: option.split)
  qed
qed

lemma counter_run: "counter_ok (fold CounterVec_Inc calls NewCounterVec) (map formatLabels calls)"
proof (induction calls rule: rev_induct)
  case Nil
  show ?case by (simp add: counter_ok_def NewCounterVec_def)
next
  case (snoc c calls)
  from counter_step[OF snoc] show ?case by simp
qed

section \<open>What the exposition shows\<close>

definition unquoted :: "string \<Rightarrow> bool" where "unquoted s \<longleftrightarrow> dquote \<notin> set s"

lemma request_key: "formatLabels (request_labels t a s) =
    ''{action='' @ [dquote] @ a @ [dquote] @ '',status='' @ [dquote] @ s @ [dquote] @ '',tenant='' @ [dquote] @ t @ [dquote] @ ''}''"
proof -
  have "sort_key l_Key (request_labels t a s) =
      [\<lparr>l_Key = ''action'', l_Value = a\<rparr>, \<lparr>l_Key = ''status'', l_Value = s\<rparr>, \<lparr>l_Key = ''tenant'', l_Value = t\<rparr>]"
    by (simp add: request_labels_def)
  then show ?thesis by (simp add: formatLabels_def request_labels_def label_text_def)
qed

lemma split_at_quote: "unquoted x \<Longrightarrow> unquoted y \<Longrightarrow> x @ dquote # u = y @ dquote # v \<longleftrightarrow> x = y \<and> u = v"
proof (induction x arbitrary: y)
  case Nil
  then show ?case by (cases y) (auto simp: unquoted_def)
next
  case (Cons c x)
  then show ?case by (cases y) (auto simp: unquoted_def)
qed

lemma request_key_inject:
  assumes "unquoted t" "unquoted a" "unquoted s" "unquoted t'" "unquoted a'" "unquoted s'"
  shows "formatLabels (request_labels t a s) = formatLabels (request_labels t' a' s') \<longleftrightarrow> t = t' \<and> a = a' \<and> s = s'"
  using assms by (auto simp: request_key split_at_quote)

lemma count_map_inj: "inj_on f (insert x (set xs)) \<Longrightarrow> count_list (map f xs) (f x) = count_list xs x"
  by (induction xs) (auto simp: inj_on_def)

lemma requests_fold_other:
  "fold (\<lambda>(t, a, s). IncRequests t a s) calls r =
   r\<lparr>requestsTotal := fold CounterVec_Inc (map (\<lambda>(t, a, s). request_labels t a s) calls) (requestsTotal r)\<rparr>"
  by (induction calls arbitrary: r) (auto simp: IncRequests_def)

text \<open>The sample of a request counter as Prometheus reads it: the metric's name, the three labels and a blank.\<close>

definition request_sample :: "string \<Rightarrow> string \<Rightarrow> string \<Rightarrow> string" where
  "request_sample t a s =
     ''guardrail_requests_total{action='' @ [dquote] @ a @ [dquote] @ '',status='' @ [dquote] @ s @ [dquote] @
     '',tenant='' @ [dquote] @ t @ [dquote] @ ''} ''"

definition label_safe :: "string \<Rightarrow> bool" where
  "label_safe v \<longleftrightarrow> unquoted v \<and> newline \<notin> set v"

lemma no_line_end: "newline \<notin> set (dec_u64 n)"
  by (auto simp: dec_u64_def is_digit_def byte_def dest!: dec_nat_digits)

lemma exposition_lines:
  assumes "\<forall>k \<in> set (map fst cv). newline \<notin> set k" and "cv \<noteq> []"
  shows "\<exists>pre post. split_lines (WritePrometheus fmt_g (NewRegistry\<lparr>requestsTotal := cv\<rparr>)) =
      pre @ map (\<lambda>k. ''guardrail_requests_total'' @ k @ '' '' @ dec_u64 (the (map_of cv k))) (sort (map fst cv)) @ post \<and>
      list_all (\<lambda>l. \<not> prefix ''guardrail_requests_total{'' l) (pre @ post)"
proof -
  let ?mid = "map (\<lambda>k. ''guardrail_requests_total'' @ k @ '' '' @ dec_u64 (the (map_of cv k))) (sort (map fst cv))"
  let ?pre = "[''# HELP guardrail_requests_total Total number of HTTP requests processed across all stages.'',
     ''# TYPE guardrail_requests_total counter'']"
  let ?post = "[''# HELP guardrail_stage_duration_seconds Latency of pipeline inspection stages in seconds.'',
     ''# TYPE guardrail_stage_duration_seconds histogram'',
     ''# HELP guardrail_tripwire_violations_total Total security rule tripwire violations intercepted.'',
     ''# TYPE guardrail_tripwire_violations_total counter'',
     ''guardrail_tripwire_violations_total 0'',
     ''# HELP guardrail_canary_detections_total Total canary token leak exfiltrations intercepted.'',
     ''# TYPE guardrail_canary_detections_total counter'',
     ''guardrail_canary_detections_total 0'',
     ''# HELP guardrail_circuit_breaker_state Upstream circuit breaker state: 0=closed, 1=half-open, 2=open.'',
     ''# TYPE guardrail_circuit_breaker_state gauge'',
     ''guardrail_circuit_breaker_state '' @ dec_int 0,
     ''# HELP guardrail_audit_records_total Total audit journal records generated and queued.'',
     ''# TYPE guardrail_audit_records_total counter'',
     ''guardrail_audit_records_total '' @ dec_u64 0]"
  have c: "counter_lines ''guardrail_requests_total'' cv = as_lines ?mid"
  proof -
    have "(sort (map fst cv) = []) = False" using assms(2) by (metis map_is_Nil_conv set_empty2 set_sort)
    then show ?thesis unfolding counter_lines_def Let_def Snapshot_def line_def as_lines_def by (simp add: Let_def comp_def)
  qed
  have e: "counter_lines name [] = name @ '' 0'' @ [newline]" for name by (simp add: counter_lines_def line_def)
  have "WritePrometheus fmt_g (NewRegistry\<lparr>requestsTotal := cv\<rparr>) = as_lines (?pre @ ?mid @ ?post)"
    unfolding WritePrometheus_def
    by (simp add: NewRegistry_def c e line_def histogram_lines_def NewHistogramVec_def NewCounterVec_def
        Gauge_Load_def SimpleCounter_Load_def)
  moreover have "list_all (\<lambda>l. newline \<notin> set l) (?pre @ ?mid @ ?post)"
  proof -
    have "newline \<notin> set (dec_int 0)" by (auto simp: dec_int_def is_digit_def byte_def dest!: dec_nat_digits)
    moreover have "list_all (\<lambda>l. newline \<notin> set l) ?mid" using assms(1) no_line_end by (auto simp: list_all_iff)
    ultimately show ?thesis using no_line_end[of 0] by simp
  qed
  ultimately have "split_lines (WritePrometheus fmt_g (NewRegistry\<lparr>requestsTotal := cv\<rparr>)) = ?pre @ ?mid @ ?post"
    using split_as_lines_append[of "?pre @ ?mid @ ?post" "[]"] by simp
  moreover have "list_all (\<lambda>l. \<not> prefix ''guardrail_requests_total{'' l) (?pre @ ?post)" by simp
  ultimately show ?thesis by blast
qed

lemma request_sample_key: "request_sample t a s = ''guardrail_requests_total'' @ formatLabels (request_labels t a s) @ '' ''"
  by (simp add: request_key request_sample_def)

lemma request_sample_prefix:
  assumes "unquoted t" "unquoted a" "unquoted s" "unquoted t'" "unquoted a'" "unquoted s'"
  shows "prefix (request_sample t a s) (request_sample t' a' s' @ n) \<longleftrightarrow> t = t' \<and> a = a' \<and> s = s'"
  using assms by (auto simp: request_sample_def prefix_def split_at_quote)

lemma filter_distinct_one:
  "distinct xs \<Longrightarrow> x \<in> set xs \<Longrightarrow> (\<And>y. y \<in> set xs \<Longrightarrow> P (f y) \<longleftrightarrow> y = x) \<Longrightarrow> filter P (map f xs) = [f x]"
proof (induction xs)
  case (Cons z zs)
  have "filter P (map f zs) = []" if "z = x" using that Cons.prems by (auto simp: filter_empty_conv)
  moreover have "filter P (map f zs) = [f x]" if "z \<noteq> x" using that Cons by simp
  ultimately show ?case using Cons.prems(3)[of z] by auto
qed simp

text \<open>C36: From a fresh registry, after any number of counted requests whose label values have no double quote and
  no newline, the exposition has exactly one line for every tenant, action and status that occurred, and its
  value is the number of requests counted with exactly them.\<close>

theorem requests_exposed:
  assumes safe: "list_all (\<lambda>(t, a, s). label_safe t \<and> label_safe a \<and> label_safe s) calls" and mem: "(t, a, s) \<in> set calls"
  shows "filter (prefix (request_sample t a s))
      (split_lines (WritePrometheus fmt_g (fold (\<lambda>(t, a, s). IncRequests t a s) calls NewRegistry))) =
    [request_sample t a s @ dec_u64 (of_nat (count_list calls (t, a, s)))]"
proof -
  let ?key = "\<lambda>(t, a, s). formatLabels (request_labels t a s)"
  define cv where "cv = fold CounterVec_Inc (map (\<lambda>(t, a, s). request_labels t a s) calls) NewCounterVec"
  have key_eq: "?key x = ?key y \<longleftrightarrow> x = y" if "x \<in> set calls" "y \<in> set calls" for x y
  proof -
    obtain t1 a1 s1 t2 a2 s2 where xy: "x = (t1, a1, s1)" "y = (t2, a2, s2)" by (cases x; cases y) auto
    then show ?thesis
      using bspec[OF safe[unfolded list_all_iff] that(1)] bspec[OF safe[unfolded list_all_iff] that(2)]
      by (simp add: label_safe_def request_key_inject)
  qed
  have "counter_ok cv (map ?key calls)"
    using counter_run[of "map (\<lambda>(t, a, s). request_labels t a s) calls"] by (simp only: cv_def map_map comp_def case_prod_beta')
  then have d: "distinct (map fst cv)"
    and m: "map_of cv = (\<lambda>k. if k \<in> ?key ` set calls then Some (of_nat (count_list (map ?key calls) k)) else None)"
    by (simp_all add: counter_ok_def)
  have keys: "set (map fst cv) = ?key ` set calls" using m by (auto simp: dom_map_of_conv_image_fst[symmetric] dom_def)
  have kin: "?key (t, a, s) \<in> set (map fst cv)" unfolding keys using mem by (rule imageI)
  have n: "count_list (map ?key calls) (?key (t, a, s)) = count_list calls (t, a, s)"
    using mem key_eq by (intro count_map_inj) (auto simp: inj_on_def insert_absorb)
  have nl: "\<forall>k \<in> set (map fst cv). newline \<notin> set k"
    unfolding keys using safe by (auto simp: list_all_iff label_safe_def request_key)
  have "cv \<noteq> []" using keys mem by auto
  from exposition_lines[OF nl this, of fmt_g] obtain pre post where
    out: "split_lines (WritePrometheus fmt_g (NewRegistry\<lparr>requestsTotal := cv\<rparr>)) =
      pre @ map (\<lambda>k. ''guardrail_requests_total'' @ k @ '' '' @ dec_u64 (the (map_of cv k))) (sort (map fst cv)) @ post"
    and rest: "list_all (\<lambda>l. \<not> prefix ''guardrail_requests_total{'' l) (pre @ post)" by blast
  have r: "fold (\<lambda>(t, a, s). IncRequests t a s) calls NewRegistry = NewRegistry\<lparr>requestsTotal := cv\<rparr>"
    by (simp add: requests_fold_other cv_def) (simp add: NewRegistry_def)
  have p: "prefix (request_sample t a s) l \<Longrightarrow> prefix ''guardrail_requests_total{'' l" for l
    by (auto simp: request_sample_def prefix_def)
  then have none: "filter (prefix (request_sample t a s)) pre = []" "filter (prefix (request_sample t a s)) post = []"
    using rest by (auto simp: filter_empty_conv list_all_iff)
  have one: "prefix (request_sample t a s) (''guardrail_requests_total'' @ k @ '' '' @ v) \<longleftrightarrow> k = ?key (t, a, s)"
    if "k \<in> set (map fst cv)" for k v
  proof -
    from that obtain t' a' s' where k: "k = ?key (t', a', s')" "(t', a', s') \<in> set calls" unfolding keys by auto
    have "prefix (request_sample t a s) (request_sample t' a' s' @ v) \<longleftrightarrow> t = t' \<and> a = a' \<and> s = s'"
      using safe k(2) mem by (intro request_sample_prefix) (auto simp: list_all_iff label_safe_def)
    then show ?thesis using key_eq[OF k(2) mem] k(1) by (auto simp: request_sample_key)
  qed
  have v: "map_of cv (?key (t, a, s)) = Some (of_nat (count_list calls (t, a, s)))"
    using fun_cong[OF m, of "?key (t, a, s)"] kin n unfolding keys by simp
  let ?f = "\<lambda>k. ''guardrail_requests_total'' @ k @ '' '' @ dec_u64 (the (map_of cv k))"
  have "filter (prefix (request_sample t a s)) (map ?f (sort (map fst cv))) = [?f (?key (t, a, s))]"
    by (rule filter_distinct_one[where f = ?f]) (simp add: d, simp only: set_sort kin, simp only: set_sort one)
  moreover have "?f (?key (t, a, s)) = request_sample t a s @ dec_u64 (of_nat (count_list calls (t, a, s)))"
    using v by (simp add: request_sample_key)
  ultimately show ?thesis by (simp only: r out filter_append none append_Nil append_Nil2)
qed

lemma requests_exposed_witness:
  "filter (prefix (request_sample ''acme'' ''ALLOW'' ''200''))
     (split_lines (WritePrometheus (\<lambda>_. []) (fold (\<lambda>(t, a, s). IncRequests t a s)
       [(''acme'', ''ALLOW'', ''200''), (''acme'', ''BLOCK'', ''403''), (''acme'', ''ALLOW'', ''200'')] NewRegistry))) =
   [request_sample ''acme'' ''ALLOW'' ''200'' @ ''2'']"
proof -
  have "dec_u64 2 = ''2''" by code_simp
  then show ?thesis
    using requests_exposed[of "[(''acme'', ''ALLOW'', ''200''), (''acme'', ''BLOCK'', ''403''), (''acme'', ''ALLOW'', ''200'')]"
        "''acme''" "''ALLOW''" "''200''" "\<lambda>_. []"]
    by (simp add: label_safe_def unquoted_def)
qed

text \<open>Values are not escaped: with a quote in a value two different requests share a counter.\<close>

lemma label_values_collide:
  "formatLabels (request_labels t a (s @ [dquote] @ '',tenant='' @ [dquote] @ t')) =
   formatLabels (request_labels (t' @ [dquote] @ '',tenant='' @ [dquote] @ t) a s)"
  by (simp add: request_key)

section \<open>Histograms are cumulative\<close>

definition stage_key :: "string \<Rightarrow> string" where
  "stage_key stage = formatLabels [\<lparr>l_Key = ''stage'', l_Value = stage\<rparr>]"

lemma stage_key_inject [simp]: "stage_key s = stage_key s' \<longleftrightarrow> s = s'"
  by (simp add: stage_key_def formatLabels_def label_text_def)

definition series_of :: "float64 list \<Rightarrow> float64 list \<Rightarrow> histogramSeries" where
  "series_of bounds vs =
     \<lparr>hs_buckets = map (\<lambda>b. of_nat (length (filter (\<lambda>v. f64_le v b) vs))) bounds,
      hs_count = of_nat (length vs), hs_sumBits = Float64bits (foldl f64_add (Float64frombits 0) vs)\<rparr>"

lemma observe_series: "observe v bounds (series_of bounds vs) = series_of bounds (vs @ [v])"
  by (simp add: observe_def series_of_def zip_map2 zip_same_conv_map)

lemma map_of_update_value: "map_of (map (\<lambda>(k, s). (k, if k = key then f s else s)) xs) k = map_option (\<lambda>s. if k = key then f s else s) (map_of xs k)"
  by (induction xs) auto

definition stage_values :: "string \<Rightarrow> (string \<times> float64) list \<Rightarrow> float64 list" where
  "stage_values stage obs = map snd (filter (\<lambda>(s, d). s = stage) obs)"

lemma observe_lookup:
  "hv_bounds (HistogramVec_Observe v [\<lparr>l_Key = ''stage'', l_Value = s\<rparr>] hv) = hv_bounds hv"
  "map_of (hv_series (HistogramVec_Observe v [\<lparr>l_Key = ''stage'', l_Value = s\<rparr>] hv)) (stage_key x) =
   (if x = s then Some (observe v (hv_bounds hv)
        (case map_of (hv_series hv) (stage_key s) of None \<Rightarrow> empty_series (hv_bounds hv) | Some h \<Rightarrow> h))
    else map_of (hv_series hv) (stage_key x))"
  by (auto simp: HistogramVec_Observe_def Let_def map_of_update_value stage_key_def[symmetric] map_add_def split: option.split)

definition observed :: "(string \<times> float64) list \<Rightarrow> HistogramVec" where
  "observed obs = stageDurationSec (fold (\<lambda>(stage, d). ObserveStageDuration stage d) obs NewRegistry)"

lemma observed_snoc: "observed (obs @ [(s, d)]) = HistogramVec_Observe d [\<lparr>l_Key = ''stage'', l_Value = s\<rparr>] (observed obs)"
  by (simp add: observed_def ObserveStageDuration_def)

text \<open>The bounds of the source as the float64 values nearest to them; they are already sorted.\<close>

lemma stage_bounds:
  "DefaultStageDurationBuckets = map Float64frombits
     [0x3F1A36E2EB1C432D, 0x3F40624DD2F1A9FC, 0x3F50624DD2F1A9FC, 0x3F747AE147AE147B, 0x3F847AE147AE147B,
      0x3FA999999999999A, 0x3FB999999999999A]"
proof -
  have "f64_const 1 10000 = Float64frombits 0x3F1A36E2EB1C432D"
    by (simp add: inf_mag_def f64_const_eq[where q = 7378697629483820 and m = 7378697629483821 and k = 1008
          and r = "2 ^ 1074 - 7378697629483820 * (10000 * 2 ^ 1008)"])
  moreover have "f64_const 5 10000 = Float64frombits 0x3F40624DD2F1A9FC"
    by (simp add: inf_mag_def f64_const_eq[where q = 4611686018427387 and m = 4611686018427388 and k = 1011
          and r = "5 * 2 ^ 1074 - 4611686018427387 * (10000 * 2 ^ 1011)"])
  moreover have "f64_const 1 1000 = Float64frombits 0x3F50624DD2F1A9FC"
    by (simp add: inf_mag_def f64_const_eq[where q = 4611686018427387 and m = 4611686018427388 and k = 1012
          and r = "2 ^ 1074 - 4611686018427387 * (1000 * 2 ^ 1012)"])
  moreover have "f64_const 5 1000 = Float64frombits 0x3F747AE147AE147B"
    by (simp add: inf_mag_def f64_const_eq[where q = 5764607523034234 and m = 5764607523034235 and k = 1014
          and r = "5 * 2 ^ 1074 - 5764607523034234 * (1000 * 2 ^ 1014)"])
  moreover have "f64_const 1 100 = Float64frombits 0x3F847AE147AE147B"
    by (simp add: inf_mag_def f64_const_eq[where q = 5764607523034234 and m = 5764607523034235 and k = 1015
          and r = "2 ^ 1074 - 5764607523034234 * (100 * 2 ^ 1015)"])
  moreover have "f64_const 5 100 = Float64frombits 0x3FA999999999999A"
    by (simp add: inf_mag_def f64_const_eq[where q = 7205759403792793 and m = 7205759403792794 and k = 1017
          and r = "5 * 2 ^ 1074 - 7205759403792793 * (100 * 2 ^ 1017)"])
  moreover have "f64_const 1 10 = Float64frombits 0x3FB999999999999A"
    by (simp add: inf_mag_def f64_const_eq[where q = 7205759403792793 and m = 7205759403792794 and k = 1018
          and r = "2 ^ 1074 - 7205759403792793 * (10 * 2 ^ 1018)"])
  ultimately show ?thesis by (simp add: DefaultStageDurationBuckets_def)
qed

lemma stage_bounds_sorted:
  "Float64s DefaultStageDurationBuckets = DefaultStageDurationBuckets" "sorted_wrt f64_le DefaultStageDurationBuckets"
proof -
  have "sorted (map f64_units DefaultStageDurationBuckets)" "list_all (\<lambda>b. \<not> f64_is_nan b) DefaultStageDurationBuckets"
    by (simp_all add: stage_bounds f64_compute)
  moreover have "Float64s xs = xs \<and> sorted_wrt f64_le xs" if "sorted (map f64_units xs)" "list_all (\<lambda>b. \<not> f64_is_nan b) xs" for xs
  proof -
    have "filter f64_is_nan xs = []" "filter (\<lambda>b. \<not> f64_is_nan b) xs = xs" using that(2) by (auto simp: filter_empty_conv filter_id_conv list_all_iff)
    moreover have "sorted_wrt f64_le xs" using that by (induction xs) (auto simp: list_all_iff f64_le_def)
    ultimately show ?thesis using that(1) by (simp add: Float64s_def sort_key_id_if_sorted)
  qed
  ultimately show "Float64s DefaultStageDurationBuckets = DefaultStageDurationBuckets" "sorted_wrt f64_le DefaultStageDurationBuckets"
    by blast+
qed

lemma observed_series:
  "hv_bounds (observed obs) = DefaultStageDurationBuckets \<and>
   map_of (hv_series (observed obs)) (stage_key stage) =
     (let vs = stage_values stage obs in if vs = [] then None else Some (series_of DefaultStageDurationBuckets vs))"
proof (induction obs arbitrary: stage rule: rev_induct)
  case Nil
  show ?case by (simp add: observed_def NewRegistry_def NewHistogramVec_def stage_values_def stage_bounds_sorted)
next
  case (snoc o1 obs)
  obtain s d where o1: "o1 = (s, d)" by fastforce
  have "stage_values x (obs @ [o1]) = stage_values x obs @ (if x = s then [d] else [])" for x
    by (simp add: stage_values_def o1)
  moreover have "empty_series DefaultStageDurationBuckets = series_of DefaultStageDurationBuckets []"
    by (simp add: empty_series_def series_of_def map_replicate_const)
  ultimately show ?case
    using snoc[of s] snoc[of stage] by (simp add: o1 observed_snoc observe_lookup observe_series Let_def)
qed

lemma filter_length_mono: "(\<And>v. P v \<Longrightarrow> Q v) \<Longrightarrow> length (filter P vs) \<le> length (filter Q vs)"
  by (induction vs) auto

lemma unat_of_nat_u64: "n < 2 ^ 64 \<Longrightarrow> unat (of_nat n :: u64) = n"
  by (simp add: unat_of_nat take_bit_nat_eq_self)

text \<open>C37: After any sequence of fewer than \<open>2 ^ 64\<close> observed durations the histogram has a series for exactly the
  stages that were observed. Each bucket holds the number of the stage's samples that are at most its bound (as
  float64 values; a sample equal to a bound counts), so the buckets grow with the bounds up to the total number
  of samples, and the sum is that of adding the samples one by one in their order, rounded after each.\<close>

theorem histograms_are_cumulative:
  assumes "length obs < 2 ^ 64"
  shows "case map_of (hv_series (stageDurationSec (fold (\<lambda>(stage, d). ObserveStageDuration stage d) obs NewRegistry))) (stage_key stage) of
     None \<Rightarrow> stage_values stage obs = []
   | Some hs \<Rightarrow> stage_values stage obs \<noteq> [] \<and>
       map unat (hs_buckets hs) = map (\<lambda>b. length (filter (\<lambda>v. f64_le v b) (stage_values stage obs))) DefaultStageDurationBuckets \<and>
       unat (hs_count hs) = length (stage_values stage obs) \<and>
       sorted (map unat (hs_buckets hs @ [hs_count hs])) \<and>
       Float64frombits (hs_sumBits hs) = foldl f64_add (Float64frombits 0) (stage_values stage obs)"
proof -
  define vs where "vs = stage_values stage obs"
  have "length vs \<le> length obs" by (simp add: vs_def stage_values_def)
  then have len: "length (filter P vs) < 2 ^ 64" for P using assms length_filter_le[of P vs] by linarith
  let ?n = "\<lambda>b. length (filter (\<lambda>v. f64_le v b) vs)"
  let ?hs = "series_of DefaultStageDurationBuckets vs"
  have b: "map unat (hs_buckets ?hs) = map ?n DefaultStageDurationBuckets"
    using len by (simp add: series_of_def unat_of_nat_u64 del: unsigned_of_nat)
  have c: "unat (hs_count ?hs) = length vs" using len[of "\<lambda>_. True"] by (simp add: series_of_def unat_of_nat_u64 del: unsigned_of_nat)
  have "sorted_wrt (\<lambda>a b. ?n a \<le> ?n b) DefaultStageDurationBuckets"
    by (rule sorted_wrt_mono_rel[OF _ stage_bounds_sorted(2)]) (rule filter_length_mono, erule (1) f64_le_trans)
  then have "sorted (map ?n DefaultStageDurationBuckets @ [length vs])"
    by (simp add: sorted_append sorted_map)
  then have "sorted (map unat (hs_buckets ?hs @ [hs_count ?hs]))" using b c by simp
  then show ?thesis
    using observed_series[of obs stage] b c by (simp add: observed_def vs_def[symmetric] Let_def series_of_def)
qed

text \<open>Two samples, one of them exactly the first bound.\<close>

lemma histograms_are_cumulative_witness:
  "case map_of (hv_series (stageDurationSec (fold (\<lambda>(stage, d). ObserveStageDuration stage d)
      [(''INBOUND_DLP'', Float64frombits 0x3F1A36E2EB1C432D), (''INBOUND_DLP'', Float64frombits 0x3FB0000000000000)] NewRegistry)))
      (stage_key ''INBOUND_DLP'') of
     None \<Rightarrow> False
   | Some hs \<Rightarrow> map unat (hs_buckets hs) = [1, 1, 1, 1, 1, 1, 2] \<and> unat (hs_count hs) = 2"
proof -
  let ?obs = "[(''INBOUND_DLP'', Float64frombits 0x3F1A36E2EB1C432D), (''INBOUND_DLP'', Float64frombits 0x3FB0000000000000)]"
  have v: "stage_values ''INBOUND_DLP'' ?obs = [Float64frombits 0x3F1A36E2EB1C432D, Float64frombits 0x3FB0000000000000]"
    by (simp add: stage_values_def)
  show ?thesis
    using histograms_are_cumulative[of ?obs "''INBOUND_DLP''"] unfolding v
    by (auto simp: stage_bounds f64_compute split: option.splits)
qed

end
