(* ===== verification/Dispatcher.thy ===== *)
theory Dispatcher
  imports Go_Http Circuit_Breaker Outbound Audit_Ledger Metrics
begin

text \<open>
  \<open>internal/dispatcher/dispatcher.go\<close>: the upstream dispatcher. One call of \<open>Forward\<close> is a function of
  the dispatcher, the request, the context, the telemetry (the default metrics registry and the calls
  of \<open>Record\<close> on the ledger) and of what the outside does in it: the clock, what
  \<open>http.NewRequestWithContext\<close> and \<open>Client.Do\<close> return, how the body reads go, which writes to the
  client fail, and in which order \<open>range\<close> visits a map.
\<close>

section \<open>The dispatcher\<close>

record URL =
  u_Scheme :: string
  u_Host :: string
  u_Path :: string
  u_RawPath :: string
  u_RawQuery :: string
  u_Fragment :: string

definition hopByHopHeaders :: "string list" where
  "hopByHopHeaders =
     [''connection'', ''keep-alive'', ''proxy-authenticate'', ''proxy-authorization'', ''te'', ''trailers'',
      ''transfer-encoding'', ''upgrade'']"

text \<open>The callback of the breaker sets the gauge of the default registry; the ledger is absent or present.\<close>

record Dispatcher =
  d_upstreamURL :: URL
  d_upstreamAuthToken :: string
  d_idleTimeout :: duration
  d_circuitBreaker :: "Registry CircuitBreaker option"
  d_auditLedger :: bool

definition breaker_callback :: "State \<Rightarrow> State \<Rightarrow> Registry \<Rightarrow> Registry" where
  "breaker_callback frm to reg = SetCircuitBreakerState (State_int to) reg"

text \<open>\<open>parsed\<close> is what \<open>url.Parse\<close> returns on the configured URL.\<close>

definition NewDispatcher :: "URL option \<Rightarrow> duration \<Rightarrow> Dispatcher option" where
  "NewDispatcher parsed idleTimeout =
     map_option (\<lambda>u. \<lparr>d_upstreamURL = u, d_upstreamAuthToken = [],
        d_idleTimeout = (if idleTimeout \<le> 0 then 90 * Second else idleTimeout),
        d_circuitBreaker = Some (SetOnStateChange (Some breaker_callback) (NewCircuitBreaker DefaultConfig)),
        d_auditLedger = False\<rparr>) parsed"

definition SetUpstreamAuthToken :: "string \<Rightarrow> Dispatcher \<Rightarrow> Dispatcher" where
  "SetUpstreamAuthToken token d = d\<lparr>d_upstreamAuthToken := token\<rparr>"

definition SetCircuitBreaker :: "Registry CircuitBreaker option \<Rightarrow> Dispatcher \<Rightarrow> Dispatcher" where
  "SetCircuitBreaker cb d = d\<lparr>d_circuitBreaker := map_option (SetOnStateChange (Some breaker_callback)) cb\<rparr>"

definition SetAuditLedger :: "bool \<Rightarrow> Dispatcher \<Rightarrow> Dispatcher" where
  "SetAuditLedger present d = d\<lparr>d_auditLedger := present\<rparr>"

section \<open>Telemetry\<close>

record telemetry =
  t_metrics :: Registry
  t_audit :: "AuditRecord list"

definition count_with :: "(Registry \<Rightarrow> Registry) \<Rightarrow> telemetry \<Rightarrow> telemetry" where
  "count_with f t = t\<lparr>t_metrics := f (t_metrics t)\<rparr>"

text \<open>\<open>if auditLedger != nil { _ = auditLedger.Record(...) }\<close>; what \<open>Record\<close> answers is ignored.\<close>

definition audit_with ::
  "bool \<Rightarrow> int \<Rightarrow> string \<Rightarrow> string \<Rightarrow> string \<Rightarrow> bytes option \<Rightarrow> bytes option \<Rightarrow> telemetry \<Rightarrow> telemetry" where
  "audit_with present now tenant session action reqBody respBody t =
     (if present then t\<lparr>t_audit := t_audit t @ [Record_record now tenant session action reqBody respBody]\<rparr> else t)"

text \<open>The loop over the stage durations, in the order \<open>order\<close> of the iteration.\<close>

definition observe_stages :: "string list \<Rightarrow> (string \<rightharpoonup> int) \<Rightarrow> Registry \<Rightarrow> Registry" where
  "observe_stages order durations reg =
     fold (\<lambda>stage reg. case durations stage of
         None \<Rightarrow> reg
       | Some us \<Rightarrow> ObserveStageDuration stage (f64_div (f64_of_int us) (f64_const 1000000 1)) reg) order reg"

section \<open>The upstream request\<close>

record upstream_request =
  q_Method :: string
  q_URL :: URL
  q_Host :: string
  q_Header :: header
  q_ContentLength :: int
  q_Body :: bytes

definition trim_prefix :: "bytes \<Rightarrow> bytes \<Rightarrow> bytes" where
  "trim_prefix s p = (if has_prefix s p then drop (length p) s else s)"

definition trim_suffix :: "bytes \<Rightarrow> bytes \<Rightarrow> bytes" where
  "trim_suffix s p = (if has_suffix s p then take (length s - length p) s else s)"

definition target_url :: "URL \<Rightarrow> request \<Rightarrow> URL" where
  "target_url up r =
     up\<lparr>u_Path := (if u_Path up = [] \<or> u_Path up = ''/'' then r_Path r
                  else if has_prefix (r_Path r) (u_Path up) then r_Path r
                  else trim_suffix (u_Path up) ''/'' @ ''/'' @ trim_prefix (r_Path r) ''/''),
        u_RawQuery := r_RawQuery r, u_Fragment := r_Fragment r\<rparr>"

definition hop_by_hop :: "(rune \<Rightarrow> rune) \<Rightarrow> string \<Rightarrow> bool" where
  "hop_by_hop ul k \<longleftrightarrow> to_lower ul k \<in> set hopByHopHeaders"

definition add_all :: "string \<Rightarrow> string list \<Rightarrow> header \<Rightarrow> header" where
  "add_all k vv h = fold (header_add k) vv h"

definition copy_headers :: "(string \<Rightarrow> bool) \<Rightarrow> header \<Rightarrow> header \<Rightarrow> header" where
  "copy_headers skip src dst = fold (\<lambda>(k, vv) h. if skip k then h else add_all k vv h) src dst"

definition forwarded_for :: "header \<Rightarrow> string \<Rightarrow> string" where
  "forwarded_for h clientIP =
     (let prior = header_get h ''X-Forwarded-For'' in if prior \<noteq> [] then prior @ '', '' @ clientIP else clientIP)"

definition upstream_headers :: "(rune \<Rightarrow> rune) \<Rightarrow> Dispatcher \<Rightarrow> request \<Rightarrow> header" where
  "upstream_headers ul d r =
     (let h1 = copy_headers (\<lambda>k. hop_by_hop ul k \<or> equal_fold k ''Content-Length'') (r_Header r) [];
          h2 = (if d_upstreamAuthToken d \<noteq> []
                then header_set ''Authorization'' (''Bearer '' @ d_upstreamAuthToken d) h1 else h1);
          h3 = (case SplitHost (r_RemoteAddr r) of
                  None \<Rightarrow> h2
                | Some clientIP \<Rightarrow> if clientIP \<noteq> [] then header_set ''X-Forwarded-For'' (forwarded_for h2 clientIP) h2 else h2)
      in header_set ''X-Forwarded-Proto'' (if r_TLS r then ''https'' else ''http'') h3)"

definition upstream_request_of :: "(rune \<Rightarrow> rune) \<Rightarrow> Dispatcher \<Rightarrow> request \<Rightarrow> bytes \<Rightarrow> upstream_request" where
  "upstream_request_of ul d r payload =
     \<lparr>q_Method = r_Method r, q_URL = target_url (d_upstreamURL d) r, q_Host = u_Host (d_upstreamURL d),
      q_Header = upstream_headers ul d r, q_ContentLength = int (length payload), q_Body = payload\<rparr>"

section \<open>Forward\<close>

text \<open>What the outside does in one call of \<open>Forward\<close>. A response has a status, headers, and a body that is
  read piece by piece; where the list of reads ends the read is still blocked.\<close>

datatype upstream_answer = DoFailed string | Response int header "read_event list"

record exchange =
  x_ul :: "rune \<Rightarrow> rune"
  x_allow_at :: time
  x_record_at :: time
  x_audit_at :: int
  x_new_request :: "string option"
  x_answer :: upstream_answer
  x_ctx_err :: "string option"
  x_stream :: stream_env
  x_order :: "string list"
  x_why :: "bytes \<Rightarrow> string"

datatype forward_error =
  CircuitOpen | NewRequestFailed string | ContextErr string | UpstreamErr string | BodyReadFailed string |
  OutboundViolation | StreamFailed stream_error | ResponseWriteFailed string

text \<open>A call may still be waiting for the upstream, it may panic (\<open>WriteHeader\<close> does with a status that
  has not three digits), or it returns.\<close>

datatype forward_outcome = Waiting | WritePanic | Done "forward_error option"

record forward_state =
  fs_dispatcher :: Dispatcher
  fs_telemetry :: telemetry
  fs_context :: PipelineContext
  fs_response :: response
  fs_request :: "upstream_request option"
  fs_effects :: "effect list"

definition with_breaker ::
  "(Registry CircuitBreaker \<Rightarrow> Registry \<Rightarrow> Registry CircuitBreaker \<times> Registry) \<Rightarrow> forward_state \<Rightarrow> forward_state" where
  "with_breaker f s =
     (case d_circuitBreaker (fs_dispatcher s) of
        None \<Rightarrow> s
      | Some cb \<Rightarrow> (case f cb (t_metrics (fs_telemetry s)) of (cb', reg) \<Rightarrow>
          s\<lparr>fs_dispatcher := (fs_dispatcher s)\<lparr>d_circuitBreaker := Some cb'\<rparr>,
            fs_telemetry := (fs_telemetry s)\<lparr>t_metrics := reg\<rparr>\<rparr>))"

definition allow_upstream :: "time \<Rightarrow> forward_state \<Rightarrow> cb_error option \<times> forward_state" where
  "allow_upstream now s =
     (case d_circuitBreaker (fs_dispatcher s) of
        None \<Rightarrow> (None, s)
      | Some cb \<Rightarrow> (fst (Allow now cb (t_metrics (fs_telemetry s))), with_breaker (\<lambda>cb w. snd (Allow now cb w)) s))"

text \<open>Audit record and counters of an answer of the proxy.\<close>

definition account :: "exchange \<Rightarrow> string \<Rightarrow> string \<Rightarrow> bytes \<Rightarrow> bytes \<Rightarrow> (Registry \<Rightarrow> Registry) \<Rightarrow> forward_state \<Rightarrow> forward_state" where
  "account x action status payload resp more_counters s =
     (let pc = fs_context s;
          t1 = audit_with (d_auditLedger (fs_dispatcher s)) (x_audit_at x) (TenantID pc) (SessionID pc) action
                 (Some payload) (Some resp) (fs_telemetry s);
          t2 = count_with (IncRequests (TenantID pc) action status) t1
      in s\<lparr>fs_telemetry := count_with IncAuditRecords (count_with more_counters t2)\<rparr>)"

definition answer_error :: "exchange \<Rightarrow> int \<Rightarrow> bytes \<Rightarrow> forward_state \<Rightarrow> forward_state" where
  "answer_error x status body s = s\<lparr>fs_response := respond (write_fails (x_stream x) 0) status body (fs_response s)\<rparr>"

definition violation_counters :: "string \<Rightarrow> string \<Rightarrow> string \<Rightarrow> Registry \<Rightarrow> Registry" where
  "violation_counters tenant rule stage reg =
     (let reg1 = IncTripwireViolations rule stage reg in
      if contains rule ''CANARY'' then IncCanaryDetections tenant reg1 else reg1)"

definition status_ok :: "int \<Rightarrow> bool" where "status_ok status \<longleftrightarrow> 100 \<le> status \<and> status \<le> 999"

text \<open>The answer while the breaker is open, and the answer to a failed dispatch.\<close>

definition refuse_open :: "exchange \<Rightarrow> bytes \<Rightarrow> forward_state \<Rightarrow> forward_outcome \<times> forward_state" where
  "refuse_open x payload s =
     (let errJSON = marshal_map (error_object ''CIRCUIT_OPEN'' ''upstream circuit breaker is open'')
      in (Done (Some CircuitOpen), account x ''CIRCUIT_OPEN'' ''503'' payload errJSON id (answer_error x 503 errJSON s)))"

definition dispatch_failed :: "exchange \<Rightarrow> bytes \<Rightarrow> string \<Rightarrow> forward_state \<Rightarrow> forward_outcome \<times> forward_state" where
  "dispatch_failed x payload err s0 =
     (let s = with_breaker (RecordFailure (x_record_at x)) s0 in
      case x_ctx_err x of
        Some e \<Rightarrow> (Done (Some (ContextErr e)), s)
      | None \<Rightarrow>
          let errJSON = marshal_map (error_object ''upstream_unavailable'' (''failed to reach upstream target: '' @ err))
          in (Done (Some (UpstreamErr err)),
              account x ''UPSTREAM_UNAVAILABLE'' ''502'' payload errJSON id (answer_error x 502 errJSON s)))"

definition copy_response_headers :: "exchange \<Rightarrow> header \<Rightarrow> forward_state \<Rightarrow> forward_state" where
  "copy_response_headers x h s = s\<lparr>fs_response := (fs_response s)\<lparr>rw_Header :=
     copy_headers (hop_by_hop (x_ul x)) h (rw_Header (fs_response s))\<rparr>\<rparr>"

definition send_status :: "int \<Rightarrow> forward_state \<Rightarrow> forward_state" where
  "send_status status s = s\<lparr>fs_response := write_header status (fs_response s)\<rparr>"

definition sse_headers :: "response \<Rightarrow> response" where
  "sse_headers w = set_header ''X-Accel-Buffering'' ''no'' (set_header ''Connection'' ''keep-alive''
     (set_header ''Cache-Control'' ''no-cache'' (set_header ''Content-Type'' ''text/event-stream'' w)))"

definition isSSE :: "(rune \<Rightarrow> rune) \<Rightarrow> header \<Rightarrow> bool" where
  "isSSE ul h \<longleftrightarrow> contains (to_lower ul (header_get h ''Content-Type'')) ''text/event-stream''"

text \<open>Step 4: the response is a stream. The lookahead transformer writes to the client.\<close>

definition stream_response :: "exchange \<Rightarrow> bytes \<Rightarrow> int \<Rightarrow> header \<Rightarrow> read_event list \<Rightarrow> forward_state \<Rightarrow>
    forward_outcome \<times> forward_state" where
  "stream_response x payload status h events s0 =
     (let s1 = copy_response_headers x h s0;
          s2 = s1\<lparr>fs_response := sse_headers (fs_response s1)\<rparr> in
      if \<not> status_ok status then (WritePanic, s2)
      else
        let s3 = send_status status s2;
            env = (x_stream x)\<lparr>hasConn := False, hasCancel := True\<rparr> in
        case ProcessStream env events (Some (fs_context s3)) of (res, io) \<Rightarrow>
          let pc = the (stream_pc io);
              s4 = s3\<lparr>fs_response := (fs_response s3)\<lparr>rw_body := rw_body (fs_response s3) @ Lookahead.written io\<rparr>,
                      fs_effects := effects io, fs_context := pc\<rparr> in
          case res of
            None \<Rightarrow> (Waiting, s4)
          | Some err \<Rightarrow>
              (Done (map_option StreamFailed err),
               if ViolationType pc = ''TRIPWIRE_VIOLATION''
               then account x ''TRIPWIRE_ABORT'' ''200'' payload ''TRIPWIRE_ABORT''
                      (violation_counters (TenantID pc) (MatchedRuleID pc) ''outbound_stream'') s4
               else account x ''ALLOW'' ''200'' payload ''[STREAM_DONE]''
                      (observe_stages (x_order x) (StageDurations pc)) s4))"

text \<open>Step 5: the response is read as a whole and inspected.\<close>

fun ReadAll :: "read_event list \<Rightarrow> (string + bytes) option" where
  "ReadAll [] = None"
| "ReadAll (e # es) =
     (case read_err e of
        Some ReadEOF \<Rightarrow> Some (Inr (chunk e))
      | Some (ReadErr m) \<Rightarrow> Some (Inl m)
      | None \<Rightarrow> (case ReadAll es of Some (Inr b) \<Rightarrow> Some (Inr (chunk e @ b)) | r \<Rightarrow> r))"

definition record_outbound :: "InspectionViolation \<Rightarrow> PipelineContext \<Rightarrow> PipelineContext" where
  "record_outbound v pc = pc\<lparr>MatchedRuleID := v_RuleID v, ViolationType := ''POLICY_VIOLATION'',
     Violations := Violations pc @ [\<lparr>RuleID = v_RuleID v, Stage = ''outbound_inspection'',
       Description = v_Message v, Severity = ''CRITICAL'', Shadow = False\<rparr>]\<rparr>"

definition refuse_body :: "exchange \<Rightarrow> bytes \<Rightarrow> InspectionViolation \<Rightarrow> forward_state \<Rightarrow> forward_outcome \<times> forward_state" where
  "refuse_body x payload v s0 =
     (let s = s0\<lparr>fs_context := record_outbound v (fs_context s0)\<rparr>;
          errJSON = marshal_map (rule_object ''POLICY_VIOLATION'' (v_RuleID v) (v_Message v))
      in (Done (Some OutboundViolation),
          account x ''BLOCK_OUTBOUND'' ''502'' payload errJSON
            (violation_counters (TenantID (fs_context s)) (v_RuleID v) ''outbound_inspection'')
            (answer_error x 502 errJSON s)))"

definition release_body :: "exchange \<Rightarrow> bytes \<Rightarrow> int \<Rightarrow> header \<Rightarrow> bytes \<Rightarrow> forward_state \<Rightarrow> forward_outcome \<times> forward_state" where
  "release_body x payload status h body s0 =
     (let s1 = copy_response_headers x h s0 in
      if \<not> status_ok status then (WritePanic, s1)
      else
        let s2 = send_status status s1 in
        case write_body (write_fails (x_stream x) 0) body (fs_response s2) of (w, writeErr) \<Rightarrow>
          (Done (map_option ResponseWriteFailed writeErr),
           account x ''ALLOW'' (dec_int status) payload body
             (observe_stages (x_order x) (StageDurations (fs_context s2))) (s2\<lparr>fs_response := w\<rparr>)))"

definition sync_response :: "exchange \<Rightarrow> bytes \<Rightarrow> int \<Rightarrow> header \<Rightarrow> read_event list \<Rightarrow> forward_state \<Rightarrow>
    forward_outcome \<times> forward_state" where
  "sync_response x payload status h events s =
     (case ReadAll events of
        None \<Rightarrow> (Waiting, s)
      | Some (Inl m) \<Rightarrow> (Done (Some (BodyReadFailed m)), s)
      | Some (Inr body) \<Rightarrow>
          (case InspectSync (x_why x) body (Some (fs_context s)) of
             Some v \<Rightarrow> refuse_body x payload v s
           | None \<Rightarrow> release_body x payload status h body s))"

definition got_response :: "exchange \<Rightarrow> bytes \<Rightarrow> int \<Rightarrow> header \<Rightarrow> read_event list \<Rightarrow> forward_state \<Rightarrow>
    forward_outcome \<times> forward_state" where
  "got_response x payload status h events s0 =
     (let s = with_breaker (if status \<ge> 500 then RecordFailure (x_record_at x) else RecordSuccess) s0 in
      if isSSE (x_ul x) h then stream_response x payload status h events s
      else sync_response x payload status h events s)"

definition dispatch :: "exchange \<Rightarrow> request \<Rightarrow> bytes \<Rightarrow> forward_state \<Rightarrow> forward_outcome \<times> forward_state" where
  "dispatch x r payload s0 =
     (case x_new_request x of
        Some e \<Rightarrow> (Done (Some (NewRequestFailed e)), s0)
      | None \<Rightarrow>
          let s = s0\<lparr>fs_request := Some (upstream_request_of (x_ul x) (fs_dispatcher s0) r payload)\<rparr> in
          case x_answer x of
            DoFailed err \<Rightarrow> dispatch_failed x payload err s
          | Response status h events \<Rightarrow> got_response x payload status h events s)"

definition start_forward :: "request \<Rightarrow> PipelineContext option \<Rightarrow> Dispatcher \<Rightarrow> telemetry \<Rightarrow> response \<Rightarrow> forward_state" where
  "start_forward r pc d t w =
     \<lparr>fs_dispatcher = d, fs_telemetry = t,
      fs_context = (case pc of None \<Rightarrow> new_context\<lparr>StdContext := Some (r_Context r)\<rparr> | Some p \<Rightarrow> p),
      fs_response = w, fs_request = None, fs_effects = []\<rparr>"

definition forward_payload :: "request \<Rightarrow> PipelineContext \<Rightarrow> bytes" where
  "forward_payload r pc = (if CleanPayload pc = [] then r_body r else CleanPayload pc)"

definition Forward :: "exchange \<Rightarrow> request \<Rightarrow> PipelineContext option \<Rightarrow> Dispatcher \<Rightarrow> telemetry \<Rightarrow> response \<Rightarrow>
    forward_outcome \<times> forward_state" where
  "Forward x r pc d t w =
     (let s0 = start_forward r pc d t w;
          payload = forward_payload r (fs_context s0) in
      case allow_upstream (x_allow_at x) s0 of
        (Some e, s) \<Rightarrow> refuse_open x payload s
      | (None, s) \<Rightarrow> dispatch x r payload s)"

section \<open>Header maps, copied\<close>

text \<open>A header map as the HTTP parser builds it: one entry per canonical key.\<close>

definition header_ok :: "header \<Rightarrow> bool" where
  "header_ok h \<longleftrightarrow> distinct (map fst h) \<and> list_all (\<lambda>(k, vs). canonical_key k = k) h"

lemma header_values_same_key: "canonical_key k' = canonical_key k \<Longrightarrow> header_values h k' = header_values h k"
  by (simp add: header_values_def)

lemma header_values_add_all [simp]:
  "header_values (add_all k vs h) k' = (if canonical_key k' = canonical_key k then header_values h k @ vs else header_values h k')"
  unfolding add_all_def by (induction vs arbitrary: h) (auto dest: header_values_same_key)

lemma header_values_copied:
  assumes "header_ok src"
  shows "header_values (copy_headers skip src dst) k =
    (if skip (canonical_key k) then header_values dst k else header_values dst k @ header_values src k)"
  using assms unfolding copy_headers_def
proof (induction src arbitrary: dst)
  case Nil
  then show ?case by (simp add: header_values_def)
next
  case (Cons e src)
  obtain k1 vs where e: "e = (k1, vs)" by (cases e)
  have ok: "header_ok src" and c: "canonical_key k1 = k1" and fresh: "k1 \<notin> fst ` set src"
    using Cons.prems e by (auto simp: header_ok_def)
  have hd_vals: "header_values (e # src) k = (if canonical_key k = k1 then vs else header_values src k)"
    by (simp add: header_values_def e)
  have none: "header_values src k = []" if "canonical_key k = k1"
    using that fresh map_of_eq_None_iff[of src k1] by (simp add: header_values_def)
  have dst: "header_values (add_all k1 vs dst) k =
      (if canonical_key k = k1 then header_values dst k @ vs else header_values dst k)"
    using c header_values_same_key[of k k1 dst] by auto
  show ?case
    using Cons.IH[OF ok, of "if skip k1 then dst else add_all k1 vs dst"] hd_vals none dst c
    by (auto simp: e)
qed

lemma header_values_Nil [simp]: "header_values [] k = []"
  by (simp add: header_values_def)

text \<open>What comes of a header of the client in the upstream request.\<close>

definition dropped :: "(rune \<Rightarrow> rune) \<Rightarrow> string \<Rightarrow> bool" where
  "dropped ul k \<longleftrightarrow> hop_by_hop ul k \<or> equal_fold k ''Content-Length''"

lemma upstream_headers_at:
  assumes "header_ok (r_Header r)"
  shows "header_values (upstream_headers ul d r) k =
    (let ck = canonical_key k; own = (if dropped ul ck then [] else header_values (r_Header r) k) in
     if ck = ''X-Forwarded-Proto'' then [if r_TLS r then ''https'' else ''http'']
     else if ck = ''X-Forwarded-For'' then
       (case SplitHost (r_RemoteAddr r) of
          Some ip \<Rightarrow> if ip = [] then own else
            [if own \<noteq> [] \<and> hd own \<noteq> [] then hd own @ '', '' @ ip else ip]
        | None \<Rightarrow> own)
     else if ck = ''Authorization'' \<and> d_upstreamAuthToken d \<noteq> [] then [''Bearer '' @ d_upstreamAuthToken d]
     else own)"
proof -
  have c: "header_values (copy_headers (\<lambda>k. hop_by_hop ul k \<or> equal_fold k ''Content-Length'') (r_Header r) []) k =
      (if dropped ul (canonical_key k) then [] else header_values (r_Header r) k)" for k
    by (simp add: header_values_copied[OF assms] dropped_def)
  show ?thesis
  proof (cases "canonical_key k = ''X-Forwarded-For''")
    case True
    then have "canonical_key k = canonical_key ''X-Forwarded-For''" by simp
    from header_values_same_key[OF this] True show ?thesis
      by (auto simp: upstream_headers_def Let_def c header_get_def forwarded_for_def split: option.splits list.splits)
  next
    case False
    then show ?thesis
      by (auto simp: upstream_headers_def Let_def c split: option.splits)
  qed
qed

section \<open>What Forward leaves alone\<close>

text \<open>A dispatcher whose breaker, if it has one, reports to the gauge of the registry.\<close>

definition wired :: "Dispatcher \<Rightarrow> bool" where
  "wired d \<longleftrightarrow> (case d_circuitBreaker d of None \<Rightarrow> True
     | Some cb \<Rightarrow> onStateChange cb = None \<or> onStateChange cb = Some breaker_callback)"

definition same_counts :: "telemetry \<Rightarrow> telemetry \<Rightarrow> bool" where
  "same_counts t t' \<longleftrightarrow> t_audit t' = t_audit t \<and> requestsTotal (t_metrics t') = requestsTotal (t_metrics t) \<and>
     auditRecordsTotal (t_metrics t') = auditRecordsTotal (t_metrics t)"

lemma notify_counts:
  assumes "onStateChange cb = None \<or> onStateChange cb = Some breaker_callback"
  shows "requestsTotal (Circuit_Breaker.notify cb a b reg) = requestsTotal reg" "auditRecordsTotal (Circuit_Breaker.notify cb a b reg) = auditRecordsTotal reg"
  using assms by (auto simp: Circuit_Breaker.notify_def breaker_callback_def SetCircuitBreakerState_def)

lemma breaker_ops_counts:
  assumes "onStateChange cb = None \<or> onStateChange cb = Some breaker_callback"
  shows "snd (Allow now cb reg) = (cb', reg') \<Longrightarrow> onStateChange cb' = onStateChange cb \<and>
      requestsTotal reg' = requestsTotal reg \<and> auditRecordsTotal reg' = auditRecordsTotal reg"
    and "RecordSuccess cb reg = (cb', reg') \<Longrightarrow> onStateChange cb' = onStateChange cb \<and>
      requestsTotal reg' = requestsTotal reg \<and> auditRecordsTotal reg' = auditRecordsTotal reg"
    and "RecordFailure now cb reg = (cb', reg') \<Longrightarrow> onStateChange cb' = onStateChange cb \<and>
      requestsTotal reg' = requestsTotal reg \<and> auditRecordsTotal reg' = auditRecordsTotal reg"
  using notify_counts[OF assms]
  by (auto simp: Allow_def RecordSuccess_def RecordFailure_def Let_def split: State.splits if_splits)

text \<open>A step of \<open>Forward\<close> that only works on the breaker.\<close>

definition breaker_step :: "forward_state \<Rightarrow> forward_state \<Rightarrow> bool" where
  "breaker_step s s' \<longleftrightarrow> same_counts (fs_telemetry s) (fs_telemetry s') \<and> wired (fs_dispatcher s') \<and>
     d_auditLedger (fs_dispatcher s') = d_auditLedger (fs_dispatcher s) \<and>
     d_upstreamURL (fs_dispatcher s') = d_upstreamURL (fs_dispatcher s) \<and>
     d_upstreamAuthToken (fs_dispatcher s') = d_upstreamAuthToken (fs_dispatcher s) \<and>
     fs_context s' = fs_context s \<and> fs_response s' = fs_response s \<and> fs_request s' = fs_request s \<and> fs_effects s' = fs_effects s"

lemma with_breaker_step:
  assumes "wired (fs_dispatcher s)"
    and "\<And>cb reg cb' reg'. onStateChange cb = None \<or> onStateChange cb = Some breaker_callback \<Longrightarrow> f cb reg = (cb', reg') \<Longrightarrow>
      onStateChange cb' = onStateChange cb \<and> requestsTotal reg' = requestsTotal reg \<and> auditRecordsTotal reg' = auditRecordsTotal reg"
  shows "breaker_step s (with_breaker f s)"
proof (cases "d_circuitBreaker (fs_dispatcher s)")
  case None
  then show ?thesis using assms(1) by (simp add: with_breaker_def breaker_step_def same_counts_def)
next
  case (Some cb)
  obtain cb' reg where f: "f cb (t_metrics (fs_telemetry s)) = (cb', reg)" by fastforce
  from assms(2)[OF _ f] assms(1) Some f show ?thesis
    by (auto simp: with_breaker_def breaker_step_def same_counts_def wired_def)
qed

lemmas breaker_steps =
  with_breaker_step[of _ "\<lambda>cb w. snd (Allow now cb w)" for now, OF _ breaker_ops_counts(1)]
  with_breaker_step[of _ RecordSuccess, OF _ breaker_ops_counts(2)]
  with_breaker_step[of _ "RecordFailure now" for now, OF _ breaker_ops_counts(3)]

section \<open>Every answer is booked once\<close>

definition booked :: "exchange \<Rightarrow> bytes \<Rightarrow> telemetry \<Rightarrow> forward_state \<Rightarrow> bool" where
  "booked x payload t s \<longleftrightarrow> (\<exists>action status resp.
     t_audit (fs_telemetry s) = t_audit t @ (if d_auditLedger (fs_dispatcher s)
       then [Record_record (x_audit_at x) (TenantID (fs_context s)) (SessionID (fs_context s)) action (Some payload) (Some resp)]
       else []) \<and>
     requestsTotal (t_metrics (fs_telemetry s)) =
       CounterVec_Inc (request_labels (TenantID (fs_context s)) action status) (requestsTotal (t_metrics t)) \<and>
     auditRecordsTotal (t_metrics (fs_telemetry s)) = SimpleCounter_Inc (auditRecordsTotal (t_metrics t)))"

definition keeps_counts :: "(Registry \<Rightarrow> Registry) \<Rightarrow> bool" where
  "keeps_counts f \<longleftrightarrow> (\<forall>reg. requestsTotal (f reg) = requestsTotal reg \<and> auditRecordsTotal (f reg) = auditRecordsTotal reg)"

lemma keeps_counts_simps [simp]:
  "keeps_counts id" "keeps_counts (violation_counters tenant rule stage)" "keeps_counts (observe_stages order durations)"
proof -
  show "keeps_counts id" by (simp add: keeps_counts_def)
  show "keeps_counts (violation_counters tenant rule stage)"
    by (simp add: keeps_counts_def violation_counters_def Let_def IncTripwireViolations_def IncCanaryDetections_def)
  have "requestsTotal (observe_stages order durations reg) = requestsTotal reg \<and>
      auditRecordsTotal (observe_stages order durations reg) = auditRecordsTotal reg" for reg
    unfolding observe_stages_def
    by (induction order arbitrary: reg) (auto simp: ObserveStageDuration_def split: option.splits)
  then show "keeps_counts (observe_stages order durations)" by (simp add: keeps_counts_def)
qed

lemma account_fields [simp]:
  "fs_dispatcher (account x action status payload resp f s) = fs_dispatcher s"
  "fs_context (account x action status payload resp f s) = fs_context s"
  "fs_response (account x action status payload resp f s) = fs_response s"
  "fs_request (account x action status payload resp f s) = fs_request s"
  "fs_effects (account x action status payload resp f s) = fs_effects s"
  by (simp_all add: account_def Let_def)

lemma account_books: "keeps_counts f \<Longrightarrow> same_counts t (fs_telemetry s) \<Longrightarrow> booked x payload t (account x action status payload resp f s)"
  unfolding booked_def
  by (intro exI[of _ action] exI[of _ status] exI[of _ resp])
    (simp add: account_def Let_def count_with_def audit_with_def same_counts_def keeps_counts_def IncRequests_def IncAuditRecords_def)

lemma answer_error_fields [simp]:
  "fs_dispatcher (answer_error x status body s) = fs_dispatcher s" "fs_telemetry (answer_error x status body s) = fs_telemetry s"
  "fs_context (answer_error x status body s) = fs_context s" "fs_request (answer_error x status body s) = fs_request s"
  by (simp_all add: answer_error_def)

lemma respond_sends: "rw_sent w = None \<Longrightarrow> rw_sent (respond f status b w) = Some (status, rw_Header (set_header ''Content-Type'' ''application/json'' w))"
  by (simp add: respond_def write_body_def write_header_def set_header_def Let_def split: option.splits)

text \<open>The returns of \<open>Forward\<close> that have written nothing.\<close>

fun unanswered :: "forward_error option \<Rightarrow> bool" where
  "unanswered (Some (NewRequestFailed e)) \<longleftrightarrow> True"
| "unanswered (Some (ContextErr e)) \<longleftrightarrow> True"
| "unanswered (Some (BodyReadFailed e)) \<longleftrightarrow> True"
| "unanswered _ \<longleftrightarrow> False"

lemma answered_results [simp]: "\<not> unanswered (map_option StreamFailed e)" "\<not> unanswered (map_option ResponseWriteFailed e')"
  by (cases e; simp) (cases e'; simp)

definition accounted :: "exchange \<Rightarrow> bytes \<Rightarrow> telemetry \<Rightarrow> response \<Rightarrow> forward_outcome \<Rightarrow> forward_state \<Rightarrow> bool" where
  "accounted x payload t w res s \<longleftrightarrow>
     (case res of
        Done e \<Rightarrow> if unanswered e then same_counts t (fs_telemetry s) \<and> fs_response s = w
                  else booked x payload t s \<and> rw_sent (fs_response s) \<noteq> None
      | _ \<Rightarrow> same_counts t (fs_telemetry s))"

lemma stream_accounted:
  assumes "same_counts t (fs_telemetry s)" and "rw_sent (fs_response s) = None"
    and "stream_response x payload status h es s = (res, s')"
  shows "accounted x payload t w res s'"
  using assms
  by (auto simp: stream_response_def Let_def accounted_def copy_response_headers_def send_status_def sse_headers_def
      set_header_def write_header_def split: prod.splits option.splits if_splits intro!: account_books)

lemma sync_accounted:
  assumes "same_counts t (fs_telemetry s)" and "rw_sent (fs_response s) = None" and "fs_response s = w"
    and "sync_response x payload status h es s = (res, s')"
  shows "accounted x payload t w res s'"
  using assms
  by (auto simp: sync_response_def refuse_body_def release_body_def Let_def accounted_def copy_response_headers_def
      send_status_def write_header_def write_body_def answer_error_def respond_sends
      split: prod.splits option.splits sum.splits if_splits intro!: account_books)

lemma dispatch_accounted:
  assumes "wired (fs_dispatcher s)" and "same_counts t (fs_telemetry s)" and "rw_sent (fs_response s) = None" and "fs_response s = w"
    and "dispatch x r payload s = (res, s')"
  shows "accounted x payload t w res s'"
proof (cases "x_new_request x")
  case (Some e)
  then show ?thesis using assms(2,4,5) by (auto simp: dispatch_def accounted_def)
next
  case None
  define s1 where "s1 = s\<lparr>fs_request := Some (upstream_request_of (x_ul x) (fs_dispatcher s) r payload)\<rparr>"
  have w1: "wired (fs_dispatcher s1)" and eqs: "fs_telemetry s1 = fs_telemetry s" "fs_response s1 = w"
    using assms(1,4) by (simp_all add: s1_def)
  note steps = breaker_steps(2)[OF w1] breaker_steps(3)[OF w1, of "x_record_at x"]
  have trans: "same_counts t (fs_telemetry s')" "fs_response s' = w" if "breaker_step s1 s'" for s'
    using that assms(2) eqs by (simp_all add: breaker_step_def same_counts_def)
  show ?thesis
  proof (cases "x_answer x")
    case (DoFailed err)
    with assms(3-5) None trans[OF steps(2)] show ?thesis
      by (auto simp: dispatch_def s1_def[symmetric] dispatch_failed_def Let_def accounted_def answer_error_def respond_sends
          split: option.splits intro!: account_books)
  next
    case (Response status h es)
    let ?s2 = "with_breaker (if status \<ge> 500 then RecordFailure (x_record_at x) else RecordSuccess) s1"
    have b: "same_counts t (fs_telemetry ?s2)" "fs_response ?s2 = w"
      using trans[OF steps(1)] trans[OF steps(2)] by simp_all
    from assms(5) None Response have
      "(if isSSE (x_ul x) h then stream_response x payload status h es ?s2 else sync_response x payload status h es ?s2) = (res, s')"
      by (simp add: dispatch_def s1_def[symmetric] got_response_def Let_def)
    then show ?thesis
      using stream_accounted[OF b(1)] sync_accounted[OF b(1) _ b(2)] b(2) assms(3,4) by (metis (full_types))
  qed
qed

lemma response_keeps:
  "stream_response x payload status h es s = (res, s') \<Longrightarrow> fs_dispatcher s' = fs_dispatcher s \<and> fs_request s' = fs_request s"
  "sync_response x payload status h es s = (res, s') \<Longrightarrow> fs_dispatcher s' = fs_dispatcher s \<and> fs_request s' = fs_request s"
  by (auto simp: stream_response_def sync_response_def refuse_body_def release_body_def Let_def copy_response_headers_def
      send_status_def split: prod.splits option.splits sum.splits if_splits)

text \<open>The dispatcher itself is kept, up to its breaker, and what is sent is the request built from the client's.\<close>

definition same_dispatcher :: "Dispatcher \<Rightarrow> Dispatcher \<Rightarrow> bool" where
  "same_dispatcher d d' \<longleftrightarrow> d_upstreamURL d' = d_upstreamURL d \<and> d_upstreamAuthToken d' = d_upstreamAuthToken d \<and>
     d_idleTimeout d' = d_idleTimeout d \<and> d_auditLedger d' = d_auditLedger d"

lemma same_dispatcher_refl [simp]: "same_dispatcher d d"
  by (simp add: same_dispatcher_def)

lemma same_dispatcher_fields:
  "same_dispatcher d d' \<Longrightarrow> d_auditLedger d' = d_auditLedger d \<and> d_upstreamURL d' = d_upstreamURL d \<and>
     d_upstreamAuthToken d' = d_upstreamAuthToken d"
  by (simp add: same_dispatcher_def)

lemma with_breaker_same:
  "same_dispatcher d (fs_dispatcher s) \<Longrightarrow> same_dispatcher d (fs_dispatcher (with_breaker f s))"
  by (auto simp: same_dispatcher_def with_breaker_def split: option.splits prod.splits)

lemma with_breaker_request [simp]: "fs_request (with_breaker f s) = fs_request s"
  by (auto simp: with_breaker_def split: option.splits prod.splits)

lemma upstream_request_same:
  "same_dispatcher d d' \<Longrightarrow> upstream_request_of ul d' r p = upstream_request_of ul d r p"
  by (auto dest: same_dispatcher_fields simp: upstream_request_of_def upstream_headers_def Let_def split: option.splits)

lemma dispatch_same:
  assumes "dispatch x r p s = (res, s')" and "same_dispatcher d (fs_dispatcher s)" and "fs_request s = None"
  shows "same_dispatcher d (fs_dispatcher s') \<and> (fs_request s' = None \<or> fs_request s' = Some (upstream_request_of (x_ul x) d r p))"
proof (cases "x_new_request x")
  case None
  let ?s1 = "s\<lparr>fs_request := Some (upstream_request_of (x_ul x) (fs_dispatcher s) r p)\<rparr>"
  have q: "fs_request ?s1 = Some (upstream_request_of (x_ul x) d r p)" "same_dispatcher d (fs_dispatcher ?s1)"
    using upstream_request_same[OF assms(2)] assms(2) by simp_all
  show ?thesis
  proof (cases "x_answer x")
    case (DoFailed err)
    then have "fs_dispatcher s' = fs_dispatcher (with_breaker (RecordFailure (x_record_at x)) ?s1) \<and>
        fs_request s' = fs_request (with_breaker (RecordFailure (x_record_at x)) ?s1)"
      using assms(1) None by (auto simp: dispatch_def dispatch_failed_def Let_def split: option.splits)
    then show ?thesis using with_breaker_same[OF q(2), of "RecordFailure (x_record_at x)"] q(1) with_breaker_request by metis
  next
    case (Response status h es)
    let ?s2 = "with_breaker (if status \<ge> 500 then RecordFailure (x_record_at x) else RecordSuccess) ?s1"
    have "fs_dispatcher s' = fs_dispatcher ?s2 \<and> fs_request s' = fs_request ?s2"
      using assms(1) None Response response_keeps[of x p status h es ?s2 res s']
      by (auto simp: dispatch_def got_response_def Let_def split: if_splits)
    then show ?thesis
      using with_breaker_same[OF q(2), of "if status \<ge> 500 then RecordFailure (x_record_at x) else RecordSuccess"] q(1)
        with_breaker_request by metis
  qed
qed (use assms in \<open>auto simp: dispatch_def\<close>)

lemma Forward_same:
  assumes "Forward x r pc d t w = (res, s)"
  shows "same_dispatcher d (fs_dispatcher s) \<and> (fs_request s = None \<or>
    fs_request s = Some (upstream_request_of (x_ul x) d r (forward_payload r (fs_context (start_forward r pc d t w)))))"
proof -
  let ?s0 = "start_forward r pc d t w"
  obtain e s1 where au: "allow_upstream (x_allow_at x) ?s0 = (e, s1)" by fastforce
  have "same_dispatcher d (fs_dispatcher ?s0)" "fs_request ?s0 = None" by (simp_all add: start_forward_def)
  then have s1: "same_dispatcher d (fs_dispatcher s1)" "fs_request s1 = None"
    using au with_breaker_same[of d ?s0] by (auto simp: allow_upstream_def split: option.splits)
  show ?thesis
  proof (cases e)
    case None
    then show ?thesis using assms au dispatch_same[OF _ s1] by (simp add: Forward_def Let_def)
  next
    case (Some err)
    then show ?thesis using assms au s1 by (auto simp: Forward_def Let_def refuse_open_def)
  qed
qed

lemma breaker_step_wired: "breaker_step s s' \<Longrightarrow> wired (fs_dispatcher s')"
  by (simp add: breaker_step_def)

lemma with_breaker_wired:
  assumes "wired (fs_dispatcher s)"
  shows "wired (fs_dispatcher (with_breaker RecordSuccess s))"
    and "wired (fs_dispatcher (with_breaker (RecordFailure now) s))"
    and "wired (fs_dispatcher (snd (allow_upstream now s)))"
proof -
  show "wired (fs_dispatcher (with_breaker RecordSuccess s))" "wired (fs_dispatcher (with_breaker (RecordFailure now) s))"
    using breaker_step_wired[OF breaker_steps(2)[OF assms]] breaker_step_wired[OF breaker_steps(3)[OF assms]] by simp_all
  show "wired (fs_dispatcher (snd (allow_upstream now s)))"
    using breaker_step_wired[OF breaker_steps(1)[OF assms, of now]] assms
    by (cases "d_circuitBreaker (fs_dispatcher s)") (simp_all add: allow_upstream_def)
qed

lemma dispatch_wired:
  assumes "dispatch x r p s = (res, s')" and "wired (fs_dispatcher s)"
  shows "wired (fs_dispatcher s')"
proof (cases "x_new_request x")
  case None
  let ?s1 = "s\<lparr>fs_request := Some (upstream_request_of (x_ul x) (fs_dispatcher s) r p)\<rparr>"
  have "wired (fs_dispatcher ?s1)" using assms(2) by simp
  note w = with_breaker_wired(1)[OF this] with_breaker_wired(2)[OF this, of "x_record_at x"]
  show ?thesis
  proof (cases "x_answer x")
    case (DoFailed err)
    then show ?thesis using assms None w by (auto simp: dispatch_def dispatch_failed_def Let_def split: option.splits)
  next
    case (Response status h es)
    let ?s2 = "with_breaker (if status \<ge> 500 then RecordFailure (x_record_at x) else RecordSuccess) ?s1"
    have "fs_dispatcher s' = fs_dispatcher ?s2"
      using assms(1) None Response response_keeps[of x p status h es ?s2 res s']
      by (auto simp: dispatch_def got_response_def Let_def split: if_splits)
    then show ?thesis using assms(2) w by auto
  qed
qed (use assms in \<open>auto simp: dispatch_def\<close>)

lemma Forward_wired:
  assumes "Forward x r pc d t w = (res, s)" and "wired d"
  shows "wired (fs_dispatcher s)"
proof -
  let ?s0 = "start_forward r pc d t w"
  obtain e s1 where au: "allow_upstream (x_allow_at x) ?s0 = (e, s1)" by fastforce
  then have "wired (fs_dispatcher s1)"
    using with_breaker_wired(3)[of ?s0 "x_allow_at x"] assms(2) by (auto simp: start_forward_def)
  then show ?thesis using assms(1) au dispatch_wired by (cases e) (auto simp: Forward_def Let_def refuse_open_def)
qed

lemma Forward_accounted:
  assumes "wired d" and "rw_sent w = None" and "Forward x r pc d t w = (res, s)"
  shows "accounted x (forward_payload r (fs_context (start_forward r pc d t w))) t w res s"
proof -
  let ?s0 = "start_forward r pc d t w"
  have w0: "wired (fs_dispatcher ?s0)" "same_counts t (fs_telemetry ?s0)" "fs_response ?s0 = w"
    using assms(1) by (simp_all add: start_forward_def same_counts_def)
  obtain e s1 where a: "allow_upstream (x_allow_at x) ?s0 = (e, s1)" by fastforce
  have "breaker_step ?s0 s1"
  proof (cases "d_circuitBreaker (fs_dispatcher ?s0)")
    case None
    then show ?thesis using a w0(1) by (simp add: allow_upstream_def breaker_step_def same_counts_def)
  next
    case (Some cb)
    then show ?thesis using a breaker_steps(1)[OF w0(1), of "x_allow_at x"] by (simp add: allow_upstream_def)
  qed
  then have s1: "wired (fs_dispatcher s1)" "same_counts t (fs_telemetry s1)" "fs_response s1 = w"
    using w0 by (simp_all add: breaker_step_def same_counts_def)
  show ?thesis
  proof (cases e)
    case None
    then show ?thesis using assms(2,3) a s1 dispatch_accounted[OF s1(1,2) _ s1(3)] by (simp add: Forward_def Let_def)
  next
    case (Some err)
    then show ?thesis using assms(2,3) a s1
      by (auto simp: Forward_def Let_def refuse_open_def accounted_def answer_error_def respond_sends intro!: account_books)
  qed
qed

section \<open>Properties\<close>

text \<open>
  one call of \<open>Forward\<close> books what it answers, whatever upstream, clock, breaker and client do: if it
  returns with an answer written, exactly one audit record has been handed to the ledger (with the
  tenant, session and payload of the call), exactly one request is counted for the tenant, and the
  counter of audit records is one higher; in every other case, while it still waits for the upstream,
  when it panics, and when it returns an error that leaves the response untouched, nothing is booked.
\<close>

theorem forward_books_once:
  assumes "wired d" and "rw_sent w = None" and "Forward x r pc d t w = (res, s)"
  shows "accounted x (forward_payload r (fs_context (start_forward r pc d t w))) t w res s"
  using assms by (rule Forward_accounted)

definition example_url :: URL where
  "example_url = \<lparr>u_Scheme = ''http'', u_Host = ''llm:11434'', u_Path = [], u_RawPath = [], u_RawQuery = [], u_Fragment = []\<rparr>"

definition example_dispatcher :: Dispatcher where
  "example_dispatcher = (case NewDispatcher (Some example_url) 0 of Some d \<Rightarrow> SetAuditLedger True d)"

definition example_exchange :: "upstream_answer \<Rightarrow> exchange" where
  "example_exchange answer = \<lparr>x_ul = id, x_allow_at = 0, x_record_at = 1, x_audit_at = 2, x_new_request = None,
     x_answer = answer, x_ctx_err = None, x_stream = plain_env, x_order = [], x_why = (\<lambda>_. [])\<rparr>"

definition example_telemetry :: telemetry where
  "example_telemetry = \<lparr>t_metrics = NewRegistry, t_audit = []\<rparr>"

lemma example_wired: "wired example_dispatcher"
  by (simp add: wired_def example_dispatcher_def NewDispatcher_def SetAuditLedger_def SetOnStateChange_def)

lemma forward_books_once_witness:
  "let x = example_exchange (DoFailed ''refused'');
       fr = Forward x example_request (Some new_context) example_dispatcher example_telemetry new_response
   in accounted x (forward_payload example_request new_context) example_telemetry new_response (fst fr) (snd fr)"
  using forward_books_once[of example_dispatcher new_response "example_exchange (DoFailed ''refused'')" example_request
      "Some new_context" example_telemetry] example_wired
  by (simp add: Let_def new_response_def start_forward_def)

lemma upstream_request_breaker [simp]:
  "upstream_request_of ul (d\<lparr>d_circuitBreaker := c\<rparr>) r p = upstream_request_of ul d r p"
  by (simp add: upstream_request_of_def upstream_headers_def Let_def split: option.splits)

text \<open>The answers that the breaker counts as failures.\<close>

fun failing :: "upstream_answer \<Rightarrow> bool" where
  "failing (DoFailed err) \<longleftrightarrow> True"
| "failing (Response status h es) \<longleftrightarrow> status \<ge> 500"

lemma dispatch_breaker:
  assumes "dispatch x r p s = (res, s')" and "d_circuitBreaker (fs_dispatcher s) = Some cb"
  shows "if x_new_request x \<noteq> None then s' = s
    else fs_request s' = Some (upstream_request_of (x_ul x) (fs_dispatcher s) r p) \<and>
      d_circuitBreaker (fs_dispatcher s') = Some (fst (if failing (x_answer x)
        then RecordFailure (x_record_at x) cb (t_metrics (fs_telemetry s)) else RecordSuccess cb (t_metrics (fs_telemetry s))))"
proof (cases "x_new_request x")
  case None
  show ?thesis
  proof (cases "x_answer x")
    case (DoFailed err)
    then show ?thesis using assms None
      by (auto simp: dispatch_def dispatch_failed_def with_breaker_def Let_def split: option.splits prod.splits)
  next
    case (Response status h es)
    then show ?thesis using assms None
      by (auto simp: dispatch_def got_response_def with_breaker_def Let_def split: option.splits prod.splits if_splits
          dest!: response_keeps)
  qed
qed (use assms in \<open>auto simp: dispatch_def\<close>)

text \<open>A call on a dispatcher with a breaker, after the breaker has been asked.\<close>

lemma Forward_with_breaker:
  assumes "Allow (x_allow_at x) cb (t_metrics t) = (e, cb1, reg)"
  obtains s1 where "fs_request s1 = None" "fs_dispatcher s1 = d\<lparr>d_circuitBreaker := Some cb1\<rparr>"
    "fs_telemetry s1 = t\<lparr>t_metrics := reg\<rparr>" "fs_response s1 = w" "fs_context s1 = fs_context (start_forward r pc d t w)"
    "Forward x r pc (d\<lparr>d_circuitBreaker := Some cb\<rparr>) t w =
       (case e of Some e \<Rightarrow> refuse_open x (forward_payload r (fs_context (start_forward r pc d t w))) s1
        | None \<Rightarrow> dispatch x r (forward_payload r (fs_context (start_forward r pc d t w))) s1)"
proof
  let ?d = "d\<lparr>d_circuitBreaker := Some cb\<rparr>"
  let ?s1 = "(start_forward r pc d t w)\<lparr>fs_dispatcher := d\<lparr>d_circuitBreaker := Some cb1\<rparr>, fs_telemetry := t\<lparr>t_metrics := reg\<rparr>\<rparr>"
  have au: "allow_upstream (x_allow_at x) (start_forward r pc ?d t w) = (e, ?s1)"
    using assms by (simp add: allow_upstream_def with_breaker_def start_forward_def)
  have "fs_context (start_forward r pc ?d t w) = fs_context (start_forward r pc d t w)" by (simp add: start_forward_def)
  then show "Forward x r pc ?d t w =
       (case e of Some e \<Rightarrow> refuse_open x (forward_payload r (fs_context (start_forward r pc d t w))) ?s1
        | None \<Rightarrow> dispatch x r (forward_payload r (fs_context (start_forward r pc d t w))) ?s1)"
    by (simp add: Forward_def Let_def au split: option.splits)
qed (simp_all add: start_forward_def)

text \<open>
  C20: the breaker guards and watches every dispatch. While it refuses, nothing is sent upstream; once it
  has allowed a call, the request that is sent is the one built from the client's, and it records
  exactly one failure, if the dispatch failed (a client that went away included) or the status is 500 or
  more, and exactly one success otherwise. A call that fails to build its request records neither.
\<close>

theorem breaker_guards_dispatch:
  "case Forward x r pc (d\<lparr>d_circuitBreaker := Some cb\<rparr>) t w of (res, s) \<Rightarrow>
     (case Allow (x_allow_at x) cb (t_metrics t) of
        (Some e, cb1, reg) \<Rightarrow>
          res = Done (Some CircuitOpen) \<and> fs_request s = None \<and> d_circuitBreaker (fs_dispatcher s) = Some cb1
      | (None, cb1, reg) \<Rightarrow>
          if x_new_request x \<noteq> None
          then fs_request s = None \<and> d_circuitBreaker (fs_dispatcher s) = Some cb1
          else fs_request s = Some (upstream_request_of (x_ul x) d r (forward_payload r (fs_context (start_forward r pc d t w)))) \<and>
            d_circuitBreaker (fs_dispatcher s) = Some (fst
              (if failing (x_answer x)
               then RecordFailure (x_record_at x) cb1 reg else RecordSuccess cb1 reg)))"
proof -
  obtain e cb1 reg where al: "Allow (x_allow_at x) cb (t_metrics t) = (e, cb1, reg)" by (cases "Allow (x_allow_at x) cb (t_metrics t)")
  let ?p = "forward_payload r (fs_context (start_forward r pc d t w))"
  from al show ?thesis
  proof (rule Forward_with_breaker[where d = d and r = r and pc = pc and w = w], goal_cases)
    case (1 s1)
    show ?case
    proof (cases e)
      case (Some err)
      then show ?thesis using al 1 by (simp add: refuse_open_def Let_def)
    next
      case None
      obtain res s where Pair: "dispatch x r ?p s1 = (res, s)" by fastforce
      with None al 1 show ?thesis using dispatch_breaker[OF Pair, of cb1] by (auto split: option.splits)
    qed
  qed
qed

text \<open>
  C38: the headers of the upstream request, for every header map the HTTP parser builds. The hop-by-hop
  headers of the table and the content length are dropped, a configured token replaces the client's
  authorization, the client's address is appended to the first value of X-Forwarded-For, and the
  scheme is that of the connection; every other header goes upstream as it came, the tenant's
  own \<open>X-API-Key\<close> included, and without a configured token its bearer key.
\<close>

theorem upstream_headers_exact:
  assumes "header_ok (r_Header r)"
  shows "header_values (upstream_headers ul d r) k =
    (let ck = canonical_key k; own = (if dropped ul ck then [] else header_values (r_Header r) k) in
     if ck = ''X-Forwarded-Proto'' then [if r_TLS r then ''https'' else ''http'']
     else if ck = ''X-Forwarded-For'' then
       (case SplitHost (r_RemoteAddr r) of
          Some ip \<Rightarrow> if ip = [] then own else
            [if own \<noteq> [] \<and> hd own \<noteq> [] then hd own @ '', '' @ ip else ip]
        | None \<Rightarrow> own)
     else if ck = ''Authorization'' \<and> d_upstreamAuthToken d \<noteq> [] then [''Bearer '' @ d_upstreamAuthToken d]
     else own)"
  using assms by (rule upstream_headers_at)

lemma upstream_headers_exact_witness:
  "header_values (upstream_headers id (SetUpstreamAuthToken ''up'' example_dispatcher)
     (example_request\<lparr>r_Header := [(''X-Api-Key'', [''k1''])]\<rparr>)) ''X-API-Key'' = [''k1'']"
proof -
  have "canonical_key ''X-Api-Key'' = ''X-Api-Key''" by code_simp
  then have ok: "header_ok (r_Header (example_request\<lparr>r_Header := [(''X-Api-Key'', [''k1''])]\<rparr>))"
    by (simp add: header_ok_def)
  have "\<not> dropped id ''X-Api-Key''" by code_simp
  then show ?thesis
    using upstream_headers_exact[OF ok, of id "SetUpstreamAuthToken ''up'' example_dispatcher" "''X-API-Key''"]
    by (simp add: header_values_def)
qed

lemma stream_response_body:
  assumes "stream_response x p status h es s = (res, s')" and "rw_body (fs_response s) = []"
    and "received es = u @ q @ v" and "guarded (CanaryToken (fs_context s)) q" and "length q \<le> 65"
  shows "\<exists>head tail. rw_body (fs_response s') = head @ tail \<and> prefix head u \<and>
    (tail = [] \<or> list_ex (\<lambda>viol. prefix tail (frame_of viol)) leak_violations)"
proof (cases "status_ok status")
  case True
  obtain r1 io where ps: "ProcessStream ((x_stream x)\<lparr>hasConn := False, hasCancel := True\<rparr>) es (Some (fs_context s)) = (r1, io)"
    by fastforce
  have "rw_body (fs_response s') = Lookahead.written io"
    using assms(1,2) True ps
    by (auto simp: stream_response_def Let_def copy_response_headers_def send_status_def sse_headers_def set_header_def
        write_header_def split: option.splits if_splits)
  with ProcessStream_releases[OF ps assms(3) _ assms(5)] assms(4) show ?thesis by (auto simp: active_canary_def)
next
  case False
  then show ?thesis using assms(1,2)
    by (intro exI[of _ "[]"]) (auto simp: stream_response_def Let_def copy_response_headers_def sse_headers_def set_header_def)
qed

lemma write_body_prefix: "rw_body w = [] \<Longrightarrow> prefix (rw_body (fst (write_body f b w))) b"
  by (auto simp: write_body_def write_header_def Let_def take_is_prefix split: option.splits)

lemma respond_body: "rw_body w = [] \<Longrightarrow> prefix (rw_body (respond f status b w)) b"
  unfolding respond_def by (intro write_body_prefix) (simp add: write_header_def set_header_def split: option.splits)

lemma sync_response_body:
  assumes "sync_response x p status h es s = (res, s')" and "rw_body (fs_response s) = []"
  shows "case ReadAll es of
      Some (Inr body) \<Rightarrow>
        (case InspectSync (x_why x) body (Some (fs_context s)) of
           None \<Rightarrow> prefix (rw_body (fs_response s')) body
         | Some v \<Rightarrow> prefix (rw_body (fs_response s')) (marshal_map (rule_object ''POLICY_VIOLATION'' (v_RuleID v) (v_Message v))))
    | _ \<Rightarrow> rw_body (fs_response s') = []"
proof (cases "ReadAll es")
  case (Some rb)
  show ?thesis
  proof (cases rb)
    case (Inr body)
    show ?thesis
    proof (cases "InspectSync (x_why x) body (Some (fs_context s))")
      case (Some v)
      then show ?thesis using assms \<open>ReadAll es = Some rb\<close> Inr
        by (auto simp: sync_response_def refuse_body_def Let_def answer_error_def intro: respond_body)
    next
      case None
      have "prefix (rw_body (fs_response s')) body" if "status_ok status"
      proof -
        let ?w = "fs_response (send_status status (copy_response_headers x h s))"
        have "fs_response s' = fst (write_body (write_fails (x_stream x) 0) body ?w)"
          using that assms(1) None \<open>ReadAll es = Some rb\<close> Inr
          by (auto simp: sync_response_def release_body_def Let_def split: prod.splits)
        moreover have "rw_body ?w = []"
          using assms(2) by (simp add: send_status_def copy_response_headers_def write_header_def split: option.splits)
        ultimately show ?thesis using write_body_prefix by simp
      qed
      moreover have "rw_body (fs_response s') = []" if "\<not> status_ok status"
        using that assms None \<open>ReadAll es = Some rb\<close> Inr
        by (auto simp: sync_response_def release_body_def Let_def copy_response_headers_def)
      ultimately show ?thesis using None \<open>ReadAll es = Some rb\<close> Inr by (cases "status_ok status") auto
    qed
  qed (use assms Some in \<open>auto simp: sync_response_def\<close>)
qed (use assms in \<open>auto simp: sync_response_def\<close>)

text \<open>A call that sent its request upstream and got a response ends with one of the two ways to answer it.\<close>

lemma Forward_response:
  assumes "Forward x r (Some pc) d t new_response = (res, s)" and "fs_request s \<noteq> None" and "x_answer x = Response status h es"
  shows "\<exists>s1. fs_context s1 = pc \<and> rw_body (fs_response s1) = [] \<and> fs_response s1 = new_response \<and> t_audit (fs_telemetry s1) = t_audit t \<and>
    (if isSSE (x_ul x) h then stream_response x (forward_payload r pc) status h es s1
     else sync_response x (forward_payload r pc) status h es s1) = (res, s)"
proof -
  let ?s0 = "start_forward r (Some pc) d t new_response"
  obtain e s0 where au: "allow_upstream (x_allow_at x) ?s0 = (e, s0)" by fastforce
  have keep: "fs_context (with_breaker f a) = fs_context a" "fs_response (with_breaker f a) = fs_response a"
    "t_audit (fs_telemetry (with_breaker f a)) = t_audit (fs_telemetry a)" "fs_request (with_breaker f a) = fs_request a" for f a
    by (auto simp: with_breaker_def split: option.splits prod.splits)
  have s0: "fs_context s0 = pc" "fs_response s0 = new_response" "t_audit (fs_telemetry s0) = t_audit t" "fs_request s0 = None"
    using au keep by (auto simp: allow_upstream_def start_forward_def split: option.splits)
  have ctx: "fs_context ?s0 = pc" by (simp add: start_forward_def)
  have "e = None" using assms(1,2) au s0(4) by (cases e) (auto simp: Forward_def Let_def refuse_open_def)
  then have d: "dispatch x r (forward_payload r pc) s0 = (res, s)" using assms(1) au ctx by (simp add: Forward_def Let_def)
  have "x_new_request x = None" using assms(2) d s0(4) by (cases "x_new_request x") (auto simp: dispatch_def)
  with d assms(3) show ?thesis
    by (intro exI[of _ "with_breaker (if status \<ge> 500 then RecordFailure (x_record_at x) else RecordSuccess)
        (s0\<lparr>fs_request := Some (upstream_request_of (x_ul x) (fs_dispatcher s0) r (forward_payload r pc))\<rparr>)"])
      (simp add: dispatch_def got_response_def Let_def keep s0, simp add: new_response_def)
qed

text \<open>
  C3: nothing that the engine guards gets through. For a request that was sent upstream, whatever comes
  back: of a guarded secret of at most 65 bytes that stands in a stream the client gets no byte, only a
  part of what precedes it and at most (a part of) an error frame; a whole body that contains the secret is
  not released at all, the client gets (a part of) an error object. The rule and the message of that frame
  or object are one of the six fixed pairs of texts, which do not depend on what was seen. A body that
  could not be read is not released either.
\<close>

theorem forward_leaks_nothing:
  assumes "Forward x r (Some pc) d t new_response = (res, s)" and "fs_request s \<noteq> None"
    and "x_answer x = Response status h es" and "guarded (CanaryToken pc) q" and "length q \<le> 65"
  shows "if isSSE (x_ul x) h
    then \<forall>u v. received es = u @ q @ v \<longrightarrow> (\<exists>head tail. rw_body (fs_response s) = head @ tail \<and> prefix head u \<and>
      (tail = [] \<or> list_ex (\<lambda>viol. prefix tail (frame_of viol)) leak_violations))
    else (case ReadAll es of
        Some (Inr b) \<Rightarrow> contains b q \<longrightarrow>
          list_ex (\<lambda>viol. prefix (rw_body (fs_response s))
            (marshal_map (rule_object ''POLICY_VIOLATION'' (v_RuleID viol) (v_Message viol)))) leak_violations
      | _ \<Rightarrow> rw_body (fs_response s) = [])"
proof -
  obtain s1 where s1: "fs_context s1 = pc" "rw_body (fs_response s1) = []"
    "(if isSSE (x_ul x) h then stream_response x (forward_payload r pc) status h es s1
      else sync_response x (forward_payload r pc) status h es s1) = (res, s)"
    using Forward_response[OF assms(1-3)] by blast
  show ?thesis
  proof (cases "isSSE (x_ul x) h")
    case True
    with s1 stream_response_body[of x "forward_payload r pc" status h es s1 res s _ q] assms(4,5) show ?thesis by simp
  next
    case False
    have sync: "sync_response x (forward_payload r pc) status h es s1 = (res, s)" using s1(3) False by simp
    note body = sync_response_body[OF sync s1(2), unfolded s1(1)]
    have "list_ex (\<lambda>viol. prefix (rw_body (fs_response s))
        (marshal_map (rule_object ''POLICY_VIOLATION'' (v_RuleID viol) (v_Message viol)))) leak_violations"
      if "ReadAll es = Some (Inr b)" "contains b q" for b
    proof -
      from assms(4) have "guarded (active_canary (Some pc)) q" by (simp add: active_canary_def)
      from InspectSync_guarded[OF this that(2)] obtain v where
        "InspectSync (x_why x) b (Some pc) = Some v" "v \<in> set leak_violations" by blast
      then show ?thesis using body that(1) by (auto simp: list_ex_iff)
    qed
    then show ?thesis using False body by (auto split: option.split sum.split)
  qed
qed

lemma Forward_sends:
  assumes "d_circuitBreaker d = Some cb" and "fst (Allow (x_allow_at x) cb (t_metrics t)) = None" and "x_new_request x = None"
  shows "fs_request (snd (Forward x r pc d t w)) \<noteq> None"
proof -
  obtain cb1 reg where al: "Allow (x_allow_at x) cb (t_metrics t) = (None, cb1, reg)"
    using assms(2) by (cases "Allow (x_allow_at x) cb (t_metrics t)") auto
  have "d\<lparr>d_circuitBreaker := Some cb\<rparr> = d" using assms(1) by (cases d) simp
  moreover obtain s1 where "fs_dispatcher s1 = d\<lparr>d_circuitBreaker := Some cb1\<rparr>"
    "Forward x r pc (d\<lparr>d_circuitBreaker := Some cb\<rparr>) t w = dispatch x r (forward_payload r (fs_context (start_forward r pc d t w))) s1"
    by (rule Forward_with_breaker[OF al, where d = d and r = r and pc = pc and w = w]) auto
  ultimately show ?thesis
    using dispatch_breaker[of x r _ s1 "fst (Forward x r pc d t w)" "snd (Forward x r pc d t w)" cb1] assms(3) by simp
qed

lemma Allow_closed: "cb_state cb = StateClosed \<Longrightarrow> Allow now cb w = (None, cb, w)"
  by (simp add: Allow_def)

lemma example_sends: "fs_request (snd (Forward (example_exchange a) r pc example_dispatcher t w)) \<noteq> None"
proof (rule Forward_sends)
  show "d_circuitBreaker example_dispatcher = Some (SetOnStateChange (Some breaker_callback) (NewCircuitBreaker DefaultConfig))"
    by (simp add: example_dispatcher_def NewDispatcher_def SetAuditLedger_def)
  show "fst (Allow (x_allow_at (example_exchange a)) (SetOnStateChange (Some breaker_callback) (NewCircuitBreaker DefaultConfig))
      (t_metrics t)) = None"
    by (subst Allow_closed) (simp_all add: SetOnStateChange_def NewCircuitBreaker_def)
  show "x_new_request (example_exchange a) = None" by (simp add: example_exchange_def)
qed

lemma forward_leaks_nothing_witness:
  "let x = example_exchange (Response 200 [] (reads [''key: SEC-CNR-1'']));
       body = rw_body (fs_response (snd (Forward x example_request (Some new_context) example_dispatcher example_telemetry new_response)))
   in list_ex (\<lambda>viol. prefix body
        (marshal_map (rule_object ''POLICY_VIOLATION'' (v_RuleID viol) (v_Message viol)))) leak_violations"
proof -
  let ?x = "example_exchange (Response 200 [] (reads [''key: SEC-CNR-1'']))"
  let ?f = "Forward ?x example_request (Some new_context) example_dispatcher example_telemetry new_response"
  have "\<not> isSSE (x_ul ?x) []" by (simp add: isSSE_def header_get_def to_lower_def)
  moreover have "x_answer ?x = Response 200 [] (reads [''key: SEC-CNR-1''])" by (simp add: example_exchange_def)
  moreover have "guarded (CanaryToken new_context) CanaryPrefix" "length CanaryPrefix \<le> 65"
    by (simp_all add: guarded_def CanaryPrefix_def)
  moreover have "ReadAll (reads [''key: SEC-CNR-1'']) = Some (Inr ''key: SEC-CNR-1'')" by (simp add: reads_def)
  moreover have "contains ''key: SEC-CNR-1'' CanaryPrefix" by code_simp
  ultimately show ?thesis
    using forward_leaks_nothing[of ?x example_request new_context example_dispatcher example_telemetry "fst ?f" "snd ?f"
        200 "[]" "reads [''key: SEC-CNR-1'']" CanaryPrefix] example_sends
    unfolding Let_def by (simp only: prod.collapse if_False option.case sum.case simp_thms)
qed

text \<open>
  C39: an upstream body that breaks off leaves a request without an answer of the proxy: \<open>Forward\<close> has
  recorded the status with the breaker (as a success below 500), returns an error, and has written
  nothing, so the client gets status 200 with an empty body; no audit record is handed over.
\<close>

theorem broken_body_answers_200:
  assumes "Forward x r (Some pc) d t new_response = (res, s)" and "fs_request s \<noteq> None"
    and "x_answer x = Response status h es" and "\<not> isSSE (x_ul x) h" and "ReadAll es = Some (Inl m)"
  shows "res = Done (Some (BodyReadFailed m)) \<and> answer_status (fs_response s) = 200 \<and> rw_body (fs_response s) = [] \<and>
    t_audit (fs_telemetry s) = t_audit t"
  using Forward_response[OF assms(1-3)] assms(4,5)
  by (auto simp: sync_response_def answer_status_def new_response_def)

lemma broken_body_answers_200_witness:
  "let x = example_exchange (Response 200 [] [\<lparr>ctx_err = None, chunk = ''par'', read_err = Some (ReadErr ''reset'')\<rparr>]);
       fr = Forward x example_request (Some new_context) example_dispatcher example_telemetry new_response
   in fst fr = Done (Some (BodyReadFailed ''reset'')) \<and> answer_status (fs_response (snd fr)) = 200"
proof -
  let ?es = "[\<lparr>ctx_err = None, chunk = ''par'', read_err = Some (ReadErr ''reset'')\<rparr>]"
  let ?x = "example_exchange (Response 200 [] ?es)"
  let ?f = "Forward ?x example_request (Some new_context) example_dispatcher example_telemetry new_response"
  have "\<not> isSSE (x_ul ?x) []" by (simp add: isSSE_def header_get_def to_lower_def)
  moreover have "x_answer ?x = Response 200 [] ?es" by (simp add: example_exchange_def)
  moreover have "ReadAll ?es = Some (Inl ''reset'')" by simp
  ultimately show ?thesis
    using broken_body_answers_200[of ?x example_request new_context example_dispatcher example_telemetry "fst ?f" "snd ?f"] example_sends
    by (simp add: Let_def)
qed

end
