(* ===== verification/Server.thy ===== *)
theory Server
  imports Auth Inbound_Pipeline Dispatcher
begin

text \<open>
  \<open>internal/server/server.go\<close>: construction of the server, its routes and handlers. One call of a handler
  is a function of the proxy's state (server with dispatcher and breaker, inbound stages, telemetry), the
  request, and what the outside does in the call (\<open>handling\<close>). Calls are atomic here; what concurrent
  calls share is guarded by a mutex or atomic in its own component.
\<close>

section \<open>The server\<close>

text \<open>A runner for a clock reading, and the state of its stages.\<close>

type_synonym inbound_runner = "(time \<Rightarrow> InboundStages PipelineRunner) \<times> InboundStages"

text \<open>\<open>sv_metricsRegistry\<close> is \<open>None\<close> while it points to the default registry.\<close>

record Server =
  sv_config :: Config
  sv_authenticator :: Authenticator
  sv_pipeline :: "time \<Rightarrow> InboundStages PipelineRunner"
  sv_dispatcher :: "Dispatcher option"
  sv_auditLedger :: bool
  sv_metricsRegistry :: "Registry option"
  sv_addr :: string
  sv_idleTimeout :: duration

text \<open>What the file system and the clock answer while the ledger is opened, at the configured path and
  at the temporary one.\<close>

record journal_env =
  j_os :: os_answers
  j_now :: int
  j_content :: bytes
  j_tmp_os :: os_answers
  j_tmp_now :: int
  j_tmp_content :: bytes

definition open_ledger :: "journal_env \<Rightarrow> AuditConfig \<Rightarrow> ChainedLedger option" where
  "open_ledger j cfg =
     (if au_JournalPath cfg = [] then None
      else case NewChainedLedger (j_os j) (j_now j) (j_content j) (au_HMACKey cfg) (au_NodeID cfg) of
        Inr al \<Rightarrow> Some al
      | Inl err \<Rightarrow>
          (case NewChainedLedger (j_tmp_os j) (j_tmp_now j) (j_tmp_content j) (au_HMACKey cfg) (au_NodeID cfg) of
             Inr al \<Rightarrow> Some al
           | Inl err \<Rightarrow> None))"

definition default_runner :: "(rune \<Rightarrow> rune) \<Rightarrow> (bytes \<Rightarrow> bytes) \<Rightarrow> bytes \<Rightarrow> Config \<Rightarrow> inbound_runner option" where
  "default_runner ul f64 rnd cfg =
     map_option (\<lambda>st. (NewDefaultPipeline ul f64 st, st)) (NewDefaultInboundStages ul rnd (Some cfg))"

text \<open>The server, the state of its stages, and its ledger.\<close>

definition NewServer :: "journal_env \<Rightarrow> inbound_runner option \<Rightarrow> Config \<Rightarrow> Authenticator \<Rightarrow> inbound_runner option \<Rightarrow>
    Dispatcher option \<Rightarrow> (Server \<times> InboundStages \<times> ChainedLedger option) option" where
  "NewServer j dflt cfg a runner disp =
     (case (case runner of Some rn \<Rightarrow> if stages (fst rn 0) = [] then dflt else Some rn | None \<Rightarrow> dflt) of
        None \<Rightarrow> None
      | Some (rnr, st) \<Rightarrow>
          let al = open_ledger j (cfg_Audit cfg);
              disp1 = (if al \<noteq> None then map_option (SetAuditLedger True) disp else disp)
          in Some (\<lparr>sv_config = cfg, sv_authenticator = a, sv_pipeline = rnr, sv_dispatcher = disp1,
                    sv_auditLedger = (al \<noteq> None), sv_metricsRegistry = None, sv_addr = GetListenAddr cfg,
                    sv_idleTimeout = IdleTimeout (cfg_Timeouts cfg)\<rparr>, st, al))"

definition Server_SetAuditLedger :: "bool \<Rightarrow> Server \<Rightarrow> Server" where
  "Server_SetAuditLedger present sv =
     sv\<lparr>sv_auditLedger := present, sv_dispatcher := map_option (SetAuditLedger present) (sv_dispatcher sv)\<rparr>"

definition SetMetricsRegistry :: "Registry \<Rightarrow> Server \<Rightarrow> Server" where
  "SetMetricsRegistry mr sv = sv\<lparr>sv_metricsRegistry := Some mr\<rparr>"

text \<open>The errors that \<open>Shutdown\<close> joins: those of the HTTP server and of the ledger, if there is one.\<close>

definition Shutdown :: "string option \<Rightarrow> string option \<Rightarrow> Server \<Rightarrow> string list" where
  "Shutdown http_err close_err sv =
     (case http_err of None \<Rightarrow> [] | Some e \<Rightarrow> [e]) @
     (if sv_auditLedger sv then (case close_err of None \<Rightarrow> [] | Some e \<Rightarrow> [e]) else [])"

section \<open>The state of the proxy\<close>

record proxy =
  px_server :: Server
  px_stages :: InboundStages
  px_telemetry :: telemetry

definition server_count :: "(Registry \<Rightarrow> Registry) \<Rightarrow> proxy \<Rightarrow> proxy" where
  "server_count f p =
     (case sv_metricsRegistry (px_server p) of
        None \<Rightarrow> p\<lparr>px_telemetry := count_with f (px_telemetry p)\<rparr>
      | Some reg \<Rightarrow> p\<lparr>px_server := (px_server p)\<lparr>sv_metricsRegistry := Some (f reg)\<rparr>\<rparr>)"

definition server_audit :: "int \<Rightarrow> string \<Rightarrow> string \<Rightarrow> string \<Rightarrow> bytes option \<Rightarrow> bytes \<Rightarrow> proxy \<Rightarrow> proxy" where
  "server_audit now tenant session action reqBody respBody p =
     p\<lparr>px_telemetry := audit_with (sv_auditLedger (px_server p)) now tenant session action reqBody (Some respBody) (px_telemetry p)\<rparr>"

section \<open>Health and metrics\<close>

definition handleLiveness :: "(nat \<times> string) option \<Rightarrow> response \<Rightarrow> response" where
  "handleLiveness fails w = respond fails 200 (render (JObj [(''status'', JStr ''ok'')])) w"

definition handleReadiness :: "(nat \<times> string) option \<Rightarrow> response \<Rightarrow> response" where
  "handleReadiness fails w = respond fails 200 (render (JObj [(''status'', JStr ''ready'')])) w"

text \<open>\<open>/metrics\<close> is bound to the default registry when the server is constructed.\<close>

definition handleMetrics :: "(float64 \<Rightarrow> string) \<Rightarrow> telemetry \<Rightarrow> response \<Rightarrow> response" where
  "handleMetrics fmt_g t w =
     fst (write_body None (WritePrometheus fmt_g (t_metrics t))
       (set_header ''Content-Type'' ''text/plain; version=0.0.4; charset=utf-8'' w))"

definition writeError :: "(nat \<times> string) option \<Rightarrow> int \<Rightarrow> string \<Rightarrow> string \<Rightarrow> response \<Rightarrow> response" where
  "writeError fails status code message w = respond fails status (marshal_map (error_object code message) @ [newline]) w"

section \<open>The request handler\<close>

text \<open>The value of a query parameter, as \<open>Query().Get\<close> of \<open>net/url\<close> finds it: pairs with a semicolon or a
  bad escape are skipped.\<close>

fun unescape_query :: "string \<Rightarrow> string option" where
  "unescape_query [] = Some []"
| "unescape_query (c # s) =
     (if c = CHR ''%'' then
        (case s of
           a # b # t \<Rightarrow>
             (case (hex_value a, hex_value b) of
                (Some x, Some y) \<Rightarrow> map_option ((#) (char_of (16 * x + y))) (unescape_query t)
              | _ \<Rightarrow> None)
         | _ \<Rightarrow> None)
      else map_option ((#) (if c = CHR ''+'' then CHR '' '' else c)) (unescape_query s))"

definition query_pair :: "string \<Rightarrow> (string \<times> string) option" where
  "query_pair kv =
     (if kv = [] \<or> CHR '';'' \<in> set kv then None
      else case (case index_of kv ''='' of None \<Rightarrow> (kv, []) | Some i \<Rightarrow> (take i kv, drop (Suc i) kv)) of (k, v) \<Rightarrow>
        (case (unescape_query k, unescape_query v) of (Some k', Some v') \<Rightarrow> Some (k', v') | _ \<Rightarrow> None))"

fun split_on :: "char \<Rightarrow> string \<Rightarrow> string list" where
  "split_on c [] = [[]]"
| "split_on c (x # s) = (if x = c then [] # split_on c s else (case split_on c s of p # ps \<Rightarrow> (x # p) # ps | [] \<Rightarrow> [[x]]))"

definition query_get :: "string \<Rightarrow> string \<Rightarrow> string" where
  "query_get q key = (case find (\<lambda>kv. fst kv = key) (List.map_filter query_pair (split_on (CHR ''&'') q)) of
     None \<Rightarrow> [] | Some kv \<Rightarrow> snd kv)"

text \<open>What the outside does in one call of the handler: how reading the body ends after its last byte,
  the clock readings, the durations of the stages, the pooled context object, and the upstream call.\<close>

record handling =
  h_body_err :: "string option"
  h_audit_at :: int
  h_start :: time
  h_now :: time
  h_elapsed :: "nat \<Rightarrow> int"
  h_pool :: PipelineContext
  h_exchange :: exchange

datatype body_error = BodyTooLarge | BodyFailed string

text \<open>\<open>io.ReadAll\<close> on \<open>http.MaxBytesReader\<close>: a body of more than \<open>limit\<close> bytes is an error.\<close>

definition read_limited :: "int \<Rightarrow> bytes \<Rightarrow> string option \<Rightarrow> body_error + bytes" where
  "read_limited limit body err =
     (if max 0 limit < int (length body) then Inl BodyTooLarge
      else case err of Some e \<Rightarrow> Inl (BodyFailed e) | None \<Rightarrow> Inr body)"

definition session_of :: "request \<Rightarrow> string" where
  "session_of r =
     (let s = header_get (r_Header r) ''X-Session-ID'' in
      if s = [] then header_get (r_Header r) ''X-Request-ID'' else s)"

definition wants_stream :: "request \<Rightarrow> bytes \<Rightarrow> bool" where
  "wants_stream r raw \<longleftrightarrow>
     contains raw [dquote, CHR ''s'', CHR ''t'', CHR ''r'', CHR ''e'', CHR ''a'', CHR ''m'', dquote, CHR '':'', CHR ''t'',
       CHR ''r'', CHR ''u'', CHR ''e''] \<or> query_get (r_RawQuery r) ''stream'' = ''true''"

definition inbound_context :: "handling \<Rightarrow> request \<Rightarrow> TenantContext \<Rightarrow> bytes \<Rightarrow> PipelineContext" where
  "inbound_context h r tc raw =
     (let pc = AcquireContext (r_Context r) (tx_TenantID tc) (session_of r) (h_start h) (h_pool h);
          pc1 = pc\<lparr>RequestID := header_get (r_Header r) ''X-Request-ID'', RawPayload := RawPayload pc @ raw,
                  CleanPayload := CleanPayload pc @ raw\<rparr>
      in if wants_stream r raw then pc1\<lparr>IsStreaming := True\<rparr> else pc1)"

datatype handler_outcome = Handled | HandlerWaiting | HandlerPanic

record handled =
  hd_outcome :: handler_outcome
  hd_proxy :: proxy
  hd_response :: response
  hd_request :: "upstream_request option"

definition answered :: "proxy \<Rightarrow> response \<Rightarrow> handled" where
  "answered p w = \<lparr>hd_outcome = Handled, hd_proxy = p, hd_response = w, hd_request = None\<rparr>"

definition first_write :: "handling \<Rightarrow> (nat \<times> string) option" where
  "first_write h = write_fails (x_stream (h_exchange h)) 0"

text \<open>Steps 1 and 2: the request is not authentic, or its body is too large or cannot be read.\<close>

definition reject_auth :: "handling \<Rightarrow> auth_error \<Rightarrow> proxy \<Rightarrow> response \<Rightarrow> handled" where
  "reject_auth h err p w =
     (let status = auth_status err;
          errJSON = marshal_map (JObj [(''error'', JStr (auth_error_text err))]);
          p1 = server_audit (h_audit_at h) ''unauthenticated'' [] ''AUTH_FAILURE'' None errJSON p;
          p2 = server_count (IncRequests ''unauthenticated'' ''AUTH_FAILURE'' (dec_int status)) p1
      in answered (server_count IncAuditRecords p2) (WriteAuthError (first_write h) status err w))"

definition too_large_message :: "int \<Rightarrow> string" where
  "too_large_message limit = ''request payload exceeds maximum limit of '' @ dec_int limit @ '' bytes''"

definition reject_body :: "handling \<Rightarrow> TenantContext \<Rightarrow> body_error \<Rightarrow> proxy \<Rightarrow> response \<Rightarrow> handled" where
  "reject_body h tc err p w =
     (case err of
        BodyTooLarge \<Rightarrow>
          let msg = too_large_message (cfg_MaxPayloadBytes (sv_config (px_server p)));
              errJSON = marshal_map (error_object ''payload_too_large'' msg);
              p1 = server_audit (h_audit_at h) (tx_TenantID tc) [] ''PAYLOAD_TOO_LARGE'' None errJSON p;
              p2 = server_count (IncRequests (tx_TenantID tc) ''PAYLOAD_TOO_LARGE'' ''413'') p1
          in answered (server_count IncAuditRecords p2)
               (writeError (first_write h) 413 ''payload_too_large'' msg (set_header ''Connection'' ''close'' w))
      | BodyFailed e \<Rightarrow>
          answered p (writeError (first_write h) 400 ''bad_request'' (''failed to read request body: '' @ e) w))"

text \<open>Step 4: the pipeline blocked the request.\<close>

definition violation_rule :: "PipelineContext \<Rightarrow> string" where
  "violation_rule pc = (if MatchedRuleID pc = [] then ''POLICY_VIOLATION'' else MatchedRuleID pc)"

definition is_rate_limit :: "PipelineContext \<Rightarrow> bool" where
  "is_rate_limit pc \<longleftrightarrow> ViolationType pc = ''RATE_LIMIT'' \<or> violation_rule pc = ''RATE_LIMIT_EXCEEDED''"

definition reject_violation :: "handling \<Rightarrow> bytes \<Rightarrow> PipelineContext \<Rightarrow> string option \<Rightarrow> proxy \<Rightarrow> response \<Rightarrow> handled" where
  "reject_violation h raw pc err p w =
     (let rule = violation_rule pc;
          msg = (case err of None \<Rightarrow> ''request blocked by security guardrail policy'' | Some e \<Rightarrow> e) in
      if is_rate_limit pc then
        let errJSON = marshal_map (rule_object ''RATE_LIMIT_EXCEEDED'' rule msg);
            p1 = server_audit (h_audit_at h) (TenantID pc) (SessionID pc) ''RATE_LIMIT'' (Some raw) errJSON p;
            p2 = server_count (IncRequests (TenantID pc) ''RATE_LIMIT'' ''429'') p1;
            p3 = server_count (IncTripwireViolations ''RATE_LIMIT_EXCEEDED'' ''rate_limiter'') p2
        in answered (server_count IncAuditRecords p3)
             (respond (first_write h) 429 errJSON (set_header ''Retry-After'' ''60'' w))
      else
        let errJSON = marshal_map (rule_object ''POLICY_VIOLATION'' rule msg);
            p1 = server_audit (h_audit_at h) (TenantID pc) (SessionID pc) ''BLOCK_INBOUND'' (Some raw) errJSON p;
            p2 = server_count (IncRequests (TenantID pc) ''BLOCK_INBOUND'' ''400'') p1;
            p3 = server_count (IncTripwireViolations rule ''inbound_inspection'') p2;
            p4 = server_count IncAuditRecords p3
        in answered (server_count (observe_stages (x_order (h_exchange h)) (StageDurations pc)) p4)
             (respond (first_write h) 400 errJSON w))"

declare reject_auth_def [handler_defs] reject_body_def [handler_defs] reject_violation_def [handler_defs]

text \<open>Step 5: the request goes upstream. (A nil dispatcher is dereferenced.)\<close>

definition forward_request :: "handling \<Rightarrow> request \<Rightarrow> PipelineContext \<Rightarrow> proxy \<Rightarrow> response \<Rightarrow> handled" where
  "forward_request h r pc p w =
     (case sv_dispatcher (px_server p) of
        None \<Rightarrow> (answered p w)\<lparr>hd_outcome := HandlerPanic\<rparr>
      | Some d \<Rightarrow>
          (case Forward (h_exchange h) (r\<lparr>r_body := []\<rparr>) (Some pc) d (px_telemetry p) w of (res, s) \<Rightarrow>
             \<lparr>hd_outcome = (case res of Done e \<Rightarrow> Handled | Waiting \<Rightarrow> HandlerWaiting | WritePanic \<Rightarrow> HandlerPanic),
              hd_proxy = p\<lparr>px_server := (px_server p)\<lparr>sv_dispatcher := Some (fs_dispatcher s)\<rparr>, px_telemetry := fs_telemetry s\<rparr>,
              hd_response = fs_response s, hd_request = fs_request s\<rparr>))"

definition inspect_and_forward :: "handling \<Rightarrow> request \<Rightarrow> TenantContext \<Rightarrow> bytes \<Rightarrow> proxy \<Rightarrow> response \<Rightarrow> handled" where
  "inspect_and_forward h r tc raw p w =
     (case Runner_Execute (h_elapsed h) (sv_pipeline (px_server p) (h_now h)) (inbound_context h r tc raw) (px_stages p) of
        ((result, err), pc, st) \<Rightarrow>
          let p1 = p\<lparr>px_stages := st\<rparr> in
          if result = StageTripwire then reject_violation h raw pc err p1 w
          else forward_request h r pc p1 w)"

definition handleProxy :: "handling \<Rightarrow> request \<Rightarrow> proxy \<Rightarrow> response \<Rightarrow> handled" where
  "handleProxy h r p w =
     (case Authenticate (sv_authenticator (px_server p)) r of
        Inl err \<Rightarrow> reject_auth h err p w
      | Inr tc \<Rightarrow>
          (case read_limited (cfg_MaxPayloadBytes (sv_config (px_server p))) (r_body r) (h_body_err h) of
             Inl err \<Rightarrow> reject_body h tc err p w
           | Inr raw \<Rightarrow> inspect_and_forward h r tc raw p w))"

section \<open>Routes\<close>

datatype route = LivenessRoute | ReadinessRoute | MetricsRoute | ProxyRoute

definition registerRoutes :: "(string \<times> route) list" where
  "registerRoutes =
     [(''/healthz/liveness'', LivenessRoute), (''/healthz/readiness'', ReadinessRoute), (''/metrics'', MetricsRoute),
      (''/v1/'', ProxyRoute)]"

text \<open>A pattern that ends in a slash matches every path below it, another only itself. The path is the
  clean one on which \<open>http.ServeMux\<close> matches; its redirects of unclean paths are not modelled.\<close>

definition find_route :: "string \<Rightarrow> route option" where
  "find_route path = map_option snd (find (\<lambda>(pat, rt).
     if last pat = CHR ''/'' then has_prefix path pat else path = pat) registerRoutes)"

definition ServeHTTP :: "(float64 \<Rightarrow> string) \<Rightarrow> handling \<Rightarrow> request \<Rightarrow> proxy \<Rightarrow> response \<Rightarrow> handled option" where
  "ServeHTTP fmt_g h r p w = map_option (\<lambda>rt. case rt of
       LivenessRoute \<Rightarrow> answered p (handleLiveness (first_write h) w)
     | ReadinessRoute \<Rightarrow> answered p (handleReadiness (first_write h) w)
     | MetricsRoute \<Rightarrow> answered p (handleMetrics fmt_g (px_telemetry p) w)
     | ProxyRoute \<Rightarrow> handleProxy h r p w) (find_route (r_Path r))"

section \<open>The context of a request\<close>

text \<open>Whatever object the pool hands out, the context of a request is the same.\<close>

lemma inbound_context_fresh:
  "inbound_context h r tc raw = inbound_context (h\<lparr>h_pool := new_context\<rparr>) r tc raw"
  by (simp add: inbound_context_def AcquireContext_def new_context_def Let_def)

lemma inbound_context_fields [simp]:
  "TenantID (inbound_context h r tc raw) = tx_TenantID tc" "CleanPayload (inbound_context h r tc raw) = raw"
  "RawPayload (inbound_context h r tc raw) = raw" "SessionID (inbound_context h r tc raw) = session_of r"
  "CanaryToken (inbound_context h r tc raw) = []" "MatchedRuleID (inbound_context h r tc raw) = []"
  "ViolationType (inbound_context h r tc raw) = []" "Violations (inbound_context h r tc raw) = []"
  by (simp_all add: inbound_context_def AcquireContext_def Let_def)

section \<open>Properties\<close>

text \<open>
  C40: isolation of requests: nothing of a recycled context object, of whatever request used it before,
  reaches the handling of a request: answer, upstream request, counters, audit record and the state
  of the proxy are the same as with a fresh object.
\<close>

theorem pooled_context_is_invisible:
  "handleProxy h r p w = handleProxy (h\<lparr>h_pool := new_context\<rparr>) r p w"
proof -
  let ?h = "h\<lparr>h_pool := new_context\<rparr>"
  have eqs: "reject_violation ?h = reject_violation h" "forward_request ?h = forward_request h" "reject_auth ?h = reject_auth h"
    "reject_body ?h = reject_body h"
    by (simp_all add: fun_eq_iff reject_violation_def forward_request_def reject_auth_def reject_body_def first_write_def
        Let_def split: option.splits body_error.splits)
  show ?thesis
    unfolding handleProxy_def inspect_and_forward_def inbound_context_fresh[of h]
    by (auto simp: eqs Let_def split: sum.splits prod.splits)
qed

section \<open>What a call leaves of the proxy\<close>

lemma server_count_fields [simp]:
  "px_stages (server_count f p) = px_stages p" "sv_dispatcher (px_server (server_count f p)) = sv_dispatcher (px_server p)"
  "sv_config (px_server (server_count f p)) = sv_config (px_server p)"
  "sv_authenticator (px_server (server_count f p)) = sv_authenticator (px_server p)"
  "sv_pipeline (px_server (server_count f p)) = sv_pipeline (px_server p)"
  "sv_auditLedger (px_server (server_count f p)) = sv_auditLedger (px_server p)"
  by (simp_all add: server_count_def split: option.splits)

lemma server_audit_fields [simp]:
  "px_stages (server_audit now tenant session action q a p) = px_stages p"
  "px_server (server_audit now tenant session action q a p) = px_server p"
  by (simp_all add: server_audit_def)

lemma answered_fields [simp]:
  "hd_outcome (answered p w) = Handled" "hd_proxy (answered p w) = p" "hd_response (answered p w) = w" "hd_request (answered p w) = None"
  by (simp_all add: answered_def)

lemma reject_request [simp]:
  "hd_request (reject_auth h err p w) = None" "hd_request (reject_body h tc berr p w) = None"
  "hd_request (reject_violation h raw pc e p w) = None"
  by (simp_all add: handler_defs Let_def split: body_error.splits)

lemma reject_stages [simp]:
  "px_stages (hd_proxy (reject_auth h err p w)) = px_stages p" "px_stages (hd_proxy (reject_body h tc berr p w)) = px_stages p"
  "px_stages (hd_proxy (reject_violation h raw pc e p w)) = px_stages p"
  by (simp_all add: handler_defs Let_def split: body_error.splits)

lemma forward_stages [simp]: "px_stages (hd_proxy (forward_request h r pc p w)) = px_stages p"
  by (simp add: forward_request_def split: option.splits prod.splits)

lemma answer_status_respond [simp]:
  "rw_sent w = None \<Longrightarrow> answer_status (respond f status b w) = status"
  by (simp add: respond_sends answer_status_def)

lemma set_header_sent [simp]: "rw_sent (set_header k v w) = rw_sent w"
  by (simp add: set_header_def)

lemma reject_status:
  "answer_status (hd_response (reject_auth h err p new_response)) = (if err = ErrDisabledTenant then 403 else 401)"
  "answer_status (hd_response (reject_body h tc berr p new_response)) = (if berr = BodyTooLarge then 413 else 400)"
  "answer_status (hd_response (reject_violation h raw pc e p new_response)) = (if is_rate_limit pc then 429 else 400)"
  by (simp_all add: handler_defs Let_def WriteAuthError_def writeError_def
      auth_status_def new_response_def split: body_error.splits)

text \<open>
  C19: the decisions of the handler, one after the other, and what each leaves: a request that is not
  authentic gets 401 or, for a disabled tenant, 403; a body above the limit 413, one that cannot be read
  400; in these cases the stages have not seen it. A request that the pipeline blocks gets 429 for a rate
  limit and 400 otherwise. None of these is sent upstream. Every other request is forwarded.
\<close>

theorem handler_decides:
  "let hd = handleProxy h r p new_response; p' = hd_proxy hd; status = answer_status (hd_response hd) in
   case Authenticate (sv_authenticator (px_server p)) r of
     Inl err \<Rightarrow> hd_request hd = None \<and> px_stages p' = px_stages p \<and> status = (if err = ErrDisabledTenant then 403 else 401)
   | Inr tc \<Rightarrow>
       if int (length (r_body r)) > max 0 (cfg_MaxPayloadBytes (sv_config (px_server p)))
       then hd_request hd = None \<and> px_stages p' = px_stages p \<and> status = 413
       else if h_body_err h \<noteq> None then hd_request hd = None \<and> px_stages p' = px_stages p \<and> status = 400
       else case Runner_Execute (h_elapsed h) (sv_pipeline (px_server p) (h_now h)) (inbound_context h r tc (r_body r)) (px_stages p) of
         ((result, err), pc, st) \<Rightarrow> px_stages p' = st \<and>
           (if result = StageTripwire then hd_request hd = None \<and> status = (if is_rate_limit pc then 429 else 400)
            else hd = forward_request h r pc (p\<lparr>px_stages := st\<rparr>) new_response)"
proof (cases "Authenticate (sv_authenticator (px_server p)) r")
  case (Inl err)
  then show ?thesis by (simp add: handleProxy_def Let_def reject_status)
next
  case (Inr tc)
  show ?thesis
  proof (cases "read_limited (cfg_MaxPayloadBytes (sv_config (px_server p))) (r_body r) (h_body_err h)")
    case (Inl berr)
    with Inr show ?thesis
      by (cases berr) (auto simp: handleProxy_def Let_def reject_status read_limited_def split: option.splits if_splits)
  next
    case b: (Inr raw)
    then have raw: "raw = r_body r" "h_body_err h = None" "\<not> int (length (r_body r)) > max 0 (cfg_MaxPayloadBytes (sv_config (px_server p)))"
      by (auto simp: read_limited_def split: option.splits if_splits)
    show ?thesis
    proof (cases "Runner_Execute (h_elapsed h) (sv_pipeline (px_server p) (h_now h)) (inbound_context h r tc raw) (px_stages p)")
      case (fields re pc st)
      obtain result e where re: "re = (result, e)" by (cases re)
      have hp: "handleProxy h r p new_response = (if result = StageTripwire then reject_violation h raw pc e (p\<lparr>px_stages := st\<rparr>) new_response
          else forward_request h r pc (p\<lparr>px_stages := st\<rparr>) new_response)"
        using Inr b fields re by (simp add: handleProxy_def inspect_and_forward_def Let_def)
      show ?thesis
        using Inr raw fields re unfolding hp Let_def by (cases "result = StageTripwire") (auto simp: reject_status)
    qed
  qed
qed

section \<open>Only inspected payloads go upstream\<close>

text \<open>A proxy that runs the default pipeline.\<close>

definition default_proxy :: "(rune \<Rightarrow> rune) \<Rightarrow> (bytes \<Rightarrow> bytes) \<Rightarrow> proxy \<Rightarrow> bool" where
  "default_proxy ul f64 p \<longleftrightarrow> (\<exists>st. sv_pipeline (px_server p) = NewDefaultPipeline ul f64 st \<and>
     NewInjectionMatcher ul [] = Some (is_InjectionMatcher st) \<and> is_InjectionMatcher (px_stages p) = is_InjectionMatcher st)"

lemma upstream_request_body [simp]:
  "upstream_request_of ul d (r\<lparr>r_body := b\<rparr>) payload = upstream_request_of ul d r payload"
  by (simp add: upstream_request_of_def upstream_headers_def target_url_def Let_def split: option.splits)

lemma forward_request_sends:
  assumes "hd_request (forward_request h r pc p w) = Some q"
  shows "\<exists>d. sv_dispatcher (px_server p) = Some d \<and> q = upstream_request_of (x_ul (h_exchange h)) d r (CleanPayload pc)"
proof (cases "sv_dispatcher (px_server p)")
  case (Some d)
  obtain res s where f: "Forward (h_exchange h) (r\<lparr>r_body := []\<rparr>) (Some pc) d (px_telemetry p) w = (res, s)" by fastforce
  then have "fs_request s = Some q" using assms Some by (simp add: forward_request_def)
  with Forward_same[OF f] Some show ?thesis
    by (simp add: start_forward_def forward_payload_def split: if_splits)
qed (use assms in \<open>simp add: forward_request_def\<close>)

lemma default_pipeline_answers:
  "Runner_Execute elapsed (NewDefaultPipeline ul f64 st now) ctx w = ((result, e), ctx', w') \<Longrightarrow>
     result = StageContinue \<or> result = StageTripwire"
  unfolding Runner_Execute_def NewDefaultPipeline_def NewPipelineRunner_def PipelineRunner.simps
  using Execute_from_contract[of "default_stages ul f64 (is_InjectionMatcher st) now"] default_stages_contract by blast

text \<open>
  Whatever is sent upstream, of a request with a body, on a proxy with the default pipeline: the request
  carried the key of a registered, enabled tenant; its body was within the limit; its payload was
  inspected by all six stages, in the state they were in when it came; and the request sent is the one
  built from the client's with the sanitized, redacted payload and the canary token in it, and no other.
\<close>

lemma upstream_gets_inspected_payload:
  assumes "default_proxy ul f64 p" and "hd_request (handleProxy h r p w) = Some q" and "r_body r \<noteq> []"
  shows "\<exists>tc d ctx. Authenticate (sv_authenticator (px_server p)) r = Inr tc \<and>
    tc \<in> set (sv_authenticator (px_server p)) \<and> tx_Enabled tc \<and> tx_APIKey tc = ExtractAPIKey r \<and>
    int (length (r_body r)) \<le> cfg_MaxPayloadBytes (sv_config (px_server p)) \<and>
    inspected ul f64 (h_now h) (inbound_context h r tc (r_body r)) (px_stages p) ctx (px_stages (hd_proxy (handleProxy h r p w))) \<and>
    sv_dispatcher (px_server p) = Some d \<and> q = upstream_request_of (x_ul (h_exchange h)) d r (CleanPayload ctx)"
proof -
  obtain st0 where st0: "sv_pipeline (px_server p) = NewDefaultPipeline ul f64 st0"
    "NewInjectionMatcher ul [] = Some (is_InjectionMatcher st0)" "is_InjectionMatcher (px_stages p) = is_InjectionMatcher st0"
    using assms(1) by (auto simp: default_proxy_def)
  obtain tc where tc: "Authenticate (sv_authenticator (px_server p)) r = Inr tc"
    using assms(2) by (cases "Authenticate (sv_authenticator (px_server p)) r") (auto simp: handleProxy_def)
  obtain raw where b: "read_limited (cfg_MaxPayloadBytes (sv_config (px_server p))) (r_body r) (h_body_err h) = Inr raw"
    using assms(2) tc
    by (cases "read_limited (cfg_MaxPayloadBytes (sv_config (px_server p))) (r_body r) (h_body_err h)") (auto simp: handleProxy_def)
  then have raw: "raw = r_body r" "int (length (r_body r)) \<le> cfg_MaxPayloadBytes (sv_config (px_server p))"
    using assms(3) by (auto simp: read_limited_def split: option.splits if_splits)
  obtain result e ctx st where run:
    "Runner_Execute (h_elapsed h) (NewDefaultPipeline ul f64 st0 (h_now h)) (inbound_context h r tc raw) (px_stages p) = ((result, e), ctx, st)"
    by (metis prod.collapse)
  have hp: "handleProxy h r p w = (if result = StageTripwire then reject_violation h raw ctx e (p\<lparr>px_stages := st\<rparr>) w
      else forward_request h r ctx (p\<lparr>px_stages := st\<rparr>) w)"
    using tc b run st0(1) by (simp add: handleProxy_def inspect_and_forward_def Let_def)
  then have nt: "result \<noteq> StageTripwire" using assms(2) by auto
  then have "result = StageContinue" using default_pipeline_answers[OF run] by blast
  then have "inspected ul f64 (h_now h) (inbound_context h r tc raw) (px_stages p) ctx st"
    using default_pipeline_passes[OF st0(2,3)] run raw(1) assms(3) by (metis inbound_context_fields(2))
  moreover have "px_stages (hd_proxy (handleProxy h r p w)) = st" using hp nt by simp
  moreover obtain d where "sv_dispatcher (px_server p) = Some d" "q = upstream_request_of (x_ul (h_exchange h)) d r (CleanPayload ctx)"
    using forward_request_sends[of h r ctx "p\<lparr>px_stages := st\<rparr>" w q] assms(2) hp nt by auto
  ultimately show ?thesis using tc Authenticate_Inr[OF tc] raw by blast
qed

section \<open>The audit trail\<close>

text \<open>A proxy whose parts fit together: the server counts in the default registry, the breaker of its
  dispatcher reports to it, and both hand their records to the same ledger.\<close>

fun dispatcher_ok :: "bool \<Rightarrow> Dispatcher option \<Rightarrow> bool" where
  "dispatcher_ok present None \<longleftrightarrow> False"
| "dispatcher_ok present (Some d) \<longleftrightarrow> wired d \<and> d_auditLedger d = present"

definition proxy_ok :: "proxy \<Rightarrow> bool" where
  "proxy_ok p \<longleftrightarrow> sv_metricsRegistry (px_server p) = None \<and>
     dispatcher_ok (sv_auditLedger (px_server p)) (sv_dispatcher (px_server p))"

definition books_one :: "proxy \<Rightarrow> proxy \<Rightarrow> bool" where
  "books_one p p' \<longleftrightarrow>
     (\<exists>rec. t_audit (px_telemetry p') = t_audit (px_telemetry p) @ (if sv_auditLedger (px_server p) then [rec] else [])) \<and>
     (\<exists>tenant action status. requestsTotal (t_metrics (px_telemetry p')) =
        CounterVec_Inc (request_labels tenant action status) (requestsTotal (t_metrics (px_telemetry p)))) \<and>
     auditRecordsTotal (t_metrics (px_telemetry p')) = auditRecordsTotal (t_metrics (px_telemetry p)) + 1"

text \<open>The calls that answer the client and book the answer: all that return with an answer written, except
  when the body cannot be read.\<close>

definition body_broken :: "handling \<Rightarrow> request \<Rightarrow> proxy \<Rightarrow> bool" where
  "body_broken h r p \<longleftrightarrow>
     (case Authenticate (sv_authenticator (px_server p)) r of
        Inl err \<Rightarrow> False
      | Inr tc \<Rightarrow> (case read_limited (cfg_MaxPayloadBytes (sv_config (px_server p))) (r_body r) (h_body_err h) of
           Inl (BodyFailed e) \<Rightarrow> True | _ \<Rightarrow> False))"

definition books :: "handling \<Rightarrow> request \<Rightarrow> proxy \<Rightarrow> bool" where
  "books h r p \<longleftrightarrow> (let hd = handleProxy h r p new_response in
     hd_outcome hd = Handled \<and> rw_sent (hd_response hd) \<noteq> None \<and> \<not> body_broken h r p)"

definition step_ok :: "bool \<Rightarrow> proxy \<Rightarrow> proxy \<Rightarrow> bool" where
  "step_ok b p p' \<longleftrightarrow> proxy_ok p' \<and> sv_auditLedger (px_server p') = sv_auditLedger (px_server p) \<and>
     (if b then books_one p p' else same_counts (px_telemetry p) (px_telemetry p'))"

lemmas counter_defs = server_count_def server_audit_def count_with_def audit_with_def IncRequests_def IncAuditRecords_def
  SimpleCounter_Inc_def IncTripwireViolations_def

lemma observe_stages_counts [simp]:
  "requestsTotal (observe_stages order durations reg) = requestsTotal reg"
  "auditRecordsTotal (observe_stages order durations reg) = auditRecordsTotal reg"
  using keeps_counts_simps(3)[of order durations] by (simp_all add: keeps_counts_def)

lemma reject_books:
  assumes "proxy_ok p"
  shows "step_ok True p (hd_proxy (reject_auth h err p w))"
    and "step_ok (berr = BodyTooLarge) p (hd_proxy (reject_body h tc berr p w))"
    and "step_ok True p (hd_proxy (reject_violation h raw pc e p w))"
proof -
  have r: "sv_metricsRegistry (px_server p) = None" using assms by (simp add: proxy_ok_def)
  show "step_ok True p (hd_proxy (reject_auth h err p w))"
    using assms r by (auto simp: step_ok_def proxy_ok_def books_one_def reject_auth_def Let_def counter_defs)
  show "step_ok (berr = BodyTooLarge) p (hd_proxy (reject_body h tc berr p w))"
    using assms r by (cases berr)
      (auto simp: step_ok_def proxy_ok_def books_one_def same_counts_def reject_body_def Let_def counter_defs)
  show "step_ok True p (hd_proxy (reject_violation h raw pc e p w))"
    using assms r
    by (cases "is_rate_limit pc") (auto simp: step_ok_def proxy_ok_def books_one_def reject_violation_def Let_def counter_defs)
qed

lemma forward_books:
  assumes "proxy_ok p" and "rw_sent w = None"
  shows "step_ok (hd_outcome (forward_request h r pc p w) = Handled \<and> rw_sent (hd_response (forward_request h r pc p w)) \<noteq> None)
    p (hd_proxy (forward_request h r pc p w))"
proof -
  obtain d where d: "sv_dispatcher (px_server p) = Some d" "wired d" "d_auditLedger d = sv_auditLedger (px_server p)"
    using assms(1) by (cases "sv_dispatcher (px_server p)") (auto simp: proxy_ok_def)
  obtain res s where f: "Forward (h_exchange h) (r\<lparr>r_body := []\<rparr>) (Some pc) d (px_telemetry p) w = (res, s)" by fastforce
  have acc: "accounted (h_exchange h) (forward_payload (r\<lparr>r_body := []\<rparr>)
      (fs_context (start_forward (r\<lparr>r_body := []\<rparr>) (Some pc) d (px_telemetry p) w))) (px_telemetry p) w res s"
    by (rule Forward_accounted[OF d(2) assms(2) f])
  have d': "wired (fs_dispatcher s)" "d_auditLedger (fs_dispatcher s) = sv_auditLedger (px_server p)"
    using Forward_wired[OF f d(2)] Forward_same[OF f] d(3) by (simp_all add: same_dispatcher_def)
  have ok: "proxy_ok (hd_proxy (forward_request h r pc p w))"
    using assms(1) d(1) f d' by (simp add: forward_request_def proxy_ok_def)
  show ?thesis
  proof (cases res)
    case (Done e)
    then show ?thesis
      using acc ok d(1,3) f assms(2) d'
      by (auto simp: forward_request_def accounted_def booked_def step_ok_def books_one_def SimpleCounter_Inc_def split: if_splits)
  qed (use acc ok d(1) f in \<open>auto simp: forward_request_def accounted_def step_ok_def\<close>)
qed

lemma handler_books:
  assumes "proxy_ok p"
  shows "step_ok (books h r p) p (hd_proxy (handleProxy h r p new_response))"
proof -
  have n: "rw_sent new_response = None" by (simp add: new_response_def)
  have sent: "rw_sent (hd_response (reject_auth h err p new_response)) \<noteq> None" "hd_outcome (reject_auth h err p new_response) = Handled"
    "rw_sent (hd_response (reject_body h tc berr p new_response)) \<noteq> None" "hd_outcome (reject_body h tc berr p new_response) = Handled"
    "rw_sent (hd_response (reject_violation h raw pc e q new_response)) \<noteq> None" "hd_outcome (reject_violation h raw pc e q new_response) = Handled"
    for err tc berr raw pc e q
    by (simp_all add: handler_defs Let_def WriteAuthError_def writeError_def n respond_sends
        split: body_error.splits)
  show ?thesis
  proof (cases "Authenticate (sv_authenticator (px_server p)) r")
    case (Inl err)
    then have "handleProxy h r p new_response = reject_auth h err p new_response" by (simp add: handleProxy_def)
    moreover have "books h r p" using Inl calculation sent by (simp add: books_def body_broken_def Let_def)
    ultimately show ?thesis using reject_books(1)[OF assms] by simp
  next
    case tc: (Inr tc)
    show ?thesis
    proof (cases "read_limited (cfg_MaxPayloadBytes (sv_config (px_server p))) (r_body r) (h_body_err h)")
      case (Inl berr)
      then have hp: "handleProxy h r p new_response = reject_body h tc berr p new_response" using tc by (simp add: handleProxy_def)
      moreover have "books h r p \<longleftrightarrow> berr = BodyTooLarge"
        using tc Inl hp sent by (cases berr) (simp_all add: books_def body_broken_def Let_def)
      ultimately show ?thesis using reject_books(2)[OF assms] by simp
    next
      case (Inr raw)
      obtain result e pc st where run:
        "Runner_Execute (h_elapsed h) (sv_pipeline (px_server p) (h_now h)) (inbound_context h r tc raw) (px_stages p) = ((result, e), pc, st)"
        by (metis prod.collapse)
      let ?p = "p\<lparr>px_stages := st\<rparr>"
      have ok: "proxy_ok ?p" using assms by (simp add: proxy_ok_def)
      have same: "step_ok b ?p p' \<longleftrightarrow> step_ok b p p'" for b p' by (simp add: step_ok_def books_one_def)
      have nb: "\<not> body_broken h r p" using tc Inr by (simp add: body_broken_def)
      have hp: "handleProxy h r p new_response = (if result = StageTripwire then reject_violation h raw pc e ?p new_response
          else forward_request h r pc ?p new_response)"
        using tc Inr run by (simp add: handleProxy_def inspect_and_forward_def Let_def)
      show ?thesis
      proof (cases "result = StageTripwire")
        case True
        then have "books h r p" using hp nb sent by (simp add: books_def Let_def)
        then show ?thesis using True hp reject_books(3)[OF ok] same by simp
      next
        case False
        then show ?thesis using hp nb forward_books[OF ok n] same by (simp add: books_def Let_def)
      qed
    qed
  qed
qed

text \<open>A sequence of requests, and the number of them whose answer is booked.\<close>

fun serve_all :: "(handling \<times> request) list \<Rightarrow> proxy \<Rightarrow> proxy" where
  "serve_all [] p = p"
| "serve_all ((h, r) # hrs) p = serve_all hrs (hd_proxy (handleProxy h r p new_response))"

fun booked_answers :: "(handling \<times> request) list \<Rightarrow> proxy \<Rightarrow> nat" where
  "booked_answers [] p = 0"
| "booked_answers ((h, r) # hrs) p =
     (if books h r p then 1 else 0) + booked_answers hrs (hd_proxy (handleProxy h r p new_response))"

lemma served_ok:
  assumes "proxy_ok p"
  shows "proxy_ok (serve_all hrs p) \<and>
    prefix (t_audit (px_telemetry p)) (t_audit (px_telemetry (serve_all hrs p))) \<and>
    length (t_audit (px_telemetry (serve_all hrs p))) = length (t_audit (px_telemetry p)) +
      (if sv_auditLedger (px_server p) then booked_answers hrs p else 0) \<and>
    auditRecordsTotal (t_metrics (px_telemetry (serve_all hrs p))) =
      auditRecordsTotal (t_metrics (px_telemetry p)) + of_nat (booked_answers hrs p)"
  using assms
proof (induction hrs p rule: serve_all.induct)
  case (2 h r hrs p)
  let ?p = "hd_proxy (handleProxy h r p new_response)"
  have step: "step_ok (books h r p) p ?p" by (rule handler_books[OF 2(2)])
  then have ok: "proxy_ok ?p" "sv_auditLedger (px_server ?p) = sv_auditLedger (px_server p)" by (simp_all add: step_ok_def)
  from 2(1)[OF ok(1)] step ok show ?case
    by (auto simp: step_ok_def books_one_def same_counts_def prefix_def split: if_splits)
qed simp

text \<open>
  C2: the audit trail of any sequence of requests is complete and append-only: on a proxy whose parts fit
  together (which every call preserves) the calls of \<open>Record\<close> are those before, in order, and one more for
  each answer, whether of the authenticator, the limits, the pipeline, the breaker or the upstream; and
  the counter of audit records is higher by their number.
\<close>

theorem audit_trail_complete:
  assumes "proxy_ok p"
  shows "proxy_ok (serve_all hrs p) \<and>
    prefix (t_audit (px_telemetry p)) (t_audit (px_telemetry (serve_all hrs p))) \<and>
    length (t_audit (px_telemetry (serve_all hrs p))) = length (t_audit (px_telemetry p)) +
      (if sv_auditLedger (px_server p) then booked_answers hrs p else 0) \<and>
    auditRecordsTotal (t_metrics (px_telemetry (serve_all hrs p))) =
      auditRecordsTotal (t_metrics (px_telemetry p)) + of_nat (booked_answers hrs p)"
  using assms by (rule served_ok)

definition example_proxy :: "acNode list \<Rightarrow> proxy" where
  "example_proxy ns =
     \<lparr>px_server = \<lparr>sv_config = NewDefaultConfig, sv_authenticator = [example_tenant],
        sv_pipeline = NewDefaultPipeline id id (example_stages ns), sv_dispatcher = Some example_dispatcher, sv_auditLedger = True,
        sv_metricsRegistry = None, sv_addr = GetListenAddr NewDefaultConfig, sv_idleTimeout = IdleTimeout (cfg_Timeouts NewDefaultConfig)\<rparr>,
      px_stages = example_stages ns, px_telemetry = example_telemetry\<rparr>"

definition example_handling :: handling where
  "example_handling = \<lparr>h_body_err = None, h_audit_at = 0, h_start = 0, h_now = 0, h_elapsed = (\<lambda>_. 0), h_pool = new_context,
     h_exchange = example_exchange (DoFailed ''refused'')\<rparr>"

lemma example_proxy_ok: "proxy_ok (example_proxy ns)"
  using example_wired
  by (simp add: proxy_ok_def example_proxy_def) (simp add: example_dispatcher_def NewDispatcher_def SetAuditLedger_def)

lemma audit_trail_complete_witness:
  "let p = serve_all [(example_handling, example_request\<lparr>r_Header := []\<rparr>)] (example_proxy [])
   in length (t_audit (px_telemetry p)) = 1 \<and> auditRecordsTotal (t_metrics (px_telemetry p)) = 1"
proof -
  let ?r = "example_request\<lparr>r_Header := []\<rparr>"
  have auth: "Authenticate (sv_authenticator (px_server (example_proxy []))) ?r = Inl ErrMissingAPIKey"
    by (simp add: Authenticate_def ExtractAPIKey_def header_get_def header_values_def Let_def)
  then have "handleProxy example_handling ?r (example_proxy []) new_response =
      reject_auth example_handling ErrMissingAPIKey (example_proxy []) new_response" by (simp add: handleProxy_def)
  then have "books example_handling ?r (example_proxy [])"
    using auth by (simp add: books_def body_broken_def reject_auth_def Let_def WriteAuthError_def)
  then have "booked_answers [(example_handling, ?r)] (example_proxy []) = 1" by simp
  moreover have "sv_auditLedger (px_server (example_proxy []))" "t_audit (px_telemetry (example_proxy [])) = []"
    "auditRecordsTotal (t_metrics (px_telemetry (example_proxy []))) = 0"
    by (simp_all add: example_proxy_def example_telemetry_def NewRegistry_def)
  ultimately show ?thesis
    using audit_trail_complete[where hrs = "[(example_handling, ?r)]", OF example_proxy_ok[of "[]"]] by (simp add: Let_def del: serve_all.simps)
qed

text \<open>A request that goes through.\<close>

lemma hi_forwarded:
  assumes "NewInjectionMatcher id [] = Some ns" and "sv_authenticator (px_server p) = [example_tenant]"
    and "2 \<le> cfg_MaxPayloadBytes (sv_config (px_server p))"
    and "sv_pipeline (px_server p) = NewDefaultPipeline id id (example_stages ns)" and "px_stages p = example_stages ns"
    and "sv_dispatcher (px_server p) = Some d" and "d_circuitBreaker d = Some cb" and "cb_state cb = StateClosed"
  shows "hd_request (handleProxy example_handling (example_request\<lparr>r_body := ''hi''\<rparr>) p new_response) \<noteq> None"
proof -
  let ?r = "example_request\<lparr>r_body := ''hi''\<rparr>" and ?h = example_handling
  have auth: "Authenticate (sv_authenticator (px_server p)) ?r = Inr example_tenant" using assms(2) example_admitted by simp
  have body: "read_limited (cfg_MaxPayloadBytes (sv_config (px_server p))) (r_body ?r) (h_body_err ?h) = Inr ''hi''"
    using assms(3) by (simp add: read_limited_def example_handling_def)
  let ?ctx = "inbound_context ?h ?r example_tenant ''hi''"
  obtain pc st where run: "Runner_Execute (h_elapsed ?h) (sv_pipeline (px_server p) (h_now ?h)) ?ctx (px_stages p) =
      ((StageContinue, None), pc, st)"
    using hi_run[OF assms(1), of ?ctx "h_elapsed ?h" "h_now ?h"] assms(4,5) by (metis inbound_context_fields(2) prod.collapse)
  have "handleProxy ?h ?r p new_response = forward_request ?h ?r pc (p\<lparr>px_stages := st\<rparr>) new_response"
    using auth body run by (simp add: handleProxy_def inspect_and_forward_def Let_def)
  moreover have "fs_request (snd (Forward (h_exchange ?h) (?r\<lparr>r_body := []\<rparr>) (Some pc) d (px_telemetry p) new_response)) \<noteq> None"
    by (rule Forward_sends[OF assms(7)]) (simp_all add: Allow_closed assms(8) example_handling_def example_exchange_def)
  ultimately show ?thesis using assms(6) by (simp add: forward_request_def split: prod.splits)
qed

end
