(* ===== verification/Audit_Chain.thy ===== *)
theory Audit_Chain
  imports Audit_Ledger
begin

text \<open>
  What the audit journal of \<open>internal/audit\<close> promises: journals that the ledger wrote are accepted, what an
  accepted journal pins down and what it does not, and which accepted records reach the file.
\<close>

section \<open>Journals over several lives of the proxy\<close>

text \<open>The ledger is opened on an empty file or on what an earlier life left; a life may be cut off at
  any step.\<close>

inductive honest_journal :: "bytes \<Rightarrow> ChainedLedger \<Rightarrow> nat \<Rightarrow> bool" for key where
  fresh: "NewChainedLedger os now [] key node = Inr l \<Longrightarrow> valid_utf8 node \<Longrightarrow> in_int64 now \<Longrightarrow>
    ledger_run l s \<Longrightarrow> disk_ok (ledger s) \<Longrightarrow> list_all (\<lambda>w. record_ok (snd w)) (written s) \<Longrightarrow>
    honest_journal key (ledger s) (1 + length (written s))"
| again: "honest_journal key l0 n \<Longrightarrow> NewChainedLedger os now (journal l0) key node = Inr l \<Longrightarrow>
    ledger_run l s \<Longrightarrow> disk_ok (ledger s) \<Longrightarrow> list_all (\<lambda>w. record_ok (snd w)) (written s) \<Longrightarrow>
    honest_journal key (ledger s) (n + length (written s))"

lemma run_journal:
  assumes "journal_of l rs" and "disk_ok l" and "hmacKey l = verify_key key" and "ledger_run l s"
    and "disk_ok (ledger s)" and "list_all (\<lambda>w. record_ok (snd w)) (written s)"
    and "length rs + length (written s) < 2 ^ 64"
  shows "\<exists>rs'. journal_of (ledger s) rs' \<and> length rs' = length rs + length (written s) \<and>
    hmacKey (ledger s) = verify_key key"
proof -
  have "ledger s = flushBatch (map snd (written s)) l"
    using file_inv_run[OF assms(4)] assms(5) by (simp add: file_inv_def)
  moreover have "list_all record_ok (map snd (written s))" using assms(6) by (simp add: list_all_iff)
  ultimately show ?thesis using flushBatch_journal[OF assms(1,2), of "map snd (written s)"] assms(3,7) by simp
qed

lemma honest_journal_of:
  "honest_journal key l n \<Longrightarrow> n < 2 ^ 64 \<Longrightarrow> \<exists>rs. journal_of l rs \<and> length rs = n \<and> hmacKey l = verify_key key"
proof (induction rule: honest_journal.induct)
  case (fresh os now node l s)
  then show ?case
    using run_journal[of l "[genesis_record (if node = [] then defaultNodeID else node) now]" key s]
      genesis_journal[OF fresh(1-3)] by auto
next
  case (again l0 n os now node l s)
  then obtain rs where rs: "journal_of l0 rs" "length rs = n" "hmacKey l0 = verify_key key" by auto
  have "journal_of l rs \<and> disk_ok l \<and> hmacKey l = verify_key key"
    using reopened_journal[OF rs(1,3) again(2)] .
  then show ?case using run_journal[of l rs key s] again rs by auto
qed

lemma split_records: "split_lines (as_lines (map marshal_record rs)) = map marshal_record rs"
proof -
  have "list_all (\<lambda>l. line_end \<notin> set l) (map marshal_record rs)"
    using marshal_plain[OF lessI] by (auto simp: list_all_iff plain_line_def)
  then show ?thesis using split_as_lines_append[of "map marshal_record rs" "[]"] by simp
qed

lemma journal_verifies:
  assumes "journal_of l rs" and "hmacKey l = verify_key key"
    and "list_all (\<lambda>ln. length ln < VerifyBuffer) (split_lines (journal l))"
  shows "VerifyChain (Some (journal l)) key = (True, of_nat (length rs), None)"
proof -
  have j: "journal l = as_lines (map marshal_record rs)" "list_all record_ok rs"
    using assms(1) by (simp_all add: journal_of_def)
  have "list_all (\<lambda>r. length (marshal_record r) < VerifyBuffer) rs"
    using assms(3) unfolding j(1) split_records by (simp add: list_all_iff)
  from verify_file[OF j(2) this] show ?thesis using assms(1,2) j by (simp add: journal_of_def)
qed

lemma honest_verifies:
  "honest_journal key l n \<Longrightarrow> n < 2 ^ 64 \<Longrightarrow> list_all (\<lambda>ln. length ln < VerifyBuffer) (split_lines (journal l)) \<Longrightarrow>
     VerifyChain (Some (journal l)) key = (True, of_nat n, None)"
  using honest_journal_of journal_verifies by blast

text \<open>C5: Every journal that the ledger has written, over any number of lives of the proxy, any interleaving
  of its calls and with each life cut off at any point, is accepted by \<open>VerifyChain\<close> under the same key, with
  exactly the number of records that were written, as long as the disk worked, the texts of the records are
  valid UTF-8 (\<open>honest_journal\<close> asks both of every life) and no line reaches the verifier's 10 MB buffer.\<close>

theorem honest_journal_verifies:
  assumes "honest_journal key l n" and "n < 2 ^ 64"
    and "list_all (\<lambda>line. length line < VerifyBuffer) (split_lines (journal l))"
  shows "VerifyChain (Some (journal l)) key = (True, of_nat n, None)"
  using assms by (rule honest_verifies)


text \<open>A line is at most six times as long as the strings in it.\<close>

lemma length_quote: "length (quote s) \<le> 6 * length s + 2"
proof -
  have "length (quote_body s) \<le> 6 * length s"
  proof (induction s rule: quote_body.induct)
    case (2 c cs)
    obtain r n where d: "decode_rune (c # cs) = (r, n)" by fastforce
    have n: "1 \<le> n" "n \<le> length (c # cs)" using decode_size[of "c # cs"] d by auto
    show ?case
    proof (cases "is_ascii c")
      case True
      have "length (quote_ascii c) \<le> 6" by (simp add: quote_ascii_def u_escape_def)
      then show ?thesis using True 2(1) by (simp add: quote_body.simps(2))
    next
      case False
      have "length (quote_body (c # cs)) \<le> max 6 n + length (quote_body (drop n (c # cs)))"
        using False d n by (simp add: quote_body.simps(2) Let_def u_escape_def le_max_iff_disj)
      then show ?thesis using 2(2)[OF False d[symmetric] refl] n by (simp add: max_def split: if_splits)
    qed
  qed (simp add: quote_body.simps(1))
  then show ?thesis by (simp add: quote_def)
qed

lemma length_sep_by: "length (sep_by d xs) \<le> sum_list (map (\<lambda>x. length x + length d) xs)"
  by (induction d xs rule: sep_by.induct) auto

lemma length_dec_nat: "n < 10 ^ Suc k \<Longrightarrow> length (dec_nat n) \<le> Suc k"
proof (induction k arbitrary: n)
  case (Suc k)
  then have "n div 10 < 10 ^ Suc k" by (simp add: less_mult_imp_div_less mult.commute)
  from Suc.IH[OF this] show ?case by (subst dec_nat.simps) simp
qed (simp add: dec_nat.simps)

lemma length_numbers: "length (dec_nat (unat (w :: u64))) \<le> 20" "in_int64 i \<Longrightarrow> length (dec_int i) \<le> 20"
proof -
  have "unat w < 2 ^ 64" using unsigned_less[of w] by simp
  then show "length (dec_nat (unat w)) \<le> 20" using length_dec_nat[of "unat w" 19] by simp
  assume i: "in_int64 i"
  then have "nat i < 10 ^ 19" "nat (- i) < 10 ^ 19" by (auto simp: in_int64_def nat_less_iff)
  then show "length (dec_int i) \<le> 20"
    using length_dec_nat[of "nat i" 18] length_dec_nat[of "nat (- i)" 18] by (auto simp: dec_int_def)
qed

definition record_strings :: "AuditRecord \<Rightarrow> string list" where
  "record_strings r = [ar_NodeID r, ar_TenantID r, ar_SessionID r, ar_Action r, ar_RequestHash r, ar_ResponseHash r,
     ar_PrevHash r, ar_EntryHash r]"

definition members_bound :: "(bytes \<times> json) list \<Rightarrow> nat" where
  "members_bound kvs = sum_list (map (\<lambda>(k, v). 6 * length k + 4 + length (render v)) kvs)"

lemma members_bound_simps:
  "members_bound (xs @ ys) = members_bound xs + members_bound ys"
  "members_bound ((k, v) # xs) = 6 * length k + 4 + length (render v) + members_bound xs" "members_bound [] = 0"
  by (simp_all add: members_bound_def)

lemma length_members: "length (render (JObj kvs)) \<le> 2 + members_bound kvs"
proof -
  have "sum_list (map (\<lambda>x. length x + 1) (map (\<lambda>(k, v). quote k @ CHR 0x3A # render v) kvs)) \<le> members_bound kvs"
    unfolding map_map members_bound_def by (rule sum_list_mono) (use length_quote in auto)
  then show ?thesis
    using length_sep_by[of "[CHR 0x2C]" "map (\<lambda>(k, v). quote k @ CHR 0x3A # render v) kvs"] by simp
qed

lemma members_bound_opt:
  "members_bound (opt_string k s) \<le> 6 * length k + 6 * length s + 6"
  "in_int64 i \<Longrightarrow> members_bound (opt_int k i) \<le> 6 * length k + 24"
  using length_quote[of s] length_numbers(2)[of i] by (simp_all add: members_bound_simps opt_string_def opt_int_def)

lemma length_marshal:
  assumes "in_int64 (ar_Timestamp r)" and "in_int64 (ar_BootEpoch r)"
  shows "length (marshal_record r) \<le> 6 * sum_list (map length (record_strings r)) + 600"
proof -
  define m where "m = (\<lambda>k s. members_bound (opt_string k s))"
  define b where "b = (\<lambda>k i. members_bound (opt_int k i))"
  define q where "q = (\<lambda>s. length (quote s))"
  have "m k s \<le> 6 * length k + 6 * length s + 6" "q s \<le> 6 * length s + 2" for k s
    unfolding m_def q_def by (rule members_bound_opt length_quote)+
  note bounds = this(1)[of "''node_id''" "ar_NodeID r"] this(1)[of "''tenant''" "ar_TenantID r"]
    this(1)[of "''session''" "ar_SessionID r"] this(1)[of "''req_hash''" "ar_RequestHash r"]
    this(1)[of "''resp_hash''" "ar_ResponseHash r"] this(2)[of "ar_Action r"] this(2)[of "ar_PrevHash r"]
    this(2)[of "ar_EntryHash r"] length_numbers(1)[of "ar_SequenceID r"] length_numbers(2)[OF assms(1)]
    members_bound_opt(2)[OF assms(2), of "''boot_epoch''", folded b_def]
  show ?thesis
    unfolding marshal_record_def record_json_def
    by (rule order_trans[OF length_members])
       (use bounds in \<open>simp add: members_bound_simps record_strings_def
          m_def[symmetric, THEN fun_cong, THEN fun_cong] b_def[symmetric, THEN fun_cong, THEN fun_cong] q_def[symmetric, THEN fun_cong]\<close>)
qed

definition all_well :: os_answers where
  "all_well = \<lparr>mkdir_ok = True, open_ok = True, stat_ok = True, genesis_ok = True, reopen_ok = True\<rparr>"

definition first_ledger :: ChainedLedger where
  "first_ledger = (case NewChainedLedger all_well 7 [] [] [] of Inr l \<Rightarrow> l)"

lemma first_ledger_eq: "NewChainedLedger all_well 7 [] [] [] = Inr first_ledger"
  by (simp add: first_ledger_def NewChainedLedger_def all_well_def Let_def)

text \<open>One call of \<open>Record\<close> whose record the writer has flushed.\<close>

definition one_flushed :: "AuditRecord \<Rightarrow> ledger_system" where
  "one_flushed rec = \<lparr>ledger = flush_record rec first_ledger, calls = (\<lambda>_. NotCalled)(0 := Returned None),
     queue = [], batch = [], writer = WSelect, closed = False, written = [(0, rec)]\<rparr>"

lemma one_flushed_run: "ledger_run first_ledger (one_flushed rec)"
proof -
  let ?s0 = "start_ledger first_ledger"
  let ?s1 = "?s0\<lparr>calls := (calls ?s0)(0 := Checked rec)\<rparr>"
  let ?s2 = "?s1\<lparr>calls := (calls ?s1)(0 := Reserved rec), queue := queue ?s1 @ [(0, rec)]\<rparr>"
  let ?s3 = "?s2\<lparr>calls := (calls ?s2)(0 := Returned None)\<rparr>"
  let ?s4 = "?s3\<lparr>queue := [], batch := batch ?s3 @ [(0, rec)]\<rparr>"
  note defs = start_ledger_def RingBufferSize_def Pop_nil_def flush_system_def
  have "ledger_step ?s0 ?s1" by (intro by_record check) (simp_all add: defs)
  note run = run_step[OF run_start this]
  have "ledger_step ?s1 ?s2" by (intro by_record reserve) (simp_all add: defs)
  note run = run_step[OF run this]
  have "ledger_step ?s2 ?s3" by (intro by_record stored) (simp add: defs)
  note run = run_step[OF run this]
  have "ledger_step ?s3 ?s4"
    using w_pop[of ?s3 0 rec "[]" ?s4] by (intro by_writer) (simp_all add: defs)
  note run = run_step[OF run this]
  have "ledger_step ?s4 ((if batch ?s4 \<noteq> [] then flush_system ?s4 else ?s4)\<lparr>writer := WSelect\<rparr>)"
    by (intro by_writer w_empty) (simp_all add: defs)
  note run = run_step[OF run this]
  have "(if batch ?s4 \<noteq> [] then flush_system ?s4 else ?s4)\<lparr>writer := WSelect\<rparr> = one_flushed rec"
    by (simp add: defs one_flushed_def flushBatch_def)
  with run show ?thesis by simp
qed

lemma one_flushed_honest: "record_ok rec \<Longrightarrow> honest_journal [] (ledger (one_flushed rec)) 2"
proof -
  assume rec: "record_ok rec"
  have "disk_ok (ledger (one_flushed rec))"
    by (simp add: one_flushed_def first_ledger_def NewChainedLedger_def all_well_def Let_def)
  moreover have "valid_utf8 []" "in_int64 7" by (simp_all add: valid_ascii_text in_int64_def)
  ultimately show ?thesis
    using fresh[OF first_ledger_eq _ _ one_flushed_run, of rec] rec
    by (simp add: one_flushed_def numeral_2_eq_2)
qed

lemma one_flushed_journal: "journal (ledger (one_flushed rec)) =
    as_lines (map marshal_record [genesis_record defaultNodeID 7, chained first_ledger rec])"
  by (simp add: one_flushed_def flush_record_def first_ledger_def NewChainedLedger_def all_well_def Let_def)

definition blocked_record :: AuditRecord where
  "blocked_record = Record_record 9 ''acme'' ''s1'' ''BLOCK'' (Some ''{}'') None"

lemma blocked_record_ok: "record_ok blocked_record"
proof -
  have "valid_utf8 ''acme''" "valid_utf8 ''s1''" "valid_utf8 ''BLOCK''" "valid_utf8 []"
    by (auto intro!: valid_ascii_text simp: is_ascii_def byte_def)
  then show ?thesis
    by (simp add: record_ok_def blocked_record_def Record_record_def new_record_def zero_record_def body_hash_def
        hex_valid in_int64_def)
qed

lemma one_flushed_short:
  assumes "record_ok rec" and "sum_list (map length (record_strings rec)) \<le> 1000"
  shows "list_all (\<lambda>r. length (marshal_record r) < VerifyBuffer) [genesis_record defaultNodeID 7, chained first_ledger rec]"
proof -
  have "length (marshal_record (genesis_record defaultNodeID 7)) < VerifyBuffer"
    using length_marshal[of "genesis_record defaultNodeID 7"]
    by (simp add: VerifyBuffer_def record_strings_def genesis_record_def zero_record_def defaultNodeID_def
        in_int64_def ComputeGenesisHash_def)
  moreover have "length (marshal_record (chained first_ledger rec)) < VerifyBuffer"
    using length_marshal[of "chained first_ledger rec"] assms
    by (simp add: VerifyBuffer_def record_strings_def chained_def Let_def record_ok_def first_ledger_def
        NewChainedLedger_def all_well_def genesis_record_def ComputeGenesisHash_def expected_hash_def ComputeEntryHash_def)
  ultimately show ?thesis by simp
qed

lemma one_flushed_lines:
  assumes "record_ok rec" and "sum_list (map length (record_strings rec)) \<le> 1000"
  shows "list_all (\<lambda>line. length line < VerifyBuffer) (split_lines (journal (ledger (one_flushed rec))))"
  unfolding one_flushed_journal split_records list.pred_map comp_def by (rule one_flushed_short[OF assms])

lemma blocked_record_short: "sum_list (map length (record_strings blocked_record)) \<le> 1000"
  by (simp add: record_strings_def blocked_record_def Record_record_def new_record_def zero_record_def body_hash_def)

lemma honest_journal_verifies_witness:
  "VerifyChain (Some (journal (ledger (one_flushed blocked_record)))) [] = (True, 2, None)"
  using honest_journal_verifies[OF one_flushed_honest[OF blocked_record_ok] _ one_flushed_lines[OF blocked_record_ok blocked_record_short]]
  by simp

text \<open>A journal in which a line of 64 KB or more was written, which a long session identifier does, is refused
  when the proxy is started again: the ledger cannot be opened on its own journal.\<close>

theorem oversized_record_blocks_restart:
  assumes "honest_journal key l n" and "n < 2 ^ 64"
    and "\<not> list_all (\<lambda>line. length line < MaxScanTokenSize) (split_lines (journal l))"
  shows "NewChainedLedger all_well now (journal l) key node = Inl (RecoverFailed LineTooLong)"
proof -
  obtain rs where rs: "journal_of l rs" using honest_journal_of[OF assms(1,2)] by blast
  then have "journal l \<noteq> []" by (cases rs) (auto simp: journal_of_def)
  moreover have "snd (scan_lines MaxScanTokenSize (journal l))"
    using assms(3) takeWhile_full[of "\<lambda>l. length l < MaxScanTokenSize" "split_lines (journal l)"]
    by (auto simp: scan_lines_def Let_def list_all_iff)
  ultimately show ?thesis
    by (auto simp: NewChainedLedger_def all_well_def recoverLastRecord_def Let_def split: prod.splits)
qed

definition long_record :: AuditRecord where
  "long_record = Record_record 9 ''acme'' (replicate 11000 (CHR ''<'')) ''ALLOW'' None None"

lemma length_member: "(k, v) \<in> set kvs \<Longrightarrow> length (render v) \<le> length (render (JObj kvs))"
proof -
  have "x \<in> set xs \<Longrightarrow> length x \<le> length (sep_by d xs)" for x d and xs :: "bytes list"
    by (induction d xs rule: sep_by.induct) auto
  moreover assume "(k, v) \<in> set kvs"
  then have "quote k @ CHR 0x3A # render v \<in> set (map (\<lambda>(k, v). quote k @ CHR 0x3A # render v) kvs)" by force
  ultimately have "length (quote k @ CHR 0x3A # render v) \<le>
      length (sep_by [CHR 0x2C] (map (\<lambda>(k, v). quote k @ CHR 0x3A # render v) kvs))" by blast
  then show ?thesis by simp
qed

lemma long_record_line: "65536 \<le> length (marshal_record (chained first_ledger long_record))"
proof -
  have "length (quote_body (replicate n (CHR ''<''))) = 6 * n" for n
    by (induction n) (simp_all add: quote_body.simps quote_ascii_def html_safe_def is_ascii_def byte_def u_escape_def)
  then have "65536 \<le> length (quote (replicate 11000 (CHR ''<'')))" by (simp add: quote_def)
  also have "\<dots> \<le> length (marshal_record (chained first_ledger long_record))"
    using length_member[of "''session''" "JStr (replicate 11000 (CHR ''<''))"]
    unfolding marshal_record_def record_json_def
    by (simp add: chained_def Let_def long_record_def Record_record_def new_record_def opt_string_def del: render.simps(6))
  finally show ?thesis .
qed

lemma long_record_ok: "record_ok long_record"
proof -
  have "valid_utf8 ''acme''" "valid_utf8 (replicate 11000 (CHR ''<''))" "valid_utf8 ''ALLOW''" "valid_utf8 []"
    by (auto intro!: valid_ascii_text simp: is_ascii_def byte_def list_all_iff)
  then show ?thesis
    by (simp add: record_ok_def long_record_def Record_record_def new_record_def zero_record_def body_hash_def in_int64_def)
qed

lemma oversized_record_blocks_restart_witness:
  "NewChainedLedger all_well 11 (journal (ledger (one_flushed long_record))) [] [] = Inl (RecoverFailed LineTooLong)"
proof (rule oversized_record_blocks_restart[OF one_flushed_honest[OF long_record_ok]])
  show "\<not> list_all (\<lambda>line. length line < MaxScanTokenSize) (split_lines (journal (ledger (one_flushed long_record))))"
    unfolding one_flushed_journal split_records using long_record_line by (simp add: MaxScanTokenSize_def)
qed simp

section \<open>What an accepted journal pins down\<close>

text \<open>The records that the verifier reads in a file.\<close>

definition journal_records :: "bytes \<Rightarrow> AuditRecord list" where
  "journal_records content =
     List.map_filter unmarshal_record (filter (\<lambda>t. t \<noteq> []) (map trim_space (fst (scan_lines VerifyBuffer content))))"

lemma verify_lines_records:
  "verify_lines key ls st = Inr st' \<Longrightarrow>
   verify_records key (List.map_filter unmarshal_record (filter (\<lambda>t. t \<noteq> []) (map trim_space ls))) st = Inr st'"
  by (induction key ls st rule: verify_lines.induct)
     (auto simp: Let_def List.map_filter_simps split: if_splits option.splits sum.splits)

lemma verified_records:
  assumes "VerifyChain (Some content) key = (True, n, None)"
  shows "\<exists>st. verify_records (verify_key key) (journal_records content) verify_start = Inr st"
  using assms verify_lines_records[of "verify_key key" _ verify_start]
  by (auto simp: VerifyChain_def journal_records_def split: prod.splits sum.splits if_splits)

text \<open>What the hash of an entry is computed from.\<close>

datatype sealed = Genesis bytes | Entry bytes

definition sealed_of :: "AuditRecord \<Rightarrow> sealed" where
  "sealed_of r = (if ar_SequenceID r = 0 then Genesis (genesis_message (ar_NodeID r) (ar_BootEpoch r))
                  else Entry (record_message r))"

lemma verify_record_hash:
  assumes "verify_record key r st = Inr st'"
  shows "v_prevHash st' = ar_EntryHash r" "v_lastSeq st' = ar_SequenceID r" "v_count st' = v_count st + 1"
    and "ar_SequenceID r = 0 \<Longrightarrow> ar_EntryHash r = ComputeGenesisHash (ar_NodeID r) (ar_BootEpoch r)"
    and "ar_SequenceID r \<noteq> 0 \<Longrightarrow> ar_EntryHash r = expected_hash key r"
    and "ar_SequenceID r \<noteq> 0 \<Longrightarrow> v_count st \<noteq> 0 \<Longrightarrow> ar_PrevHash r = v_prevHash st"
  using assms by (auto simp: verify_record_def Let_def split: if_splits)

lemma verified_hash_length:
  assumes "verify_record key r st = Inr st'"
  shows "length (ar_EntryHash r) = 64"
  using verify_record_hash(4,5)[OF assms]
  by (cases "ar_SequenceID r = 0") (simp_all add: ComputeGenesisHash_def expected_hash_def ComputeEntryHash_def)

lemma verify_count: "verify_records key rs st = Inr st' \<Longrightarrow> v_count st' = v_count st + of_nat (length rs)"
proof (induction rs arbitrary: st)
  case (Cons r rs)
  then show ?case using verify_record_hash(3)[of key r st] by (auto split: sum.splits)
qed simp

text \<open>A continued chain: its last record, which is not a genesis record, points to the one before it.\<close>

lemma verify_snoc:
  assumes "verify_records key (rs @ [r]) verify_start = Inr st" and "length rs < 2 ^ 64"
  shows "\<exists>st1 st2. verify_records key rs verify_start = Inr st1 \<and> verify_record key r st1 = Inr st2"
    and "rs \<noteq> [] \<Longrightarrow> ar_SequenceID r \<noteq> 0 \<Longrightarrow>
      ar_PrevHash r = ar_EntryHash (last rs) \<and> length (ar_EntryHash (last rs)) = 64"
proof -
  obtain st1 st2 where v: "verify_records key rs verify_start = Inr st1" "verify_record key r st1 = Inr st2"
    using assms(1) by (auto simp: verify_records_append split: sum.splits)
  then show "\<exists>st1 st2. verify_records key rs verify_start = Inr st1 \<and> verify_record key r st1 = Inr st2" by blast
  assume rs: "rs \<noteq> []" "ar_SequenceID r \<noteq> 0"
  have "v_count st1 = of_nat (length rs)" using verify_count[OF v(1)] by (simp add: verify_start_def)
  then have "v_count st1 \<noteq> 0" using pos_nonzero[of "length rs"] rs(1) assms(2) by simp
  then have "ar_PrevHash r = ar_EntryHash (last rs)"
    using verify_record_hash(6)[OF v(2) rs(2)] verify_last[OF v(1) rs(1)] by simp
  moreover have "length (ar_EntryHash (last rs)) = 64"
    using v(1) rs(1) by (cases rs rule: rev_cases) (auto simp: verify_records_append split: sum.splits dest: verified_hash_length)
  ultimately show "ar_PrevHash r = ar_EntryHash (last rs) \<and> length (ar_EntryHash (last rs)) = 64" by simp
qed

lemma entry_message_prev:
  "entry_message p s t tn a q w = entry_message p' s' t' tn' a' q' w' \<Longrightarrow> length p = length p' \<Longrightarrow> p = p'"
  by (simp add: entry_message_def)

lemma chains_agree:
  assumes "verify_records key rs verify_start = Inr st" and "verify_records key ss verify_start = Inr st'"
    and "rs \<noteq> []" and "ss \<noteq> []" and "ar_EntryHash (last rs) = ar_EntryHash (last ss)"
    and "length rs < 2 ^ 64" and "length ss < 2 ^ 64"
    and "list_all (\<lambda>r. ar_SequenceID r \<noteq> 0) (tl rs)" and "list_all (\<lambda>r. ar_SequenceID r \<noteq> 0) (tl ss)"
    and "\<forall>r \<in> set rs. \<forall>s \<in> set ss. ar_EntryHash r = ar_EntryHash s \<longrightarrow> sealed_of r = sealed_of s"
  shows "suffix (map sealed_of rs) (map sealed_of ss) \<or> suffix (map sealed_of ss) (map sealed_of rs)"
  using assms
proof (induction rs arbitrary: ss st st' rule: rev_induct)
  case (snoc r rs)
  obtain s ss' where ss: "ss = ss' @ [s]" using snoc.prems(4) by (cases ss rule: rev_cases) auto
  have same: "sealed_of r = sealed_of s" using snoc.prems(5,10) by (simp add: ss)
  show ?case
  proof (cases "rs = [] \<or> ss' = []")
    case True
    then show ?thesis using same by (auto simp: ss)
  next
    case False
    then have ne: "rs \<noteq> []" "ss' \<noteq> []" by simp_all
    have entry: "ar_SequenceID r \<noteq> 0" "ar_SequenceID s \<noteq> 0" using snoc.prems(8,9) ne by (simp_all add: ss tl_append split: list.splits)
    have len: "length rs < 2 ^ 64" "length ss' < 2 ^ 64" using snoc.prems(6,7) by (simp_all add: ss)
    note sr = verify_snoc[OF snoc.prems(1) len(1)] and sn = verify_snoc[OF snoc.prems(2)[unfolded ss] len(2)]
    have "ar_PrevHash r = ar_PrevHash s"
      using same entry entry_message_prev[of "ar_PrevHash r"] sr(2)[OF ne(1) entry(1)] sn(2)[OF ne(2) entry(2)]
      by (auto simp: sealed_of_def record_message_def)
    then have last: "ar_EntryHash (last rs) = ar_EntryHash (last ss')"
      using sr(2)[OF ne(1) entry(1)] sn(2)[OF ne(2) entry(2)] by simp
    have tls: "list_all (\<lambda>r. ar_SequenceID r \<noteq> 0) (tl rs)" "list_all (\<lambda>r. ar_SequenceID r \<noteq> 0) (tl ss')"
      using snoc.prems(8,9) ne by (simp_all add: ss)
    obtain sa sb where "verify_records key rs verify_start = Inr sa" "verify_records key ss' verify_start = Inr sb"
      using sr(1) sn(1) by blast
    from snoc.IH[OF this ne last len tls] snoc.prems(10)
    have "suffix (map sealed_of rs) (map sealed_of ss') \<or> suffix (map sealed_of ss') (map sealed_of rs)" by (simp add: ss)
    then show ?thesis using same by (simp add: ss)
  qed
qed simp

text \<open>C22: Two files that \<open>VerifyChain\<close> accepts under the same key and that end in the same entry hash have the
  same sealed contents (sequence number, time, tenant, action and digests of every entry, node and boot time
  of a genesis record), except that one of them may begin later; otherwise the two files exhibit a collision of
  the hash. Neither may carry a genesis record after its first line.\<close>

theorem tampering_is_evident:
  assumes "VerifyChain (Some a) key = (True, m, None)" and "VerifyChain (Some b) key = (True, n, None)"
    and "journal_records a \<noteq> []" and "journal_records b \<noteq> []"
    and "ar_EntryHash (last (journal_records a)) = ar_EntryHash (last (journal_records b))"
    and "list_all (\<lambda>r. ar_SequenceID r \<noteq> 0) (tl (journal_records a))"
    and "list_all (\<lambda>r. ar_SequenceID r \<noteq> 0) (tl (journal_records b))"
    and "length (journal_records a) < 2 ^ 64" and "length (journal_records b) < 2 ^ 64"
  shows "suffix (map sealed_of (journal_records a)) (map sealed_of (journal_records b)) \<or>
    suffix (map sealed_of (journal_records b)) (map sealed_of (journal_records a)) \<or>
    (\<exists>r \<in> set (journal_records a). \<exists>s \<in> set (journal_records b).
       sealed_of r \<noteq> sealed_of s \<and> ar_EntryHash r = ar_EntryHash s)"
proof -
  obtain sa sb where "verify_records (verify_key key) (journal_records a) verify_start = Inr sa"
    "verify_records (verify_key key) (journal_records b) verify_start = Inr sb"
    using verified_records[OF assms(1)] verified_records[OF assms(2)] by blast
  from chains_agree[OF this assms(3-5,8,9,6,7)] show ?thesis by blast
qed

text \<open>Files as they are written.\<close>

definition short_lines :: "AuditRecord list \<Rightarrow> bool" where
  "short_lines rs \<longleftrightarrow> list_all (\<lambda>r. length (marshal_record r) < VerifyBuffer) rs"

lemma scan_records:
  "short_lines rs \<Longrightarrow> scan_lines VerifyBuffer (as_lines (map marshal_record rs)) = (map marshal_record rs, False)"
  by (rule scan_as_lines) (auto simp: short_lines_def list_all_iff marshal_plain)

lemma journal_records_file:
  "list_all record_ok rs \<Longrightarrow> short_lines rs \<Longrightarrow> journal_records (as_lines (map marshal_record rs)) = rs"
proof -
  assume rs: "list_all record_ok rs" "short_lines rs"
  have "filter (\<lambda>t. t \<noteq> []) (map trim_space (map marshal_record rs)) = map marshal_record rs" by (induction rs) simp_all
  moreover have "List.map_filter unmarshal_record (map marshal_record rs) = rs"
    using rs(1) by (induction rs) (simp_all add: List.map_filter_simps unmarshal_marshal)
  ultimately show ?thesis using scan_records[OF rs(2)] by (simp add: journal_records_def)
qed

lemma verify_file_records:
  assumes "list_all record_ok rs" and "short_lines rs"
  shows "VerifyChain (Some (as_lines (map marshal_record rs))) key =
    (case verify_records (verify_key key) rs verify_start of
       Inl (n, e) \<Rightarrow> (False, n, Some e) | Inr st \<Rightarrow> (True, v_count st, None))"
  using verify_marshaled[OF assms(1), of "verify_key key" verify_start] scan_records[OF assms(2)]
  by (simp add: VerifyChain_def split: sum.splits)

lemma verify_record_cong:
  assumes "ar_SequenceID r = ar_SequenceID r'" and "record_message r = record_message r'" and "ar_PrevHash r = ar_PrevHash r'"
    and "ar_EntryHash r = ar_EntryHash r'"
    and "ar_SequenceID r' = 0 \<Longrightarrow> ar_NodeID r = ar_NodeID r' \<and> ar_BootEpoch r = ar_BootEpoch r'"
  shows "verify_record k r st = verify_record k r' st"
proof -
  have "expected_hash k r = expected_hash k r'"
    using assms(2) by (simp add: expected_hash_def ComputeEntryHash_def record_message_def)
  then show ?thesis unfolding verify_record_def Let_def using assms(1,3-5) by (simp cong: if_cong)
qed

text \<open>The session of an entry is not covered by the chain: whatever a writer of the file, who need not know the
  key, puts there, and into the node and boot fields, \<open>VerifyChain\<close> answers as before.\<close>

theorem session_not_protected:
  assumes "f = (\<lambda>r. if ar_SequenceID r = 0 then r\<lparr>ar_SessionID := session r\<rparr>
                    else r\<lparr>ar_SessionID := session r, ar_NodeID := node r, ar_BootEpoch := boot r\<rparr>)"
    and "list_all record_ok rs" and "list_all record_ok (map f rs)" and "short_lines rs" and "short_lines (map f rs)"
  shows "VerifyChain (Some (as_lines (map marshal_record (map f rs)))) key =
    VerifyChain (Some (as_lines (map marshal_record rs))) key"
proof -
  have "verify_record k (f r) st = verify_record k r st" for k r st
  proof (cases "ar_SequenceID r = 0")
    case True
    have "verify_record k (r\<lparr>ar_SessionID := session r\<rparr>) st = verify_record k r st"
      by (rule verify_record_cong) (simp_all add: record_message_def)
    then show ?thesis using True by (simp add: assms(1))
  next
    case False
    have "verify_record k (r\<lparr>ar_SessionID := session r, ar_NodeID := node r, ar_BootEpoch := boot r\<rparr>) st = verify_record k r st"
      using False by (intro verify_record_cong) (simp_all add: record_message_def)
    then show ?thesis using False by (simp add: assms(1))
  qed
  then have "verify_records k (map f rs) st = verify_records k rs st" for k st
    by (induction rs arbitrary: st) (simp_all split: sum.splits)
  then show ?thesis
    using verify_file_records[OF assms(2,4), of key] verify_file_records[OF assms(3,5), of key] by simp
qed

text \<open>Without the key the end of an accepted journal can be cut off at any record and a new genesis record put
  in its place: the result is accepted, with the count of the records left and the new one.\<close>

theorem reseeded_journal_accepted:
  assumes "list_all record_ok rs" and "short_lines rs"
    and "VerifyChain (Some (as_lines (map marshal_record rs))) key = (True, n, None)"
    and "record_ok (genesis_record node boot)" and "short_lines [genesis_record node boot]"
  shows "VerifyChain (Some (as_lines (map marshal_record (take k rs @ [genesis_record node boot])))) key =
    (True, of_nat (min (length rs) k + 1), None)"
proof -
  let ?g = "genesis_record node boot" and ?key = "verify_key key"
  obtain st where "verify_records ?key (take k rs @ drop k rs) verify_start = Inr st"
    using assms(3) verify_file_records[OF assms(1,2), of key] by (auto split: sum.splits prod.splits)
  then obtain st1 where st1: "verify_records ?key (take k rs) verify_start = Inr st1"
    unfolding verify_records_append by (auto split: sum.splits)
  have "verify_record ?key ?g st1 = Inr \<lparr>v_prevHash = ar_EntryHash ?g, v_lastSeq = 0, v_count = v_count st1 + 1\<rparr>"
    by (simp add: verify_record_def genesis_record_def Let_def)
  then have v: "verify_records ?key (take k rs @ [?g]) verify_start =
      Inr \<lparr>v_prevHash = ar_EntryHash ?g, v_lastSeq = 0, v_count = v_count st1 + 1\<rparr>"
    using st1 by (simp add: verify_records_append)
  have "list_all record_ok (take k rs @ [?g])" "short_lines (take k rs @ [?g])"
    using assms(1,2,4,5) by (auto simp: short_lines_def list_all_iff dest: in_set_takeD)
  from verify_file_records[OF this, of key] show ?thesis
    using v verify_count[OF st1] by (simp add: verify_start_def add.commute)
qed

text \<open>The journal of the example, and the chunk of it without its genesis record.\<close>

abbreviation "example_records \<equiv> [genesis_record defaultNodeID 7, chained first_ledger blocked_record]"

lemma example_ok:
  "list_all record_ok example_records" "short_lines example_records"
  "verify_records (verify_key []) example_records verify_start =
     Inr \<lparr>v_prevHash = ar_EntryHash (chained first_ledger blocked_record), v_lastSeq = 1, v_count = 2\<rparr>"
proof -
  have g: "journal_of first_ledger [genesis_record defaultNodeID 7]" "disk_ok first_ledger" "hmacKey first_ledger = verify_key []"
    using genesis_journal[OF first_ledger_eq] by (simp_all add: valid_ascii_text in_int64_def)
  have "journal_of (flush_record blocked_record first_ledger) example_records"
    using flush_record_journal[OF g(1,2) blocked_record_ok] by simp
  then show "list_all record_ok example_records" "verify_records (verify_key []) example_records verify_start =
     Inr \<lparr>v_prevHash = ar_EntryHash (chained first_ledger blocked_record), v_lastSeq = 1, v_count = 2\<rparr>"
    using g(3) by (simp_all add: journal_of_def flush_record_def Let_def)
  show "short_lines example_records" unfolding short_lines_def by (rule one_flushed_short[OF blocked_record_ok blocked_record_short])
qed

lemma example_accepted:
  "VerifyChain (Some (as_lines (map marshal_record example_records))) [] = (True, 2, None)"
  "VerifyChain (Some (as_lines (map marshal_record (tl example_records)))) [] = (True, 1, None)"
proof -
  show "VerifyChain (Some (as_lines (map marshal_record example_records))) [] = (True, 2, None)"
    using verify_file_records[OF example_ok(1,2), of "[]"] example_ok(3) by simp
  have l: "lastSeq first_ledger = 0" "hmacKey first_ledger = verify_key []"
    by (simp_all add: first_ledger_def NewChainedLedger_def all_well_def Let_def)
  have "verify_record (verify_key []) (chained first_ledger blocked_record) verify_start =
      Inr \<lparr>v_prevHash = ar_EntryHash (chained first_ledger blocked_record), v_lastSeq = 1, v_count = 1\<rparr>"
    by (simp add: verify_record_def verify_start_def chained_def Let_def l)
  then show "VerifyChain (Some (as_lines (map marshal_record (tl example_records)))) [] = (True, 1, None)"
    using verify_file_records[of "tl example_records" "[]"] example_ok(1,2) by (simp add: short_lines_def)
qed

lemma chained_seq: "ar_SequenceID (chained first_ledger rec) = 1"
  by (simp add: chained_def Let_def first_ledger_def NewChainedLedger_def all_well_def)

lemma tampering_is_evident_witness:
  "let a = journal_records (as_lines (map marshal_record example_records));
       b = journal_records (as_lines (map marshal_record (tl example_records)))
   in suffix (map sealed_of a) (map sealed_of b) \<or> suffix (map sealed_of b) (map sealed_of a) \<or>
     (\<exists>r \<in> set a. \<exists>s \<in> set b. sealed_of r \<noteq> sealed_of s \<and> ar_EntryHash r = ar_EntryHash s)"
proof -
  have a: "journal_records (as_lines (map marshal_record example_records)) = example_records"
    by (rule journal_records_file[OF example_ok(1,2)])
  have b: "journal_records (as_lines (map marshal_record (tl example_records))) = tl example_records"
    by (rule journal_records_file) (use example_ok(1,2) in \<open>simp_all add: short_lines_def\<close>)
  show ?thesis
    unfolding Let_def
    by (rule tampering_is_evident[OF example_accepted]; unfold a b) (simp_all add: chained_seq)
qed

lemma session_not_protected_witness:
  "VerifyChain (Some (as_lines (map marshal_record (map (\<lambda>r. if ar_SequenceID r = 0 then r\<lparr>ar_SessionID := []\<rparr>
       else r\<lparr>ar_SessionID := [], ar_NodeID := [], ar_BootEpoch := 5\<rparr>) (tl example_records))))) [] =
   VerifyChain (Some (as_lines (map marshal_record (tl example_records)))) []"
proof (rule session_not_protected[OF refl])
  let ?r = "(chained first_ledger blocked_record)\<lparr>ar_SessionID := [], ar_NodeID := [], ar_BootEpoch := 5\<rparr>"
  let ?f = "\<lambda>r. if ar_SequenceID r = 0 then r\<lparr>ar_SessionID := []\<rparr>
       else r\<lparr>ar_SessionID := [], ar_NodeID := [], ar_BootEpoch := 5\<rparr>"
  have r: "map ?f (tl example_records) = [?r]" by (simp add: chained_seq)
  show "list_all record_ok (tl example_records)" "short_lines (tl example_records)"
    using example_ok(1,2) by (simp_all add: short_lines_def)
  show "list_all record_ok (map ?f (tl example_records))"
    unfolding r using example_ok(1) by (simp add: record_ok_def in_int64_def valid_ascii_text)
  have "length (marshal_record ?r) < VerifyBuffer"
    using length_marshal[of ?r]
    by (simp add: VerifyBuffer_def record_strings_def chained_def Let_def zero_record_def in_int64_def first_ledger_def
        NewChainedLedger_def all_well_def genesis_record_def ComputeGenesisHash_def expected_hash_def ComputeEntryHash_def
        blocked_record_def Record_record_def new_record_def body_hash_def)
  then show "short_lines (map ?f (tl example_records))" unfolding r by (simp add: short_lines_def)
qed

lemma reseeded_journal_accepted_witness:
  "VerifyChain (Some (as_lines (map marshal_record (take 0 example_records @ [genesis_record defaultNodeID 7])))) [] =
    (True, of_nat (min (length example_records) 0 + 1), None)"
  by (rule reseeded_journal_accepted[OF example_ok(1,2) example_accepted(1)])
     (use example_ok(1,2) in \<open>simp_all add: short_lines_def\<close>)

text \<open>The parts of a message are not delimited: two entries that differ in tenant and action have one hash.\<close>

lemma entry_message_ambiguous:
  "ComputeEntryHash key p seq ts ''a:b'' ''c'' q w = ComputeEntryHash key p seq ts ''a'' ''b:c'' q w"
  by (simp add: ComputeEntryHash_def entry_message_def)

section \<open>Closing the ledger\<close>

definition quiet :: "ledger_system \<Rightarrow> bool" where
  "quiet s \<longleftrightarrow> (\<forall>i. calls s i = NotCalled \<or> (\<exists>x. calls s i = Returned x))"

text \<open>After the writer has ended nothing is written, and without a call in flight none is accepted any more.\<close>

lemma after_done_step:
  "ledger_step s s' \<Longrightarrow> writer s = WDone \<Longrightarrow> writer s' = WDone \<and> written s' = written s"
  by (induction rule: ledger_step.induct) (auto elim: record_stepE writer_stepE)

lemma after_done: "ledger_step\<^sup>*\<^sup>* s s' \<Longrightarrow> writer s = WDone \<Longrightarrow> writer s' = WDone \<and> written s' = written s"
  by (induction rule: rtranclp_induct) (auto dest: after_done_step)

lemma after_quiet_step:
  "ledger_step s s' \<Longrightarrow> closed s \<Longrightarrow> quiet s \<Longrightarrow> closed s' \<and> quiet s' \<and> (calls s' i = Returned None \<longrightarrow> calls s i = Returned None)"
proof (induction rule: ledger_step.induct)
  case (by_record s s')
  from by_record(1) show ?case
  proof cases
    case (is_closed j)
    then show ?thesis using by_record(2,3) by (auto simp: quiet_def)
  qed (use by_record(2,3) in \<open>auto simp: quiet_def\<close>; metis call.distinct)+
next
  case (by_writer s s')
  from by_writer(1) have "calls s' = calls s \<and> closed s' = closed s"
    by cases (auto simp: flush_system_def)
  then show ?case using by_writer(2,3) by (simp add: quiet_def)
qed (auto simp: quiet_def)

lemma after_quiet:
  "ledger_step\<^sup>*\<^sup>* s s' \<Longrightarrow> closed s \<Longrightarrow> quiet s \<Longrightarrow> closed s' \<and> quiet s' \<and> (calls s' i = Returned None \<longrightarrow> calls s i = Returned None)"
  by (induction rule: rtranclp_induct) (auto dest: after_quiet_step)

lemma run_steps: "ledger_step\<^sup>*\<^sup>* s s' \<Longrightarrow> ledger_run l s \<Longrightarrow> ledger_run l s'"
  by (induction rule: rtranclp_induct) (auto intro: run_step)

lemma count_once: "x \<in> set xs \<Longrightarrow> distinct xs \<Longrightarrow> count_list xs x = 1"
  by (induction xs) auto

text \<open>C35: If no call of \<open>Record\<close> is in flight when the writer, stopped by \<open>Close\<close>, finds the ring buffer empty and
  ends, then every record that was ever accepted (its call returned no error) is written exactly once, whatever
  happens afterwards.\<close>

theorem close_loses_nothing:
  assumes "ledger_run l s" and "quiet s" and "writer_step s s'" and "writer s = WDrain" and "writer s' = WDone"
    and "ledger_step\<^sup>*\<^sup>* s' t" and "calls t i = Returned None"
  shows "count_list (map fst (written t)) i = 1"
proof -
  have inv: "order_inv s" by (rule order_inv_run[OF assms(1)])
  then have closed: "closed s" using assms(4) by (simp add: order_inv_def phase_ok_def)
  from assms(3) have s': "s' = (flush_system s)\<lparr>writer := WDone\<rparr>" "Pop_nil s"
    using assms(4,5) by (cases; simp)+
  have "queue s = []"
  proof (rule ccontr)
    assume "queue s \<noteq> []"
    then obtain j rec q where "calls s j = Reserved rec" using s'(2) by (cases "queue s") (auto simp: Pop_nil_def)
    then show False using spec[OF assms(2)[unfolded quiet_def], of j] by simp
  qed
  then have w: "written t = in_system s"
    using after_done[OF assms(6)] s'(1) by (simp add: in_system_def)
  have "calls s' = calls s" "closed s'" "quiet s'" using s'(1) closed assms(2) by (simp_all add: quiet_def)
  then have "calls s i = Returned None" using after_quiet[OF assms(6), of i] assms(7) by simp
  then have "i \<in> set (map fst (in_system s))" "distinct (map fst (in_system s))"
    using inv unfolding order_inv_def by simp_all
  then show ?thesis unfolding w by (rule count_once)
qed

lemma close_loses_nothing_witness:
  "count_list (map fst (written ((one_flushed blocked_record)\<lparr>closed := True, writer := WDone\<rparr>))) 0 = 1"
proof -
  let ?s0 = "one_flushed blocked_record"
  let ?s1 = "?s0\<lparr>closed := True\<rparr>"
  let ?s2 = "?s1\<lparr>writer := WDrain\<rparr>"
  let ?s3 = "(flush_system ?s2)\<lparr>writer := WDone\<rparr>"
  have "ledger_step ?s0 ?s1" by (rule by_close) (simp add: one_flushed_def)
  note run = run_step[OF one_flushed_run this]
  have "ledger_step ?s1 ?s2" by (intro by_writer w_stop) (simp_all add: one_flushed_def)
  note run = run_step[OF run this]
  have "writer_step ?s2 ?s3" by (rule w_done) (simp_all add: one_flushed_def Pop_nil_def)
  from close_loses_nothing[OF run _ this _ _ rtranclp.rtrancl_refl, of 0] show ?thesis
    by (simp add: one_flushed_def quiet_def flush_system_def)
qed

text \<open>A call of \<open>Record\<close> that passed its check before \<open>Close\<close> and stores its record after the writer has ended
  returns no error, and its record is never written.\<close>

theorem accepted_record_lost_at_close:
  "\<exists>s. ledger_run l s \<and> calls s i = Returned None \<and> \<not> (\<exists>t. ledger_step\<^sup>*\<^sup>* s t \<and> written t \<noteq> [])"
proof -
  let ?rec = blocked_record
  let ?s0 = "start_ledger l"
  let ?s1 = "?s0\<lparr>calls := (calls ?s0)(i := Checked ?rec)\<rparr>"
  let ?s2 = "?s1\<lparr>writer := WSelect\<rparr>"
  let ?s3 = "?s2\<lparr>closed := True\<rparr>"
  let ?s4 = "?s3\<lparr>writer := WDrain\<rparr>"
  let ?s5 = "(flush_system ?s4)\<lparr>writer := WDone\<rparr>"
  let ?s6 = "?s5\<lparr>calls := (calls ?s5)(i := Reserved ?rec), queue := queue ?s5 @ [(i, ?rec)]\<rparr>"
  let ?s7 = "?s6\<lparr>calls := (calls ?s6)(i := Returned None)\<rparr>"
  note defs = start_ledger_def RingBufferSize_def Pop_nil_def flush_system_def
  have "ledger_step ?s0 ?s1" by (intro by_record check) (simp_all add: defs)
  note run = run_step[OF run_start this]
  have "ledger_step ?s1 ((if batch ?s1 \<noteq> [] then flush_system ?s1 else ?s1)\<lparr>writer := WSelect\<rparr>)"
    by (intro by_writer w_empty) (simp_all add: defs)
  then have "ledger_step ?s1 ?s2" by (simp add: defs)
  note run = run_step[OF run this]
  have "ledger_step ?s2 ?s3" by (rule by_close) (simp add: defs)
  note run = run_step[OF run this]
  have "ledger_step ?s3 ?s4" by (intro by_writer w_stop) simp_all
  note run = run_step[OF run this]
  have "ledger_step ?s4 ?s5" by (intro by_writer w_done) (simp_all add: defs)
  note run = run_step[OF run this]
  have "ledger_step ?s5 ?s6" by (intro by_record reserve) (simp_all add: defs)
  note run = run_step[OF run this]
  have "ledger_step ?s6 ?s7" by (intro by_record stored) (simp add: defs)
  note run = run_step[OF run this]
  have "calls ?s7 i = Returned None \<and> writer ?s7 = WDone \<and> written ?s7 = []" by (simp add: defs)
  with run obtain s where s: "ledger_run l s" "calls s i = Returned None" "writer s = WDone" "written s = []" by blast
  then have "\<not> (\<exists>t. ledger_step\<^sup>*\<^sup>* s t \<and> written t \<noteq> [])" using after_done by metis
  with s(1,2) show ?thesis by blast
qed

end
