(* ===== verification/Proxy_Main.thy ===== *)
theory Proxy_Main
  imports Server Audit_Chain
begin

text \<open>
  \<open>cmd/proxy/main.go\<close>: the command line, the configuration it overrides, and the wiring of the proxy.
  Parsing the flags, signals, logging and listening are left to the outside; the values of the
  flags, the files, and what the libraries answer are arguments.
\<close>

section \<open>Verifying a journal\<close>

text \<open>\<open>audit verify\<close>: the exit code. \<open>file_at\<close> gives the content of a file that can be opened.\<close>

definition audit_verify_command :: "(string \<Rightarrow> bytes option) \<Rightarrow> string \<Rightarrow> string \<Rightarrow> string \<Rightarrow> int" where
  "audit_verify_command file_at filePath keyFlag envKey =
     (if filePath = [] then 1
      else
        let key = (if keyFlag \<noteq> [] then keyFlag else if envKey \<noteq> [] then envKey else []) in
        case VerifyChain (file_at filePath) key of (valid, n, err) \<Rightarrow> if \<not> valid \<or> err \<noteq> None then 1 else 0)"

section \<open>Flags and configuration\<close>

record flags =
  fl_config :: string
  fl_port :: int
  fl_upstream :: string
  fl_upstream_key :: string

definition apply_flags :: "flags \<Rightarrow> Config \<Rightarrow> Config" where
  "apply_flags fl cfg0 =
     (let cfg1 = (if fl_port fl > 0
                  then cfg0\<lparr>cfg_Port := fl_port fl, cfg_ListenAddr := '':'' @ dec_int (fl_port fl)\<rparr> else cfg0);
          cfg2 = (if fl_upstream fl \<noteq> [] then cfg1\<lparr>cfg_UpstreamURL := fl_upstream fl\<rparr> else cfg1)
      in if fl_upstream_key fl \<noteq> [] then cfg2\<lparr>cfg_UpstreamAuthToken := fl_upstream_key fl\<rparr> else cfg2)"

definition tenant_list :: "Config \<Rightarrow> TenantContext list" where
  "tenant_list cfg = map (\<lambda>(k, tc). \<lparr>tx_TenantID = tc_TenantID tc, tx_Name = tc_Name tc, tx_APIKey = tc_APIKey tc,
     tx_Enabled = tc_Enabled tc\<rparr>) (case cfg_Tenants cfg of None \<Rightarrow> [] | Some ts \<Rightarrow> ts)"

definition breaker_settings :: "Config \<Rightarrow> cb_config" where
  "breaker_settings cfg = \<lparr>FailureThreshold = cbc_FailureThreshold (cfg_CircuitBreaker cfg),
     CooldownDuration = wrap64 (cbc_CooldownSeconds (cfg_CircuitBreaker cfg) * Second),
     HalfOpenProbes = cbc_HalfOpenProbes (cfg_CircuitBreaker cfg)\<rparr>"

text \<open>A flag for the port decides the address, whatever the configuration file says.\<close>

lemma port_flag_listens: "fl_port fl > 0 \<Longrightarrow> GetListenAddr (apply_flags fl cfg) = '':'' @ dec_int (fl_port fl)"
  by (simp add: GetListenAddr_def apply_flags_def Let_def)

section \<open>Start\<close>

text \<open>What the outside supplies: the Unicode tables, the float parser and printers, random bytes, the file
  system, the URL parser.\<close>

record 'f platform =
  pl_lower :: "rune \<Rightarrow> rune"
  pl_parse_float :: "bytes \<Rightarrow> 'f option"
  pl_format_float :: "'f \<Rightarrow> bytes option"
  pl_f64 :: "bytes \<Rightarrow> bytes"
  pl_random :: bytes
  pl_file :: "string \<Rightarrow> bytes option"
  pl_url :: "string \<Rightarrow> URL option"
  pl_journal :: journal_env

datatype start_error = ConfigRejected config_error | BadUpstreamURL | NotStarted

definition configured :: "'f platform \<Rightarrow> flags \<Rightarrow> start_error + Config" where
  "configured pl fl =
     (if fl_config fl \<noteq> [] then
        (case LoadConfig (pl_lower pl) (pl_parse_float pl) (pl_format_float pl) (pl_file pl (fl_config fl)) (fl_config fl) of
           None \<Rightarrow> Inl NotStarted
         | Some (Inl e) \<Rightarrow> Inl (ConfigRejected e)
         | Some (Inr cfg) \<Rightarrow> Inr (apply_flags fl cfg))
      else Inr (apply_flags fl NewDefaultConfig))"

definition configured_dispatcher :: "'f platform \<Rightarrow> Config \<Rightarrow> Dispatcher option" where
  "configured_dispatcher pl cfg =
     map_option (\<lambda>d. SetCircuitBreaker (Some (NewCircuitBreaker (breaker_settings cfg)))
         (if cfg_UpstreamAuthToken cfg \<noteq> [] then SetUpstreamAuthToken (cfg_UpstreamAuthToken cfg) d else d))
       (NewDispatcher (pl_url pl (GetUpstreamURL cfg)) (IdleTimeout (cfg_Timeouts cfg)))"

text \<open>The proxy when \<open>main\<close> starts to listen, with its ledger.\<close>

definition build_proxy :: "'f platform \<Rightarrow> Config \<Rightarrow> start_error + proxy \<times> ChainedLedger option" where
  "build_proxy pl cfg =
     (let runner = default_runner (pl_lower pl) (pl_f64 pl) (pl_random pl) cfg in
      case configured_dispatcher pl cfg of
        None \<Rightarrow> Inl BadUpstreamURL
      | Some d \<Rightarrow>
          (case NewServer (pl_journal pl) runner cfg (NewAuthenticator (tenant_list cfg)) runner (Some d) of
             None \<Rightarrow> Inl NotStarted
           | Some (sv, st, al) \<Rightarrow>
               Inr (\<lparr>px_server = sv, px_stages = st, px_telemetry = \<lparr>t_metrics = NewRegistry, t_audit = []\<rparr>\<rparr>, al)))"

definition start_proxy :: "'f platform \<Rightarrow> flags \<Rightarrow> start_error + proxy \<times> ChainedLedger option" where
  "start_proxy pl fl = (case configured pl fl of Inl e \<Rightarrow> Inl e | Inr cfg \<Rightarrow> build_proxy pl cfg)"

text \<open>The states of a started proxy: it serves requests, one after the other, on any of its routes.\<close>

inductive served :: "proxy \<Rightarrow> proxy \<Rightarrow> bool" for p where
  served_none: "served p p"
| served_one: "served p q \<Longrightarrow> ServeHTTP fmt_g h r q new_response = Some res \<Longrightarrow> served p (hd_proxy res)"

section \<open>What a started proxy keeps\<close>

lemma configured_dispatcher_wired:
  "configured_dispatcher pl cfg = Some d \<Longrightarrow> wired d \<and> d_auditLedger d = False \<and>
     d_upstreamAuthToken d = cfg_UpstreamAuthToken cfg"
  by (cases "cfg_UpstreamAuthToken cfg = []")
    (auto simp: configured_dispatcher_def NewDispatcher_def SetCircuitBreaker_def SetUpstreamAuthToken_def wired_def
      SetOnStateChange_def)

lemma default_runner_Some:
  "\<exists>st. default_runner ul f64 rnd cfg = Some (NewDefaultPipeline ul f64 st, st) \<and>
     NewInjectionMatcher ul [] = Some (is_InjectionMatcher st) \<and>
     is_RateLimiter st = tenant_limits (Some cfg) (NewRateLimiter 0 0)"
  using matcher_decides[of ul "[]"] by (auto simp: default_runner_def NewDefaultInboundStages_def)

lemma built:
  assumes "build_proxy pl cfg = Inr (p, al)"
  shows "proxy_ok p" and "default_proxy (pl_lower pl) (pl_f64 pl) p" and "sv_auditLedger (px_server p) = (al \<noteq> None)"
    and "sv_config (px_server p) = cfg" and "sv_authenticator (px_server p) = tenant_list cfg"
    and "al = open_ledger (pl_journal pl) (cfg_Audit cfg)"
    and "is_RateLimiter (px_stages p) = tenant_limits (Some cfg) (NewRateLimiter 0 0)"
proof -
  obtain st where st: "default_runner (pl_lower pl) (pl_f64 pl) (pl_random pl) cfg = Some (NewDefaultPipeline (pl_lower pl) (pl_f64 pl) st, st)"
    "NewInjectionMatcher (pl_lower pl) [] = Some (is_InjectionMatcher st)"
    "is_RateLimiter st = tenant_limits (Some cfg) (NewRateLimiter 0 0)"
    using default_runner_Some by blast
  have ne: "stages (NewDefaultPipeline (pl_lower pl) (pl_f64 pl) st 0) \<noteq> []"
    by (simp add: NewDefaultPipeline_def NewPipelineRunner_def default_stages_def)
  obtain d where d: "configured_dispatcher pl cfg = Some d"
    using assms by (auto simp: build_proxy_def Let_def split: option.splits)
  note b = assms[unfolded build_proxy_def Let_def d st(1) NewServer_def, simplified ne NewAuthenticator_def, simplified]
  note w = configured_dispatcher_wired[OF d]
  show "proxy_ok p" using b w by (auto simp: proxy_ok_def SetAuditLedger_def wired_def)
  show "default_proxy (pl_lower pl) (pl_f64 pl) p" using b st(2) by (auto simp: default_proxy_def)
  show "sv_auditLedger (px_server p) = (al \<noteq> None)" "sv_config (px_server p) = cfg"
    "sv_authenticator (px_server p) = tenant_list cfg" "al = open_ledger (pl_journal pl) (cfg_Audit cfg)"
    "is_RateLimiter (px_stages p) = tenant_limits (Some cfg) (NewRateLimiter 0 0)"
    using b st(3) by auto
qed

lemma build_decides:
  "if configured_dispatcher pl cfg = None then build_proxy pl cfg = Inl BadUpstreamURL
   else \<exists>p al. build_proxy pl cfg = Inr (p, al)"
proof -
  obtain st where st: "default_runner (pl_lower pl) (pl_f64 pl) (pl_random pl) cfg = Some (NewDefaultPipeline (pl_lower pl) (pl_f64 pl) st, st)"
    using default_runner_Some by blast
  have "stages (NewDefaultPipeline (pl_lower pl) (pl_f64 pl) st 0) \<noteq> []"
    by (simp add: NewDefaultPipeline_def NewPipelineRunner_def default_stages_def)
  then show ?thesis by (auto simp: build_proxy_def Let_def st NewServer_def split: option.splits)
qed

text \<open>The fields of the server that no call changes, and where its dispatcher sends requests to.\<close>

definition settings_of ::
  "proxy \<Rightarrow> Config \<times> Authenticator \<times> (time \<Rightarrow> InboundStages PipelineRunner) \<times> bool \<times> string \<times> duration \<times> (URL \<times> string) option" where
  "settings_of p = (let sv = px_server p in
     (sv_config sv, sv_authenticator sv, sv_pipeline sv, sv_auditLedger sv, sv_addr sv, sv_idleTimeout sv,
      map_option (\<lambda>d. (d_upstreamURL d, d_upstreamAuthToken d)) (sv_dispatcher sv)))"

lemma settings_of_count [simp]: "settings_of (server_count f p) = settings_of p"
  by (simp add: settings_of_def server_count_def Let_def split: option.splits)

lemma settings_of_audit [simp]: "settings_of (server_audit now tenant session action q a p) = settings_of p"
  by (simp add: settings_of_def)

lemma settings_of_stages [simp]: "settings_of (p\<lparr>px_stages := st\<rparr>) = settings_of p"
  by (simp add: settings_of_def)

lemma settings_of_rejects [simp]:
  "settings_of (hd_proxy (reject_auth h err p w)) = settings_of p"
  "settings_of (hd_proxy (reject_body h tc berr p w)) = settings_of p"
  "settings_of (hd_proxy (reject_violation h raw pc e p w)) = settings_of p"
  by (simp_all add: handler_defs Let_def split: body_error.splits)

lemma settings_of_forward [simp]: "settings_of (hd_proxy (forward_request h r pc p w)) = settings_of p"
proof (cases "sv_dispatcher (px_server p)")
  case (Some d)
  obtain res s where f: "Forward (h_exchange h) (r\<lparr>r_body := []\<rparr>) (Some pc) d (px_telemetry p) w = (res, s)" by fastforce
  then show ?thesis
    using Forward_same[OF f] Some by (simp add: forward_request_def settings_of_def same_dispatcher_def Let_def)
qed (simp add: forward_request_def)

lemma settings_of_handler [simp]: "settings_of (hd_proxy (handleProxy h r p w)) = settings_of p"
  by (simp add: handleProxy_def inspect_and_forward_def Let_def split: sum.splits prod.splits)

text \<open>The matcher is read by the stages and never changed.\<close>

lemma handler_matcher:
  assumes "default_proxy ul f64 p"
  shows "default_proxy ul f64 (hd_proxy (handleProxy h r p w))"
proof -
  obtain st where st: "sv_pipeline (px_server p) = NewDefaultPipeline ul f64 st" "NewInjectionMatcher ul [] = Some (is_InjectionMatcher st)"
    "is_InjectionMatcher (px_stages p) = is_InjectionMatcher st"
    using assms by (auto simp: default_proxy_def)
  have kept: "is_InjectionMatcher w' = is_InjectionMatcher st"
    if "Runner_Execute el (NewDefaultPipeline ul f64 st now) ctx (px_stages p) = (re, pc, w')" for el now ctx re pc w'
    using default_pipeline_matcher[of el ul f64 st now ctx "px_stages p"] that st(3) by simp
  have "is_InjectionMatcher (px_stages (hd_proxy (handleProxy h r p w))) = is_InjectionMatcher st"
    using st
    by (auto dest!: kept simp: handleProxy_def inspect_and_forward_def Let_def split: sum.splits prod.splits)
  moreover have "sv_pipeline (px_server (hd_proxy (handleProxy h r p w))) = sv_pipeline (px_server p)"
    using settings_of_handler[of h r p w] by (simp add: settings_of_def Let_def)
  ultimately show ?thesis using st by (auto simp: default_proxy_def)
qed

text \<open>What a started proxy keeps, whatever it serves.\<close>

definition kept :: "'f platform \<Rightarrow> proxy \<Rightarrow> proxy \<Rightarrow> bool" where
  "kept pl p q \<longleftrightarrow> proxy_ok q \<and> default_proxy (pl_lower pl) (pl_f64 pl) q \<and> settings_of q = settings_of p \<and>
     prefix (t_audit (px_telemetry p)) (t_audit (px_telemetry q))"

lemma handler_kept:
  assumes "kept pl p q"
  shows "kept pl p (hd_proxy (handleProxy h r q new_response))"
proof -
  have "step_ok (books h r q) q (hd_proxy (handleProxy h r q new_response))" using assms by (simp add: kept_def handler_books)
  then have "proxy_ok (hd_proxy (handleProxy h r q new_response))"
    "prefix (t_audit (px_telemetry q)) (t_audit (px_telemetry (hd_proxy (handleProxy h r q new_response))))"
    by (auto simp: step_ok_def books_one_def same_counts_def split: if_splits)
  then show ?thesis
    using assms handler_matcher[of "pl_lower pl" "pl_f64 pl" q h r new_response] prefix_order.trans
    by (auto simp: kept_def)
qed

lemma served_kept:
  assumes "build_proxy pl cfg = Inr (p, al)" and "served p q"
  shows "kept pl p q"
  using assms(2)
proof (induction rule: served.induct)
  case served_none
  then show ?case using built[OF assms(1)] by (simp add: kept_def)
next
  case (served_one q fmt_g h r res)
  then obtain rt where rt: "find_route (r_Path r) = Some rt" by (auto simp: ServeHTTP_def)
  show ?case
    using served_one rt handler_kept[of pl p q h r] by (cases rt) (auto simp: ServeHTTP_def)
qed

lemma built_settings:
  assumes "build_proxy pl cfg = Inr (p, al)" and "settings_of q = settings_of p"
  shows "sv_config (px_server q) = cfg" and "sv_authenticator (px_server q) = tenant_list cfg"
    and "sv_auditLedger (px_server q) = (open_ledger (pl_journal pl) (cfg_Audit cfg) \<noteq> None)"
    and "\<exists>d. sv_dispatcher (px_server q) = Some d \<and> Some (d_upstreamURL d) = pl_url pl (GetUpstreamURL cfg) \<and>
      d_upstreamAuthToken d = cfg_UpstreamAuthToken cfg"
proof -
  obtain d where d: "configured_dispatcher pl cfg = Some d"
    using assms by (auto simp: build_proxy_def Let_def split: option.splits)
  have "map_option (\<lambda>d. (d_upstreamURL d, d_upstreamAuthToken d)) (sv_dispatcher (px_server p)) =
      Some (d_upstreamURL d, d_upstreamAuthToken d)"
    using assms(1) by (auto simp: build_proxy_def NewServer_def Let_def d SetAuditLedger_def split: option.splits if_splits)
  moreover have "Some (d_upstreamURL d) = pl_url pl (GetUpstreamURL cfg)"
    using d by (auto simp: configured_dispatcher_def NewDispatcher_def SetCircuitBreaker_def SetUpstreamAuthToken_def split: if_splits)
  ultimately show "\<exists>d. sv_dispatcher (px_server q) = Some d \<and> Some (d_upstreamURL d) = pl_url pl (GetUpstreamURL cfg) \<and>
      d_upstreamAuthToken d = cfg_UpstreamAuthToken cfg"
    using assms(2) configured_dispatcher_wired[OF d] by (auto simp: settings_of_def Let_def)
  show "sv_config (px_server q) = cfg" "sv_authenticator (px_server q) = tenant_list cfg"
    "sv_auditLedger (px_server q) = (open_ledger (pl_journal pl) (cfg_Audit cfg) \<noteq> None)"
    using assms(2) built[OF assms(1)] by (simp_all add: settings_of_def Let_def)
qed

section \<open>Properties\<close>

text \<open>C11: Invariants of the running proxy: whatever requests a proxy serves after \<open>main\<close> has built it from a
  configuration, on any route, with any behaviour of clients, upstream and disk, its parts fit together, its
  pipeline is the default one, its configuration, tenants and listening address are those of the start, its ledger
  is the one that could be opened, requests go to the configured URL with the configured token, and the calls of
  \<open>Record\<close> made so far are a prefix of those made later.\<close>

theorem started_proxy_stays_sound:
  assumes "build_proxy pl cfg = Inr (p, al)" and "served p q"
  shows "proxy_ok q \<and> default_proxy (pl_lower pl) (pl_f64 pl) q \<and>
    sv_config (px_server q) = cfg \<and> sv_authenticator (px_server q) = tenant_list cfg \<and>
    sv_addr (px_server q) = GetListenAddr cfg \<and>
    sv_auditLedger (px_server q) = (open_ledger (pl_journal pl) (cfg_Audit cfg) \<noteq> None) \<and>
    (\<exists>d. sv_dispatcher (px_server q) = Some d \<and> Some (d_upstreamURL d) = pl_url pl (GetUpstreamURL cfg) \<and>
      d_upstreamAuthToken d = cfg_UpstreamAuthToken cfg) \<and>
    prefix (t_audit (px_telemetry p)) (t_audit (px_telemetry q))"
proof -
  have k: "kept pl p q" by (rule served_kept[OF assms])
  have "sv_addr (px_server p) = GetListenAddr cfg"
    using assms(1) by (auto simp: build_proxy_def NewServer_def Let_def split: option.splits if_splits)
  moreover have s: "settings_of q = settings_of p" using k by (simp add: kept_def)
  then have "sv_addr (px_server q) = sv_addr (px_server p)" by (simp add: settings_of_def Let_def)
  ultimately show ?thesis using k built_settings[OF assms(1) s] by (simp add: kept_def)
qed

text \<open>C1: Only inspected payloads of authentic tenants go upstream: when a proxy that \<open>main\<close> has built serves,
  after any requests before, a request with a body, and something is sent upstream, then the request carried the
  key of an enabled tenant of the configuration; its body was within the configured limit; its payload was
  inspected by all six stages of the default pipeline, in the state they were in when it came, and none objected;
  and what is sent goes to the configured URL with the configured token, and is the request of the client
  with the sanitized, redacted payload and the canary token in it.\<close>

theorem only_inspected_goes_upstream:
  assumes "build_proxy pl cfg = Inr (p, al)" and "served p q"
    and "hd_request (handleProxy h r q w) = Some u" and "r_body r \<noteq> []"
  shows "\<exists>tc d ctx. tc \<in> set (tenant_list cfg) \<and> tx_Enabled tc \<and> tx_APIKey tc = ExtractAPIKey r \<and>
    int (length (r_body r)) \<le> cfg_MaxPayloadBytes cfg \<and>
    inspected (pl_lower pl) (pl_f64 pl) (h_now h) (inbound_context h r tc (r_body r)) (px_stages q) ctx
      (px_stages (hd_proxy (handleProxy h r q w))) \<and>
    Some (d_upstreamURL d) = pl_url pl (GetUpstreamURL cfg) \<and> d_upstreamAuthToken d = cfg_UpstreamAuthToken cfg \<and>
    u = upstream_request_of (x_ul (h_exchange h)) d r (CleanPayload ctx)"
proof -
  have k: "kept pl p q" by (rule served_kept[OF assms(1,2)])
  then have "default_proxy (pl_lower pl) (pl_f64 pl) q" by (simp add: kept_def)
  from upstream_gets_inspected_payload[OF this assms(3,4)] obtain tc d ctx where
    g: "tc \<in> set (sv_authenticator (px_server q))" "tx_Enabled tc" "tx_APIKey tc = ExtractAPIKey r"
      "int (length (r_body r)) \<le> cfg_MaxPayloadBytes (sv_config (px_server q))"
      "inspected (pl_lower pl) (pl_f64 pl) (h_now h) (inbound_context h r tc (r_body r)) (px_stages q) ctx
        (px_stages (hd_proxy (handleProxy h r q w)))"
      "sv_dispatcher (px_server q) = Some d" "u = upstream_request_of (x_ul (h_exchange h)) d r (CleanPayload ctx)"
    by blast
  have s: "settings_of q = settings_of p" using k by (simp add: kept_def)
  note b = built_settings[OF assms(1) s]
  show ?thesis
    by (rule exI[of _ tc], rule exI[of _ d], rule exI[of _ ctx]) (use b g in simp)
qed

text \<open>What stands in the journal file when the proxy starts: nothing, or the journal of \<open>n\<close> records that
  earlier lives of the proxy have left there.\<close>

definition left_by_earlier :: "bytes \<Rightarrow> bytes \<Rightarrow> nat \<Rightarrow> bool" where
  "left_by_earlier key at_start n \<longleftrightarrow> (at_start = [] \<and> n = 1) \<or> (\<exists>l0. honest_journal key l0 n \<and> at_start = journal l0)"

text \<open>The ledger runs beside the handlers: its calls are given the records that the handlers hand over.\<close>

definition ledger_beside :: "ChainedLedger \<Rightarrow> proxy \<Rightarrow> ledger_system \<Rightarrow> bool" where
  "ledger_beside l q s \<longleftrightarrow> ledger_run l s \<and> list_all (\<lambda>w. snd w \<in> set (t_audit (px_telemetry q))) (written s)"

lemma opened_honest:
  assumes "NewChainedLedger os now c key node = Inr l" and "left_by_earlier key c n"
    and "valid_utf8 node" and "in_int64 now" and "ledger_run l s" and "disk_ok (ledger s)"
    and "list_all (\<lambda>w. record_ok (snd w)) (written s)"
  shows "honest_journal key (ledger s) (n + length (written s))"
  using assms(2) unfolding left_by_earlier_def
proof (elim disjE conjE exE)
  assume "c = []" "n = 1"
  then show ?thesis using fresh[OF _ assms(3-7)] assms(1) by simp
next
  fix l0 assume "honest_journal key l0 n" "c = journal l0"
  then show ?thesis using again[OF _ _ assms(5-7)] assms(1) by simp
qed

text \<open>C4: The records of what a started proxy serves are verifiable: whatever it serves and however its ledger
  interleaves, as long as the disk works, the texts of the records are valid UTF-8 and no line reaches the
  verifier's buffer, the command \<open>audit verify\<close> with the configured key accepts the journal (exit code 0), also when the
  journal was begun by earlier lives of the proxy or had to go to the temporary file.\<close>

theorem audit_verify_accepts_own_journal:
  assumes "build_proxy pl cfg = Inr (p, Some l)" and "served p q" and "ledger_beside l q s"
    and "left_by_earlier (au_HMACKey (cfg_Audit cfg)) (j_content (pl_journal pl)) n"
    and "left_by_earlier (au_HMACKey (cfg_Audit cfg)) (j_tmp_content (pl_journal pl)) m"
    and "valid_utf8 (au_NodeID (cfg_Audit cfg))" and "in_int64 (j_now (pl_journal pl))" and "in_int64 (j_tmp_now (pl_journal pl))"
    and "disk_ok (ledger s)" and "list_all record_ok (t_audit (px_telemetry q))"
    and "n + m + length (written s) < 2 ^ 64"
    and "list_all (\<lambda>ln. length ln < VerifyBuffer) (split_lines (journal (ledger s)))" and "path \<noteq> []"
  shows "audit_verify_command (\<lambda>f. if f = path then Some (journal (ledger s)) else None) path (au_HMACKey (cfg_Audit cfg)) [] = 0"
proof -
  let ?j = "pl_journal pl" and ?key = "au_HMACKey (cfg_Audit cfg)" and ?node = "au_NodeID (cfg_Audit cfg)"
  have run: "ledger_run l s" and ok: "list_all (\<lambda>w. record_ok (snd w)) (written s)"
    using assms(3,10) by (auto simp: ledger_beside_def list_all_iff)
  have "open_ledger ?j (cfg_Audit cfg) = Some l" using built(6)[OF assms(1)] by simp
  then consider "NewChainedLedger (j_os ?j) (j_now ?j) (j_content ?j) ?key ?node = Inr l"
    | "NewChainedLedger (j_tmp_os ?j) (j_tmp_now ?j) (j_tmp_content ?j) ?key ?node = Inr l"
    by (auto simp: open_ledger_def split: if_splits sum.splits)
  then obtain k where k: "honest_journal ?key (ledger s) (k + length (written s))" "k \<le> n + m"
    using opened_honest[OF _ assms(4,6,7) run assms(9) ok] opened_honest[OF _ assms(5,6,8) run assms(9) ok]
    by cases (auto intro: le_add1 le_add2)
  then have "VerifyChain (Some (journal (ledger s))) ?key = (True, of_nat (k + length (written s)), None)"
    using honest_verifies assms(11,12) by simp
  then show ?thesis using assms(13) by (cases "au_HMACKey (cfg_Audit cfg)") (auto simp: audit_verify_command_def)
qed

text \<open>C10: Starting the proxy always decides: for every configuration file, whatever its text, and all flags, reading
  it and building the automaton end, and \<open>main\<close> either stops, exactly with the error of the loader or because the
  URL of the upstream does not parse, or it has the proxy built from the configuration and the flags.\<close>

theorem start_always_decides:
  "case start_proxy pl fl of
     Inl NotStarted \<Rightarrow> False
   | Inl (ConfigRejected e) \<Rightarrow> fl_config fl \<noteq> [] \<and>
       LoadConfig (pl_lower pl) (pl_parse_float pl) (pl_format_float pl) (pl_file pl (fl_config fl)) (fl_config fl) = Some (Inl e)
   | Inl BadUpstreamURL \<Rightarrow> (\<exists>cfg. configured pl fl = Inr cfg \<and> pl_url pl (GetUpstreamURL cfg) = None)
   | Inr (p, al) \<Rightarrow> (\<exists>cfg. configured pl fl = Inr cfg \<and> pl_url pl (GetUpstreamURL cfg) \<noteq> None \<and>
       build_proxy pl cfg = Inr (p, al))"
proof (cases "configured pl fl")
  case (Inl e)
  then show ?thesis
    using LoadConfig_decides[of "pl_lower pl" "pl_parse_float pl" "pl_format_float pl" "pl_file pl (fl_config fl)" "fl_config fl"]
    by (auto simp: start_proxy_def configured_def split: if_splits option.splits sum.splits)
next
  case (Inr cfg)
  have url: "configured_dispatcher pl cfg = None \<longleftrightarrow> pl_url pl (GetUpstreamURL cfg) = None"
    by (simp add: configured_dispatcher_def NewDispatcher_def)
  show ?thesis using Inr url build_decides[of pl cfg] by (auto simp: start_proxy_def)
qed

section \<open>A proxy for one tenant\<close>

definition example_config :: Config where
  "example_config = NewDefaultConfig\<lparr>cfg_Tenants := Some [(''k1'', \<lparr>tc_APIKey = ''k1'', tc_TenantID = ''acme'',
     tc_Name = ''Acme'', tc_Enabled = True, tc_RPM = 0, tc_TPM = 0\<rparr>)]\<rparr>"

definition example_platform :: "unit platform" where
  "example_platform = \<lparr>pl_lower = id, pl_parse_float = (\<lambda>_. None), pl_format_float = (\<lambda>_. None), pl_f64 = id,
     pl_random = [], pl_file = (\<lambda>_. None), pl_url = (\<lambda>_. Some example_url),
     pl_journal = \<lparr>j_os = all_well, j_now = 7, j_content = [], j_tmp_os = all_well, j_tmp_now = 7, j_tmp_content = []\<rparr>\<rparr>"

lemma example_tenants: "tenant_list example_config = [example_tenant]"
  by (simp add: tenant_list_def example_config_def example_tenant_def)

lemma example_built:
  "\<exists>ns p al d cb. NewInjectionMatcher id [] = Some ns \<and> build_proxy example_platform example_config = Inr (p, al) \<and>
     sv_pipeline (px_server p) = NewDefaultPipeline id id (example_stages ns) \<and> px_stages p = example_stages ns \<and>
     sv_dispatcher (px_server p) = Some d \<and> d_circuitBreaker d = Some cb \<and> cb_state cb = StateClosed"
proof -
  obtain ns where ns: "NewInjectionMatcher id [] = Some ns" using matcher_decides[of id "[]"] by blast
  have limits: "tenant_limits (Some example_config) (NewRateLimiter 0 0) = NewRateLimiter 0 0"
    by (simp add: tenant_limits_def example_config_def)
  have runner: "default_runner id id [] example_config = Some (NewDefaultPipeline id id (example_stages ns), example_stages ns)"
    by (simp add: default_runner_def NewDefaultInboundStages_def ns limits example_stages_def)
  have ne: "stages (NewDefaultPipeline id id (example_stages ns) 0) \<noteq> []"
    by (simp add: NewDefaultPipeline_def NewPipelineRunner_def default_stages_def)
  have pl: "pl_lower example_platform = id" "pl_f64 example_platform = id" "pl_random example_platform = []"
    "pl_url example_platform u = Some example_url" for u
    by (simp_all add: example_platform_def)
  obtain d cb where d: "configured_dispatcher example_platform example_config = Some d" "d_circuitBreaker d = Some cb"
    "cb_state cb = StateClosed"
    by (simp add: configured_dispatcher_def pl NewDispatcher_def SetCircuitBreaker_def SetOnStateChange_def NewCircuitBreaker_def)
  have "\<exists>p al. build_proxy example_platform example_config = Inr (p, al) \<and>
     sv_pipeline (px_server p) = NewDefaultPipeline id id (example_stages ns) \<and> px_stages p = example_stages ns \<and>
     sv_dispatcher (px_server p) = (if al \<noteq> None then Some (SetAuditLedger True d) else Some d)"
    by (simp add: build_proxy_def Let_def pl runner d NewServer_def ne)
  then show ?thesis using ns d(2,3) by (auto simp: SetAuditLedger_def split: if_splits)
qed

lemma only_inspected_goes_upstream_witness:
  "\<exists>p al u. build_proxy example_platform example_config = Inr (p, al) \<and>
     (let r = example_request\<lparr>r_body := ''hi''\<rparr>; w = handleProxy example_handling r p new_response in
      hd_request w = Some u \<and>
      (\<exists>ctx. inspected id id 0 (inbound_context example_handling r example_tenant ''hi'') (px_stages p) ctx (px_stages (hd_proxy w)) \<and>
        q_Body u = CleanPayload ctx))"
proof -
  obtain ns p al d cb where b: "NewInjectionMatcher id [] = Some ns" "build_proxy example_platform example_config = Inr (p, al)"
    "sv_pipeline (px_server p) = NewDefaultPipeline id id (example_stages ns)" "px_stages p = example_stages ns"
    "sv_dispatcher (px_server p) = Some d" "d_circuitBreaker d = Some cb" "cb_state cb = StateClosed"
    using example_built by blast
  have lim: "2 \<le> cfg_MaxPayloadBytes (sv_config (px_server p))"
    using built(4)[OF b(2)] by (simp add: example_config_def NewDefaultConfig_def DefaultMaxPayloadBytes_def)
  have auth: "sv_authenticator (px_server p) = [example_tenant]" using built(5)[OF b(2)] by (simp add: example_tenants)
  obtain u where u: "hd_request (handleProxy example_handling (example_request\<lparr>r_body := ''hi''\<rparr>) p new_response) = Some u"
    using hi_forwarded[OF b(1) auth lim b(3-7)] by auto
  from only_inspected_goes_upstream[OF b(2) served_none u] show ?thesis
    using b(2) u
    by (intro exI[of _ p] exI[of _ al] exI[of _ u])
      (auto simp: Let_def example_tenants example_platform_def example_handling_def upstream_request_of_def)
qed

lemma started_proxy_stays_sound_witness:
  "\<exists>p al. build_proxy example_platform example_config = Inr (p, al) \<and>
     (let q = hd_proxy (handleProxy example_handling (example_request\<lparr>r_Path := ''/v1/chat''\<rparr>) p new_response) in
      proxy_ok q \<and> sv_authenticator (px_server q) = [example_tenant])"
proof -
  obtain p al where b: "build_proxy example_platform example_config = Inr (p, al)" using example_built by blast
  let ?r = "example_request\<lparr>r_Path := ''/v1/chat''\<rparr>"
  have "find_route (r_Path ?r) = Some ProxyRoute" by code_simp
  then have "ServeHTTP (\<lambda>_. []) example_handling ?r p new_response = Some (handleProxy example_handling ?r p new_response)"
    by (simp add: ServeHTTP_def)
  from started_proxy_stays_sound[OF b served_one[OF served_none this]] b show ?thesis
    by (intro exI[of _ p] exI[of _ al]) (simp add: Let_def example_tenants)
qed

text \<open>One request without a key, and its record flushed to the journal.\<close>

definition keyless_request :: request where
  "keyless_request = example_request\<lparr>r_Path := ''/v1/chat'', r_Header := []\<rparr>"

definition auth_record :: AuditRecord where
  "auth_record = Record_record 0 ''unauthenticated'' [] ''AUTH_FAILURE'' None
     (Some (marshal_map (JObj [(''error'', JStr (auth_error_text ErrMissingAPIKey))])))"

lemma auth_record_ok: "record_ok auth_record" "sum_list (map length (record_strings auth_record)) \<le> 1000"
proof -
  have "valid_utf8 ''unauthenticated''" "valid_utf8 ''AUTH_FAILURE''" "valid_utf8 []"
    by (auto intro!: valid_ascii_text simp: is_ascii_def byte_def)
  then show "record_ok auth_record"
    by (simp add: record_ok_def auth_record_def Record_record_def new_record_def zero_record_def body_hash_def
        hex_valid in_int64_def)
  show "sum_list (map length (record_strings auth_record)) \<le> 1000"
    by (simp add: record_strings_def auth_record_def Record_record_def new_record_def zero_record_def body_hash_def)
qed

lemma keyless_audit:
  assumes "sv_authenticator (px_server p) = [example_tenant]" and "sv_auditLedger (px_server p)" and "t_audit (px_telemetry p) = []"
  shows "t_audit (px_telemetry (hd_proxy (handleProxy example_handling keyless_request p new_response))) = [auth_record]"
proof -
  have "Authenticate (sv_authenticator (px_server p)) keyless_request = Inl ErrMissingAPIKey"
    by (simp add: Authenticate_def ExtractAPIKey_def header_get_def header_values_def Let_def keyless_request_def)
  then have "handleProxy example_handling keyless_request p new_response =
      reject_auth example_handling ErrMissingAPIKey p new_response" by (simp add: handleProxy_def)
  moreover have "t_audit (px_telemetry (server_count f q)) = t_audit (px_telemetry q)" for f q
    by (simp add: server_count_def count_with_def split: option.splits)
  ultimately show ?thesis
    using assms by (simp add: handler_defs Let_def server_audit_def audit_with_def auth_record_def example_handling_def)
qed

lemma example_opened: "open_ledger (pl_journal example_platform) (cfg_Audit example_config) = Some first_ledger"
proof -
  have "NewChainedLedger all_well 7 [] [] defaultNodeID = Inr first_ledger"
    using first_ledger_eq by (simp add: NewChainedLedger_def Let_def defaultNodeID_def)
  then show ?thesis
    by (simp add: open_ledger_def example_platform_def example_config_def NewDefaultConfig_def defaultNodeID_def)
qed

lemma audit_verify_accepts_own_journal_witness:
  "\<exists>p. build_proxy example_platform example_config = Inr (p, Some first_ledger) \<and>
     t_audit (px_telemetry (hd_proxy (handleProxy example_handling keyless_request p new_response))) = [auth_record] \<and>
     audit_verify_command (\<lambda>f. if f = ''j'' then Some (journal (ledger (one_flushed auth_record))) else None) ''j'' [] [] = 0"
proof -
  obtain p al where b: "build_proxy example_platform example_config = Inr (p, al)" using example_built by blast
  then have al: "al = Some first_ledger" using built(6)[OF b] example_opened by simp
  have p: "sv_authenticator (px_server p) = [example_tenant]" "sv_auditLedger (px_server p)" "t_audit (px_telemetry p) = []"
    using built(3,5)[OF b] al b by (auto simp: example_tenants build_proxy_def Let_def split: option.splits)
  let ?q = "hd_proxy (handleProxy example_handling keyless_request p new_response)"
  have audit: "t_audit (px_telemetry ?q) = [auth_record]" by (rule keyless_audit[OF p])
  have "find_route (r_Path keyless_request) = Some ProxyRoute" by code_simp
  then have "ServeHTTP (\<lambda>_. []) example_handling keyless_request p new_response =
      Some (handleProxy example_handling keyless_request p new_response)" by (simp add: ServeHTTP_def)
  note served = served_one[OF served_none this]
  have beside: "ledger_beside first_ledger ?q (one_flushed auth_record)"
    using one_flushed_run[of auth_record] audit by (simp add: ledger_beside_def one_flushed_def)
  have ok: "disk_ok (ledger (one_flushed auth_record))"
    by (simp add: one_flushed_def first_ledger_def NewChainedLedger_def all_well_def Let_def)
  have pl: "au_HMACKey (cfg_Audit example_config) = []" "j_content (pl_journal example_platform) = []"
    "j_tmp_content (pl_journal example_platform) = []" "j_now (pl_journal example_platform) = 7"
    "j_tmp_now (pl_journal example_platform) = 7" "au_NodeID (cfg_Audit example_config) = defaultNodeID"
    by (simp_all add: example_config_def NewDefaultConfig_def example_platform_def defaultNodeID_def)
  have node: "valid_utf8 defaultNodeID" by (auto intro!: valid_ascii_text simp: defaultNodeID_def is_ascii_def byte_def)
  show ?thesis
    using audit_verify_accepts_own_journal[OF b[unfolded al] served beside, of 1 1 "''j''"] audit b al auth_record_ok(1) ok node
      one_flushed_lines[OF auth_record_ok]
    by (auto simp: pl left_by_earlier_def in_int64_def one_flushed_def)
qed

end
