(* ===== verification/Spec2Isabelle.thy ===== *)
theory Spec2Isabelle
  imports Proxy_Main
begin

text \<open>
  A verification development for the AI security guardrail proxy, an HTTP proxy in Go that authenticates
  tenants, inspects the prompts that they send to a language model, forwards them, inspects what comes back
  and keeps a tamper-evident journal. Paths are relative to the directory of the sources.

  \<^bold>\<open>The parts and how they interact.\<close> \<open>cmd/proxy/main.go\<close> reads the configuration (\<open>internal/config\<close>) and wires
  the parts. \<open>internal/server\<close> takes a request: it authenticates it (\<open>internal/auth\<close>), reads its body, acquires a
  pooled context and runs the inbound pipeline (\<open>internal/pipeline\<close>, \<open>internal/inbound\<close>) on it: rate limiter,
  delimiter sanitizer, injection matcher, DLP scanner, entropy analyzer, canary synthesizer. What passes goes to
  \<open>internal/dispatcher\<close>, which asks the circuit breaker (\<open>internal/resilience\<close>), sends the request upstream
  and passes the answer through \<open>internal/outbound\<close>: whole bodies through detectors and a schema
  validator, streams through a sliding window. Every answer is counted in \<open>internal/metrics\<close> and handed as a
  record to the ledger of \<open>internal/audit\<close>, whose ring buffer and writer put it on a hash chain in a file.

  \<^bold>\<open>The theories.\<close>
  \<^item> Support, for what the code uses of Go: \<^verbatim>\<open>Prelude\<close> (types, time, 64-bit arithmetic), \<^verbatim>\<open>Go_Strings\<close>,
    \<^verbatim>\<open>Go_Utf8\<close>, \<^verbatim>\<open>Go_Case\<close> (bytes, strings, utf8), \<^verbatim>\<open>Json\<close>, \<^verbatim>\<open>Json_Decode\<close>, \<^verbatim>\<open>Json_Text\<close> (encoding/json),
    \<^verbatim>\<open>Regex\<close> (the fragment of regexp with leftmost-first matching), \<^verbatim>\<open>Sha256\<close> (sha256, hmac, hex), \<^verbatim>\<open>Go_Bufio\<close>
    (line scanner), \<^verbatim>\<open>Go_Float\<close> (float64 with correct rounding), \<^verbatim>\<open>Go_Http\<close> (headers, requests, responses). These are defined, not assumed.
  \<^item> \<^verbatim>\<open>Circuit_Breaker\<close> (\<open>internal/resilience/circuit_breaker.go\<close>): the record of the breaker and its operations;
    it simulates an abstract three-state circuit, keeps its invariant and recovers.
  \<^item> \<^verbatim>\<open>Pipeline\<close> (\<open>internal/pipeline/pipeline.go\<close>): contexts, the contract of a stage as the locale
    \<open>inbound_stage\<close>, the runner with recovered panics; it fails closed.
  \<^item> \<^verbatim>\<open>Rate_Limiter\<close>, \<^verbatim>\<open>Delimiter\<close>, \<^verbatim>\<open>Aho_Corasick\<close>, \<^verbatim>\<open>PII_Validators\<close>, \<^verbatim>\<open>Session_Vault\<close>, \<^verbatim>\<open>Inbound_DLP\<close>,
    \<^verbatim>\<open>Entropy\<close>, \<^verbatim>\<open>Canary\<close> (\<open>internal/inbound\<close>): one theory per stage or object of a stage. Each interprets
    \<open>inbound_stage\<close>; the quotas hold in every window and the pruning limiter refines one with a full history;
    the automaton finds the first occurrence; no spelling of a framing token passes; redaction is complete; the
    vault is a bijection per session; the canary changes one message or the prompt and nothing else.
    \<^verbatim>\<open>Inbound_Pipeline\<close> composes them: each stage works on its part of one state (locale \<open>part_stage\<close>).
  \<^item> \<^verbatim>\<open>Lookahead\<close>, \<^verbatim>\<open>Outbound_Schema\<close>, \<^verbatim>\<open>Outbound\<close> (\<open>internal/outbound\<close>): the window transformer over the list
    of what the reads return, with its effects in order; the validator; detectors and engine. The locale
    \<open>stream_inspector\<close> states what an inspector owes the window; no byte of a guarded secret is released, and what
    the client gets instead is one of six fixed texts (\<open>leak_violations\<close>).
  \<^item> \<^verbatim>\<open>Ring_Buffer\<close>, \<^verbatim>\<open>Audit_Record\<close>, \<^verbatim>\<open>Audit_Ledger\<close>, \<^verbatim>\<open>Audit_Chain\<close> (\<open>internal/audit\<close>): the lock-free buffer as
    a step relation over its atomic operations, refined to a bounded queue; records, hashes and verifier;
    the ledger's calls, writer and \<open>Close\<close> as a step relation over that queue; and what the journal promises.
  \<^item> \<^verbatim>\<open>Yaml\<close>, \<^verbatim>\<open>Config\<close> (\<open>internal/config\<close>): the reader, with termination and round trip, and the configuration
    with its defaults; what is loaded is typed and complete.
  \<^item> \<^verbatim>\<open>Metrics\<close> (\<open>internal/metrics/metrics.go\<close>): counters, histograms with their float64 samples and sums, the
    exposition; one line per counted combination of labels, buckets that grow with their bounds.
  \<^item> \<^verbatim>\<open>Auth\<close> (\<open>internal/auth/auth.go\<close>): tenants and the full scan of the keys.
  \<^item> \<^verbatim>\<open>Dispatcher\<close> (\<open>internal/dispatcher/dispatcher.go\<close>): one call of \<open>Forward\<close> as a function of dispatcher, context,
    telemetry and what the outside does (record \<open>exchange\<close>).
  \<^item> \<^verbatim>\<open>Server\<close> (\<open>internal/server/server.go\<close>): construction, routes, handlers; one call as a function of the state of the
    proxy and of what the outside does (record \<open>handling\<close>).
  \<^item> \<^verbatim>\<open>Proxy_Main\<close> (\<open>cmd/proxy/main.go\<close>): from the flags to the listening proxy, the relation \<open>served\<close> of the states it
    reaches, and the properties of the whole: the start always decides, only inspected payloads of authentic tenants go
    upstream, what every served request keeps, and that \<open>audit verify\<close> accepts the journal of what was served.

  \<^bold>\<open>Correspondence.\<close> A definition has the name of the function it translates, or of the step of a handler that
  it is a part of; a struct is a record with the fields that the code reads, a map an association list or a
  partial function, a pointer that may be nil an option. Errors are values. A mutex makes an operation one step;
  where the code uses atomics (ring buffer, ledger) every atomic operation is a step and all interleavings are
  covered. \<open>uint32\<close> and \<open>uint64\<close> are words; \<open>int\<close> and \<open>int64\<close> are integers with \<open>wrap64\<close> where they can overflow.

  \<^bold>\<open>Fuel and bounds.\<close> The YAML reader is a set of mutually recursive functions tied by \<open>run\<close> with fuel; \<open>block_fuel\<close>
  is four times the number of lines plus two, and \<open>yaml_reader_terminates\<close> shows that it is always
  enough. The construction of the automaton is a partial function and shown to end. A stream or body whose list
  of reads ends without an error or end of file is a call that has not returned (\<open>Waiting\<close>). The leak theorem
  of streams is for secrets of at most 65 bytes: the window keeps 64, and longer ones do leak. The
  journal theorems are for fewer than \<open>2 ^ 64\<close> records and for lines below the buffer of the verifier.

  \<^bold>\<open>Parameters.\<close> The Unicode lower-casing table, the parser and printer of floating-point numbers, random bytes,
  the URL parser, the file system, clocks, the HTTP client and the order in which a map is visited are arguments.
  The metrics compute with float64 as Go does; the entropy of a text is a real number, which can matter only at a
  threshold. Round trips through JSON are for valid UTF-8, which a client's session id need not be. The theorem on tampering exhibits a hash collision instead of
  assuming that there is none.

  \<^bold>\<open>Not modelled\<close>: listening, TLS, connection pooling and the time-outs of \<open>net/http\<close>, the path cleaning of its
  multiplexer, signals, log lines, parsing of the command line, time (the constant-time comparison of keys),
  plain getters, the setters that replace a clock, transport or engine by another in tests, and \<open>Flush\<close> of the
  ledger, which only waits. They are input and output or have no state of their own. Two idealisations of the
  ledger: a journal write torn by a crash is not a step, and the ring buffer stands in it as the queue that
  it refines, without a composition of the two step relations.
\<close>

end
